(* ===== verification/Cpp_Prelude.thy ===== *)
theory Cpp_Prelude
  imports "HOL-Library.Word" "HOL-Library.Multiset"
begin

text \<open>
  Shared vocabulary of the development: the fixed-width integers of the C++ sources, the
  outcome of a C++ computation (a value, an exception, or undefined behaviour), sequencing of
  such computations, and generic facts on lists and words that several components use.
\<close>

unbundle bit_operations_syntax

section \<open>Fixed-width integers\<close>

type_synonym u8 = "8 word"
type_synonym u16 = "16 word"
type_synonym u32 = "32 word"
type_synonym u64 = "64 word"

text \<open>The value ranges of the signed types (\<open>int\<close> is 32 bits, \<open>long\<close> is 64 bits wide).\<close>

abbreviation int_min :: int where "int_min \<equiv> - (2 ^ 31)"
abbreviation int_max :: int where "int_max \<equiv> 2 ^ 31 - 1"
abbreviation long_min :: int where "long_min \<equiv> - (2 ^ 63)"
abbreviation long_max :: int where "long_max \<equiv> 2 ^ 63 - 1"

section \<open>Outcomes of a computation\<close>

text \<open>
  \<open>UB\<close> marks an operation the C++ standard leaves undefined (an out-of-bounds array access, an
  over-wide shift, a signed overflow); the other constructors are the standard exceptions the
  code or the library functions it calls can throw.
\<close>

datatype cpp_error =
    UB string
  | Runtime_Error string
  | Invalid_Argument string
  | Out_Of_Range string

type_synonym 'a result = "cpp_error + 'a"

definition rbind :: "'a result \<Rightarrow> ('a \<Rightarrow> 'b result) \<Rightarrow> 'b result" where
  "rbind m f = (case m of Inl e \<Rightarrow> Inl e | Inr x \<Rightarrow> f x)"

lemma rbind_simps [simp]:
  "rbind (Inl e) f = Inl e"
  "rbind (Inr x) f = f x"
  by (simp_all add: rbind_def)

lemma rbind_cong [fundef_cong]:
  "m = m' \<Longrightarrow> (\<And>x. m' = Inr x \<Longrightarrow> f x = f' x) \<Longrightarrow> rbind m f = rbind m' f'"
  by (cases m') (simp_all add: rbind_def)

lemma rbind_Inr_iff: "rbind m f = Inr y \<longleftrightarrow> (\<exists>x. m = Inr x \<and> f x = Inr y)"
  by (cases m) simp_all

lemma rbind_Inl_iff: "rbind m f = Inl e \<longleftrightarrow> m = Inl e \<or> (\<exists>x. m = Inr x \<and> f x = Inl e)"
  by (cases m) auto

lemma rbind_assoc: "rbind (rbind m f) g = rbind m (\<lambda>x. rbind (f x) g)"
  by (cases m) simp_all

text \<open>The collection of rules that step through a sequence of computations.\<close>

named_theorems outcome_simps \<open>rules that evaluate sequenced computations\<close>

lemmas [outcome_simps] = rbind_simps rbind_Inr_iff rbind_Inl_iff rbind_assoc

text \<open>\<open>std::array\<close> element access: outside the array it is undefined behaviour.\<close>

definition array_get :: "'a list \<Rightarrow> int \<Rightarrow> 'a result" where
  "array_get a i =
     (if 0 \<le> i \<and> i < int (length a) then Inr (a ! nat i) else Inl (UB ''array index''))"

definition array_set :: "'a list \<Rightarrow> int \<Rightarrow> 'a \<Rightarrow> 'a list result" where
  "array_set a i x =
     (if 0 \<le> i \<and> i < int (length a) then Inr (a[nat i := x]) else Inl (UB ''array index''))"

lemma array_get_nat [simp]: "i < length a \<Longrightarrow> array_get a (int i) = Inr (a ! i)"
  by (simp add: array_get_def)

lemma array_set_nat [simp]: "i < length a \<Longrightarrow> array_set a (int i) x = Inr (a[i := x])"
  by (simp add: array_set_def)

section \<open>Signed division\<close>

text \<open>C++ integer division and remainder truncate towards zero.\<close>

definition trunc_div :: "int \<Rightarrow> int \<Rightarrow> int" where
  "trunc_div a b = sgn a * sgn b * (\<bar>a\<bar> div \<bar>b\<bar>)"

definition trunc_mod :: "int \<Rightarrow> int \<Rightarrow> int" where
  "trunc_mod a b = a - b * trunc_div a b"

lemma trunc_div_nonneg: "0 \<le> a \<Longrightarrow> 0 < b \<Longrightarrow> trunc_div a b = a div b"
  by (cases "a = 0") (simp_all add: trunc_div_def)

lemma trunc_mod_nonneg: "0 \<le> a \<Longrightarrow> 0 < b \<Longrightarrow> trunc_mod a b = a mod b"
  by (simp add: trunc_mod_def trunc_div_nonneg minus_mult_div_eq_mod)

text \<open>Signed \<open>int\<close> addition: an overflow is undefined behaviour.\<close>

definition int_add :: "int \<Rightarrow> int \<Rightarrow> int result" where
  "int_add a b =
     (if int_min \<le> a + b \<and> a + b \<le> int_max then Inr (a + b) else Inl (UB ''int overflow''))"

text \<open>The same for \<open>long\<close>.\<close>

definition long_check :: "int \<Rightarrow> int result" where
  "long_check x = (if long_min \<le> x \<and> x \<le> long_max then Inr x else Inl (UB ''long overflow''))"

definition long_sub :: "int \<Rightarrow> int \<Rightarrow> int result" where
  "long_sub a b = long_check (a - b)"

definition long_add :: "int \<Rightarrow> int \<Rightarrow> int result" where
  "long_add a b = long_check (a + b)"

definition long_mul :: "int \<Rightarrow> int \<Rightarrow> int result" where
  "long_mul a b = long_check (a * b)"

section \<open>Words and bit patterns\<close>

lemma unat_u8_less [simp]: "unat (b :: u8) < 256"
  using unsigned_less [of b] by simp

lemma unat_u16_less [simp]: "unat (c :: u16) < 65536"
  using unsigned_less [of c] by simp

lemma xor_eq_0_word: "x XOR y = 0 \<longleftrightarrow> x = y" for x y :: "'a::len word"
  by (metis xor.assoc xor.right_neutral xor_self_eq)

lemma xor_eq_0_nat: "x XOR y = 0 \<longleftrightarrow> x = y" for x y :: nat
  by (metis xor.assoc xor.right_neutral xor_self_eq)

lemma xor_div_2_nat: "(a XOR b) div 2 = (a div 2) XOR (b div 2)" for a b :: nat
  using drop_bit_xor [of 1 a b] unfolding drop_bit_eq_div by simp

lemma xor_less_exp_nat: "x < 2 ^ n \<Longrightarrow> y < 2 ^ n \<Longrightarrow> x XOR y < 2 ^ n" for x y :: nat
proof -
  assume "x < 2 ^ n" and "y < 2 ^ n"
  then have "drop_bit n x = 0" and "drop_bit n y = 0" by (simp_all add: drop_bit_eq_div)
  then have "drop_bit n (x XOR y) = 0" by simp
  then show ?thesis by (simp add: drop_bit_eq_div div_eq_0_iff)
qed

lemma xor_ge_exp: "2 ^ n \<le> x \<Longrightarrow> y < 2 ^ n \<Longrightarrow> 2 ^ n \<le> x XOR y" for x y :: nat
proof -
  assume x: "2 ^ n \<le> x" and y: "y < 2 ^ n"
  have "drop_bit n (x XOR y) = drop_bit n x XOR drop_bit n y" by simp
  also have "drop_bit n y = 0" using y by (simp add: drop_bit_eq_div)
  finally have "drop_bit n (x XOR y) = drop_bit n x" by simp
  moreover have "drop_bit n x \<noteq> 0" using x by (simp add: drop_bit_eq_div div_eq_0_iff)
  ultimately show ?thesis by (metis div_less drop_bit_eq_div not_le)
qed

lemma take_bit_xor_self:
  "u < 2 ^ Suc n \<Longrightarrow> take_bit n u XOR u = (if bit u n then 2 ^ n else 0)" for u :: nat
proof -
  assume u: "u < 2 ^ Suc n"
  have "bit (take_bit n u XOR u) k = bit (if bit u n then 2 ^ n else 0 :: nat) k" for k
  proof (cases "k < Suc n")
    case True
    then show ?thesis by (auto simp: bit_simps less_Suc_eq)
  next
    case False
    have "u = take_bit (Suc n) u" using u by (simp add: take_bit_nat_eq_self)
    then have "\<not> bit u k" using False by (metis bit_take_bit_iff)
    then show ?thesis using False by (auto simp: bit_simps)
  qed
  then show ?thesis by (intro bit_eqI) blast
qed

section \<open>Lists\<close>

text \<open>
  What \<open>std::sort\<close> promises of the sequence it leaves: the same elements in ascending order of the
  key; the order of elements with equal keys is not specified.
\<close>

definition sorts_by :: "('a \<Rightarrow> int) \<Rightarrow> ('a list \<Rightarrow> 'a list) \<Rightarrow> bool" where
  "sorts_by key f \<longleftrightarrow> (\<forall>xs. mset (f xs) = mset xs \<and> sorted (map key (f xs)))"

lemma sorts_by_sort_key: "sorts_by key (sort_key key)"
  by (simp add: sorts_by_def)

lemma sorts_byD:
  "sorts_by key f \<Longrightarrow> mset (f xs) = mset xs"
  "sorts_by key f \<Longrightarrow> sorted (map key (f xs))"
  "sorts_by key f \<Longrightarrow> set (f xs) = set xs"
  "sorts_by key f \<Longrightarrow> length (f xs) = length xs"
  by (auto simp: sorts_by_def dest: mset_eq_setD mset_eq_length)

lemma take_list_update_snoc:
  "i < length xs \<Longrightarrow> take (Suc i) (xs[i := x]) = take i xs @ [x]"
  by (simp add: take_Suc_conv_app_nth)

text \<open>The last value a function finds in a list, or the old one.\<close>

fun latest :: "('a \<Rightarrow> 'b option) \<Rightarrow> 'a list \<Rightarrow> 'b option \<Rightarrow> 'b option" where
  "latest g [] old = old"
| "latest g (x # xs) old = latest g xs (case g x of None \<Rightarrow> old | Some y \<Rightarrow> Some y)"

lemma latest_eq: "latest g xs old = (let ys = List.map_filter g xs in if ys = [] then old else Some (last ys))"
  by (induction xs arbitrary: old) (auto simp: map_filter_simps Let_def split: option.split)

end
