(* ===== verification/Crc16.thy ===== *)
theory Crc16
  imports Cpp_Prelude
begin

text \<open>
  The CRC-16/CCITT-FALSE routine of \<open>task1_uart_parser/src/crc16.cpp\<close>: the bit loop, the byte
  update and the buffer loop, a reference definition as a remainder of polynomials over GF(2),
  and the error-detection facts that the packet parser relies on.
\<close>

section \<open>The routine\<close>

definition kInit :: u16 where
  "kInit = 0xFFFF"

text \<open>One turn of the bit loop of \<open>Crc16Ccitt::update\<close>.\<close>

definition crc_bit :: "u16 \<Rightarrow> u16" where
  "crc_bit crc =
     (if crc AND 0x8000 \<noteq> 0 then push_bit 1 crc XOR 0x1021 else push_bit 1 crc)"

primrec crc_bits :: "nat \<Rightarrow> u16 \<Rightarrow> u16" where
  "crc_bits 0 crc = crc"
| "crc_bits (Suc n) crc = crc_bits n (crc_bit crc)"

definition crc_update :: "u16 \<Rightarrow> u8 \<Rightarrow> u16" where
  "crc_update crc byte = crc_bits 8 (crc XOR push_bit 8 (ucast byte))"

definition crc_compute :: "u8 list \<Rightarrow> u16" where
  "crc_compute data = foldl crc_update kInit data"

lemma crc_compute_snoc: "crc_compute (xs @ [b]) = crc_update (crc_compute xs) b"
  by (simp add: crc_compute_def)

lemma crc_compute_append: "crc_compute (xs @ ys) = foldl crc_update (crc_compute xs) ys"
  by (simp add: crc_compute_def)

lemma crc_bits_8:
  "crc_bits 8 c = crc_bit (crc_bit (crc_bit (crc_bit (crc_bit (crc_bit (crc_bit (crc_bit c)))))))"
  by (simp add: eval_nat_numeral)

lemmas crc_eval = crc_compute_def crc_update_def crc_bits_8 crc_bit_def kInit_def

text \<open>The published check value of CRC-16/CCITT-FALSE, the CRC of the digits 1 to 9.\<close>

lemma crc_compute_check_value:
  "crc_compute [0x31, 0x32, 0x33, 0x34, 0x35, 0x36, 0x37, 0x38, 0x39] = 0x29B1"
  by (simp add: crc_eval)

section \<open>The register as a linear map\<close>

lemma and_0x8000_iff: "x AND 0x8000 \<noteq> 0 \<longleftrightarrow> bit x 15" for x :: u16
proof -
  have "(0x8000 :: u16) = 2 ^ 15" by simp
  then show ?thesis by (simp only: and_exp_eq_0_iff_not_bit) simp
qed

lemma crc_bit_alt: "crc_bit x = push_bit 1 x XOR (if bit x 15 then 0x1021 else 0)"
  by (simp add: crc_bit_def and_0x8000_iff)

lemma crc_bit_xor: "crc_bit (x XOR y) = crc_bit x XOR crc_bit y"
proof -
  have "(if bit (x XOR y) 15 then 0x1021 else 0) =
      (if bit x 15 then 0x1021 else 0) XOR (if bit y 15 then 0x1021 else (0::u16))"
    by (simp add: bit_simps)
  then show ?thesis
    by (simp only: crc_bit_alt push_bit_xor) (simp only: xor.assoc xor.left_commute)
qed

lemma crc_bit_eq_0: "crc_bit x = 0 \<longleftrightarrow> x = 0"
proof
  assume h: "crc_bit x = 0"
  have n: "\<not> bit x 15"
  proof
    assume "bit x 15"
    then have "odd (crc_bit x)" by (simp add: crc_bit_alt even_xor_iff)
    then show False by (simp add: h)
  qed
  then have "push_bit 1 x = 0" using h by (simp add: crc_bit_def and_0x8000_iff)
  show "x = 0"
  proof (rule bit_eqI)
    fix k assume "possible_bit TYPE(16 word) k"
    then have k: "k < 16" by simp
    show "bit x k = bit 0 k"
    proof (cases "k = 15")
      case True with n show ?thesis by simp
    next
      case False
      with k have "bit (push_bit 1 x) (Suc k) = bit x k" by (subst bit_push_bit_iff) simp
      then show ?thesis using \<open>push_bit 1 x = 0\<close> by simp
    qed
  qed
qed (simp add: crc_bit_def)

lemma crc_bits_xor: "crc_bits n (x XOR y) = crc_bits n x XOR crc_bits n y"
  by (induction n arbitrary: x y) (simp_all add: crc_bit_xor)

lemma crc_bits_eq_0: "crc_bits n x = 0 \<longleftrightarrow> x = 0"
  by (induction n arbitrary: x) (simp_all add: crc_bit_eq_0)

lemma crc_bits_inj: "crc_bits n x = crc_bits n y \<longleftrightarrow> x = y"
  using crc_bits_eq_0 [of n "x XOR y"] by (simp add: crc_bits_xor xor_eq_0_word)

lemma crc_bits_add: "crc_bits (m + n) x = crc_bits n (crc_bits m x)"
  by (induction m arbitrary: x) simp_all

section \<open>Reference: the remainder of a polynomial over GF(2)\<close>

text \<open>
  A natural number stands for the polynomial over GF(2) whose coefficients are its bits;
  \<open>clmul\<close> is the carry-less product and \<open>crc_poly\<close> the generator
  \<open>x^16 + x^12 + x^5 + 1\<close>.
\<close>

definition crc_poly :: nat where "crc_poly = 0x11021"

fun clmul :: "nat \<Rightarrow> nat \<Rightarrow> nat" where
  "clmul a b = (if a = 0 then 0 else (if odd a then b else 0) XOR push_bit 1 (clmul (a div 2) b))"

declare clmul.simps [simp del]

lemma clmul_0 [simp]: "clmul 0 b = 0"
  by (simp add: clmul.simps)

lemma clmul_rec: "clmul a b = (if odd a then b else 0) XOR push_bit 1 (clmul (a div 2) b)"
  by (cases "a = 0") (simp_all add: clmul.simps [of a])

lemma clmul_xor: "clmul (a XOR b) g = clmul a g XOR clmul b g"
proof (induction a arbitrary: b rule: less_induct)
  case (less a)
  show ?case
  proof (cases "a = 0")
    case False
    then have IH: "clmul ((a div 2) XOR c) g = clmul (a div 2) g XOR clmul c g" for c
      by (intro less.IH) simp
    have odd: "(if odd (a XOR b) then g else 0) = (if odd a then g else 0) XOR (if odd b then g else 0)"
      by (simp add: even_xor_iff)
    show ?thesis
      by (simp only: clmul_rec [of "a XOR b"] clmul_rec [of a] clmul_rec [of b] odd xor_div_2_nat IH push_bit_xor)
         (simp only: xor.assoc xor.left_commute)
  qed simp
qed

lemma clmul_double: "clmul (2 * a) g = push_bit 1 (clmul a g)"
  by (subst clmul_rec) simp

lemma clmul_1 [simp]: "clmul (Suc 0) g = g"
  by (subst clmul_rec) simp

lemma clmul_1' [simp]: "clmul 1 g = g"
  by simp

text \<open>Congruence modulo the generator.\<close>

definition gf2_cong :: "nat \<Rightarrow> nat \<Rightarrow> bool" where
  "gf2_cong a b \<longleftrightarrow> (\<exists>q. a XOR b = clmul q crc_poly)"

lemma gf2_cong_refl [simp]: "gf2_cong a a"
  unfolding gf2_cong_def by (rule exI [of _ 0]) simp

lemma gf2_cong_trans: "gf2_cong a b \<Longrightarrow> gf2_cong b c \<Longrightarrow> gf2_cong a c"
  unfolding gf2_cong_def by (metis clmul_xor xor.assoc xor_self_eq xor.right_neutral)

lemma gf2_cong_sym: "gf2_cong a b \<Longrightarrow> gf2_cong b a"
  unfolding gf2_cong_def by (metis xor.commute)

lemma gf2_cong_xor: "gf2_cong a b \<Longrightarrow> gf2_cong (a XOR c) (b XOR c)"
  unfolding gf2_cong_def by (metis xor.assoc xor.commute xor_self_eq xor.right_neutral)

lemma gf2_cong_push: "gf2_cong a b \<Longrightarrow> gf2_cong (push_bit n a) (push_bit n b)"
proof (induction n)
  case (Suc n)
  then obtain q where "push_bit n a XOR push_bit n b = clmul q crc_poly"
    by (auto simp: gf2_cong_def)
  then have "push_bit 1 (push_bit n a XOR push_bit n b) = clmul (2 * q) crc_poly"
    by (simp add: clmul_double)
  then have "push_bit (Suc n) a XOR push_bit (Suc n) b = clmul (2 * q) crc_poly"
    by (simp only: push_bit_xor) (simp add: ac_simps)
  then show ?case by (auto simp: gf2_cong_def)
qed simp

lemma clmul_ge: "q \<noteq> 0 \<Longrightarrow> 2 ^ 16 \<le> clmul q crc_poly"
proof (induction q rule: less_induct)
  case (less q)
  show ?case
  proof (cases "q = 1")
    case False
    with less.prems have "2 ^ 16 \<le> clmul (q div 2) crc_poly" by (intro less.IH) auto
    then have "2 ^ 17 \<le> push_bit 1 (clmul (q div 2) crc_poly)" by simp
    moreover have "(if odd q then crc_poly else 0) < 2 ^ 17" by (simp add: crc_poly_def)
    ultimately have "2 ^ 17 \<le> push_bit 1 (clmul (q div 2) crc_poly) XOR (if odd q then crc_poly else 0)"
      by (rule xor_ge_exp)
    then show ?thesis by (subst clmul_rec) (simp add: xor.commute)
  qed (simp add: crc_poly_def)
qed

lemma gf2_cong_unique: "gf2_cong a b \<Longrightarrow> a < 2 ^ 16 \<Longrightarrow> b < 2 ^ 16 \<Longrightarrow> a = b"
proof -
  assume c: "gf2_cong a b" and ab: "a < 2 ^ 16" "b < 2 ^ 16"
  from c obtain q where q: "a XOR b = clmul q crc_poly" by (auto simp: gf2_cong_def)
  have "a XOR b < 2 ^ 16" using ab by (rule xor_less_exp_nat)
  with q have "q = 0" using clmul_ge [of q] by fastforce
  with q show "a = b" by (simp add: xor_eq_0_nat)
qed

lemma unat_crc_bit: "gf2_cong (unat (crc_bit x)) (push_bit 1 (unat x))"
proof -
  let ?u = "push_bit 1 (unat x)"
  have u: "?u < 2 ^ Suc 16" using unsigned_less [of x] by simp
  have b: "bit ?u 16 \<longleftrightarrow> bit x 15" by (subst bit_push_bit_iff) (simp add: bit_unsigned_iff)
  have "unat (crc_bit x) = take_bit 16 ?u XOR (if bit x 15 then 0x1021 else 0)"
    by (simp add: crc_bit_alt unsigned_xor_eq unsigned_push_bit_eq del: push_bit_Suc push_bit_of_1)
  then have "unat (crc_bit x) XOR ?u = (take_bit 16 ?u XOR ?u) XOR (if bit x 15 then 0x1021 else 0)"
    by (simp only: xor.assoc xor.commute)
  also have "\<dots> = clmul (if bit x 15 then 1 else 0) crc_poly"
    unfolding take_bit_xor_self [OF u] b by (simp add: crc_poly_def)
  finally show ?thesis unfolding gf2_cong_def by (rule exI)
qed

lemma unat_crc_bits: "gf2_cong (unat (crc_bits n x)) (push_bit n (unat x))"
proof (induction n arbitrary: x)
  case (Suc n)
  have "gf2_cong (push_bit n (unat (crc_bit x))) (push_bit n (push_bit 1 (unat x)))"
    by (rule gf2_cong_push [OF unat_crc_bit])
  with Suc.IH [of "crc_bit x"] show ?case
    by (simp add: gf2_cong_trans ac_simps)
qed simp

text \<open>
  The message polynomial: the bytes, most significant bit first, times \<open>x^16\<close>, plus the
  initial register value in front of the first sixteen bits.
\<close>

definition bytes_poly :: "u8 list \<Rightarrow> nat" where
  "bytes_poly data = foldl (\<lambda>acc b. push_bit 8 acc XOR unat b) 0 data"

definition crc_message :: "u8 list \<Rightarrow> nat" where
  "crc_message data = push_bit 16 (bytes_poly data) XOR push_bit (8 * length data) 0xFFFF"

lemma crc_message_snoc: "crc_message (data @ [b]) = push_bit 8 (crc_message data XOR push_bit 8 (unat b))"
  by (simp only: crc_message_def bytes_poly_def foldl_append foldl.simps push_bit_xor push_bit_push_bit
       length_append list.size mult_Suc_right)
     (simp add: ac_simps)

lemma unat_crc_update:
  "gf2_cong (unat (crc_update c b)) (push_bit 8 (unat c XOR push_bit 8 (unat b)))"
proof -
  have "unat (push_bit 8 (ucast b :: u16)) = push_bit 8 (unat b)"
  proof -
    have "push_bit 8 (unat b) < 2 ^ 16" using unsigned_less [of b] by (simp add: push_bit_eq_mult)
    moreover have "take_bit 16 (unat b) = unat b"
      by (rule take_bit_nat_eq_self, rule less_trans [OF unat_u8_less]) simp
    ultimately show ?thesis
      by (simp only: unsigned_push_bit_eq unsigned_ucast_eq) (simp add: take_bit_nat_eq_self)
  qed
  then show ?thesis
    using unat_crc_bits [of 8 "c XOR push_bit 8 (ucast b)"]
    by (simp only: crc_update_def unsigned_xor_eq)
qed

lemma crc_compute_cong: "gf2_cong (unat (crc_compute data)) (crc_message data)"
proof (induction data rule: rev_induct)
  case Nil
  show ?case by (simp add: crc_compute_def crc_message_def bytes_poly_def kInit_def)
next
  case (snoc b data)
  have "gf2_cong (push_bit 8 (unat (crc_compute data) XOR push_bit 8 (unat b)))
      (crc_message (data @ [b]))"
    unfolding crc_message_snoc by (intro gf2_cong_push gf2_cong_xor snoc.IH)
  with unat_crc_update show ?case by (simp only: crc_compute_snoc) (rule gf2_cong_trans)
qed

text \<open>
  C23: \<open>Crc16Ccitt::compute\<close> is polynomial division. A value \<open>c\<close> is the CRC of a buffer
  exactly when the message polynomial is a multiple of the generator plus \<open>c\<close>; in particular
  the remainder exists and is unique for every buffer.
\<close>

theorem crc_compute_remainder:
  "crc_compute data = c \<longleftrightarrow> (\<exists>q. crc_message data = clmul q crc_poly XOR unat c)"
proof -
  have "gf2_cong (unat c) (crc_message data) \<longleftrightarrow> (\<exists>q. crc_message data = clmul q crc_poly XOR unat c)"
    unfolding gf2_cong_def by (metis xor.assoc xor.commute xor_self_eq xor.right_neutral)
  moreover have "gf2_cong (unat c) (crc_message data) \<longleftrightarrow> unat c = unat (crc_compute data)"
  proof
    assume "gf2_cong (unat c) (crc_message data)"
    then have "gf2_cong (unat c) (unat (crc_compute data))"
      using crc_compute_cong gf2_cong_sym gf2_cong_trans by blast
    then show "unat c = unat (crc_compute data)"
      using unsigned_less [of c] unsigned_less [of "crc_compute data"] by (intro gf2_cong_unique) simp_all
  qed (simp add: crc_compute_cong)
  ultimately show ?thesis by (metis unsigned_word_eqI)
qed

section \<open>Error detection\<close>

lemma crc_update_inj: "crc_update c b = crc_update c' b \<longleftrightarrow> c = c'"
proof -
  have "c XOR k = c' XOR k \<longleftrightarrow> c = c'" for k :: u16
    by (metis xor.assoc xor_self_eq xor.right_neutral)
  then show ?thesis by (simp add: crc_update_def crc_bits_inj)
qed

lemma foldl_crc_update_inj: "foldl crc_update c s = foldl crc_update c' s \<longleftrightarrow> c = c'"
  by (induction s arbitrary: c c') (simp_all add: crc_update_inj)

lemma crc_bits_shift: "(\<And>i. 16 \<le> i + n \<Longrightarrow> \<not> bit x i) \<Longrightarrow> crc_bits n x = push_bit n x"
proof (induction n arbitrary: x)
  case (Suc n)
  have "crc_bit x = push_bit 1 x" using Suc.prems [of 15] by (simp add: crc_bit_alt)
  moreover have "crc_bits n (push_bit 1 x) = push_bit n (push_bit 1 x)"
    by (rule Suc.IH, subst bit_push_bit_iff) (use Suc.prems in auto)
  ultimately show ?case by (simp add: ac_simps)
qed simp

lemma crc_update_twice:
  "crc_update (crc_update c a) b =
     crc_bits 16 (c XOR (push_bit 8 (ucast a) XOR ucast b))"
proof -
  have "push_bit 8 (ucast b :: u16) = crc_bits 8 (ucast b)"
    by (rule crc_bits_shift [symmetric]) (auto simp: bit_simps dest: bit_imp_le_length)
  then have "crc_update (crc_update c a) b =
      crc_bits 8 (crc_bits 8 ((c XOR push_bit 8 (ucast a)) XOR ucast b))"
    by (simp only: crc_update_def crc_bits_xor)
  then show ?thesis using crc_bits_add [of 8 8] by (simp add: xor.assoc)
qed

lemma two_bytes_inj:
  "push_bit 8 (ucast a :: u16) XOR ucast b = push_bit 8 (ucast a') XOR ucast b' \<longleftrightarrow> a = a' \<and> b = b'"
  for a b a' b' :: u8
proof
  assume h: "push_bit 8 (ucast a :: u16) XOR ucast b = push_bit 8 (ucast a') XOR ucast b'"
  have "bit (push_bit 8 (ucast x :: u16) XOR ucast y) k =
      (if k < 8 then bit y k else k < 16 \<and> bit x (k - 8))" for x y :: u8 and k
    by (auto simp: bit_simps dest: bit_imp_le_length)
  with h have "(if k < 8 then bit b k else k < 16 \<and> bit a (k - 8)) =
      (if k < 8 then bit b' k else k < 16 \<and> bit a' (k - 8))" for k by metis
  note e = this
  have "bit a n = bit a' n" and "bit b n = bit b' n" if "n < 8" for n
    using e [of "n + 8"] e [of n] that by simp_all
  then show "a = a' \<and> b = b'" by (intro conjI bit_word_eqI) simp_all
qed simp

text \<open>
  The CRC detects every corruption confined to two adjacent bytes, wherever they stand in the
  buffer.
\<close>

lemma crc_two_bytes_iff:
  "crc_compute (p @ [a, b] @ s) = crc_compute (p @ [a', b'] @ s) \<longleftrightarrow> a = a' \<and> b = b'"
proof -
  have "crc_compute (p @ [x, y] @ s) =
      foldl crc_update (crc_bits 16 (crc_compute p XOR (push_bit 8 (ucast x) XOR ucast y))) s" for x y
    by (simp add: crc_compute_append crc_update_twice)
  moreover have "crc_compute p XOR k = crc_compute p XOR k' \<longleftrightarrow> k = k'" for k k'
    by (metis xor.assoc xor_self_eq xor.left_neutral)
  ultimately show ?thesis
    by (simp only: foldl_crc_update_inj crc_bits_inj two_bytes_inj)
qed

lemma crc_one_byte_iff:
  "crc_compute (p @ [a] @ s) = crc_compute (p @ [a'] @ s) \<longleftrightarrow> a = a'"
  using crc_two_bytes_iff [of p a 0 "[]" a' 0]
  by (simp add: crc_compute_append foldl_crc_update_inj crc_update_inj)

lemma crc_burst_iff:
  assumes "length m = length m'" and "length m \<le> 2"
  shows "crc_compute (p @ m @ s) = crc_compute (p @ m' @ s) \<longleftrightarrow> m = m'"
proof -
  from assms(2) consider "m = []" | a where "m = [a]" | a b where "m = [a, b]"
    by (cases m rule: remdups_adj.cases) auto
  then show ?thesis
  proof cases
    case 2
    with assms(1) obtain a' where "m' = [a']" by (cases m') auto
    with 2 crc_one_byte_iff show ?thesis by simp
  next
    case 3
    with assms(1) obtain a' b' where "m' = [a', b']" by (cases m' rule: remdups_adj.cases) auto
    with 3 crc_two_bytes_iff show ?thesis by simp
  qed (use assms(1) in simp)
qed

section \<open>The interface the packet parser uses\<close>

text \<open>
  The parser never sees a whole buffer: it keeps a register and updates it byte by byte. What it
  relies on is that the register always holds the checksum of the bytes seen so far, and that a
  short corruption changes the checksum.
\<close>

locale running_checksum =
  fixes start :: "'c"
    and step :: "'c \<Rightarrow> u8 \<Rightarrow> 'c"
    and whole :: "u8 list \<Rightarrow> 'c"
  assumes whole_Nil: "whole [] = start"
    and whole_snoc: "whole (xs @ [b]) = step (whole xs) b"
begin

lemma running: "foldl step (whole xs) ys = whole (xs @ ys)"
proof (induction ys arbitrary: xs)
  case (Cons y ys)
  from Cons.IH [of "xs @ [y]"] show ?case by (simp add: whole_snoc)
qed simp

lemma from_start: "foldl step start ys = whole ys"
  using running [of "[]"] by (simp add: whole_Nil)

lemma first_byte: "step start b = whole [b]"
  using whole_snoc [of "[]" b] by (simp add: whole_Nil)

end

locale burst_detecting = running_checksum +
  assumes burst: "length m = length m' \<Longrightarrow> length m \<le> 2 \<Longrightarrow>
    whole (p @ m @ s) = whole (p @ m' @ s) \<longleftrightarrow> m = m'"
begin

lemma corrupted_differs:
  "m \<noteq> m' \<Longrightarrow> length m = length m' \<Longrightarrow> length m \<le> 2 \<Longrightarrow> whole (p @ m' @ s) \<noteq> whole (p @ m @ s)"
  using burst [of m m' p s] by auto

end

interpretation crc: burst_detecting kInit crc_update crc_compute
proof
  show "crc_compute [] = kInit" by (simp add: crc_compute_def)
  show "crc_compute (xs @ [b]) = crc_update (crc_compute xs) b" for xs b
    by (simp add: crc_compute_def)
qed (rule crc_burst_iff)

end
