(* ===== verification/Uart_Parser.thy ===== *)
theory Uart_Parser
  imports Crc16
begin

text \<open>
  The streaming packet parser of \<open>task1_uart_parser/include/uart_parser.hpp\<close> and
  \<open>task1_uart_parser/src/uart_parser.cpp\<close>: its state, \<open>feed\<close> for one byte and for a buffer,
  \<open>finish\<close>, \<open>reset\<close> and \<open>resetStats\<close>, the invariant that rules out an access outside the
  payload buffer, and the facts about the counters.
\<close>

section \<open>State\<close>

definition kMaxPayloadLen :: nat where
  "kMaxPayloadLen = 255"

definition kSof1 :: u8 where
  "kSof1 = 0xAA"

definition kSof2 :: u8 where
  "kSof2 = 0x55"

text \<open>
  \<open>Packet::payload\<close> points into the parser's buffer (or is null): the packet carries the
  contents of the buffer at the time of the callback.
\<close>

record packet =
  pkt_length :: u8
  pkt_type :: u8
  pkt_payload :: "u8 list option"

record parser_stats =
  valid_packets :: u64
  crc_failures :: u64
  sync_losses :: u64
  discarded_bytes :: u64
  partial_packets :: u64

definition zero_stats :: parser_stats where
  "zero_stats = \<lparr>valid_packets = 0, crc_failures = 0, sync_losses = 0, discarded_bytes = 0,
     partial_packets = 0\<rparr>"

datatype pstate = WaitSof1 | WaitSof2 | Length | Type | Payload | CrcLo | CrcHi

text \<open>
  The fields are the C++ members, with the prefix \<open>up_\<close> in place of the trailing underscore.
  \<open>up_on_packet\<close> is the test \<open>if (on_packet_)\<close>: whether the parser was built with a callable
  callback. The packets handed to the callback are the second result of the operations.
\<close>

record uart_parser =
  up_on_packet :: bool
  up_stats :: parser_stats
  up_state :: pstate
  up_length :: u8
  up_type :: u8
  up_payload_index :: nat
  up_payload :: "u8 list"
  up_running_crc :: u16
  up_crc_lo :: u16
  up_in_flight :: bool

definition new_parser :: "bool \<Rightarrow> uart_parser" where
  "new_parser cb =
     \<lparr>up_on_packet = cb, up_stats = zero_stats, up_state = WaitSof1, up_length = 0, up_type = 0,
      up_payload_index = 0, up_payload = replicate kMaxPayloadLen 0, up_running_crc = 0, up_crc_lo = 0,
      up_in_flight = False\<rparr>"

section \<open>Operations\<close>

definition resetStats :: "uart_parser \<Rightarrow> uart_parser" where
  "resetStats p = p\<lparr>up_stats := zero_stats\<rparr>"

definition toWaitSof1 :: "bool \<Rightarrow> uart_parser \<Rightarrow> uart_parser" where
  "toWaitSof1 countSyncLoss p =
     (let p = (if countSyncLoss \<and> up_in_flight p
               then p\<lparr>up_stats := (up_stats p)\<lparr>sync_losses := sync_losses (up_stats p) + 1\<rparr>\<rparr>
               else p)
      in p\<lparr>up_state := WaitSof1, up_in_flight := False, up_payload_index := 0\<rparr>)"

definition handleFramingError :: "uart_parser \<Rightarrow> uart_parser" where
  "handleFramingError p = toWaitSof1 True p"

definition count_discarded :: "uart_parser \<Rightarrow> uart_parser" where
  "count_discarded p = p\<lparr>up_stats := (up_stats p)\<lparr>discarded_bytes := discarded_bytes (up_stats p) + 1\<rparr>\<rparr>"

definition finish_packet :: "u8 \<Rightarrow> uart_parser \<Rightarrow> uart_parser \<times> packet list" where
  "finish_packet byte p =
     (let received_crc = push_bit 8 (ucast byte) OR up_crc_lo p in
      if received_crc = up_running_crc p
      then (let p = p\<lparr>up_stats := (up_stats p)\<lparr>valid_packets := valid_packets (up_stats p) + 1\<rparr>\<rparr>;
                pkt = \<lparr>pkt_length = up_length p, pkt_type = up_type p,
                       pkt_payload = (if 0 < up_length p then Some (up_payload p) else None)\<rparr>
            in (toWaitSof1 False p, if up_on_packet p then [pkt] else []))
      else (let p = p\<lparr>up_stats := (up_stats p)\<lparr>crc_failures := crc_failures (up_stats p) + 1\<rparr>\<rparr>
            in (handleFramingError p, [])))"

definition feed :: "u8 \<Rightarrow> uart_parser \<Rightarrow> (uart_parser \<times> packet list) result" where
  "feed byte p =
     (case up_state p of
        WaitSof1 \<Rightarrow>
          if byte = kSof1 then Inr (p\<lparr>up_state := WaitSof2\<rparr>, [])
          else Inr (count_discarded p, [])
      | WaitSof2 \<Rightarrow>
          if byte = kSof2 then Inr (p\<lparr>up_state := Length, up_in_flight := True\<rparr>, [])
          else if byte = kSof1 then Inr ((count_discarded p)\<lparr>up_state := WaitSof2\<rparr>, [])
          else Inr ((count_discarded p)\<lparr>up_state := WaitSof1\<rparr>, [])
      | Length \<Rightarrow>
          Inr (p\<lparr>up_length := byte, up_payload_index := 0, up_running_crc := kInit, up_state := Type\<rparr>, [])
      | Type \<Rightarrow>
          Inr (p\<lparr>up_type := byte, up_running_crc := crc_update (up_running_crc p) byte,
                 up_state := (if up_length p = 0 then CrcLo else Payload)\<rparr>, [])
      | Payload \<Rightarrow>
          rbind (array_set (up_payload p) (int (up_payload_index p)) byte) (\<lambda>buf.
            let p = p\<lparr>up_payload := buf, up_payload_index := up_payload_index p + 1,
                      up_running_crc := crc_update (up_running_crc p) byte\<rparr>
            in Inr (if unat (up_length p) \<le> up_payload_index p then p\<lparr>up_state := CrcLo\<rparr> else p, []))
      | CrcLo \<Rightarrow> Inr (p\<lparr>up_crc_lo := ucast byte, up_state := CrcHi\<rparr>, [])
      | CrcHi \<Rightarrow> Inr (finish_packet byte p))"

text \<open>\<open>feed(data, len)\<close>: the bytes of the buffer in order.\<close>

fun feed_bytes :: "u8 list \<Rightarrow> uart_parser \<Rightarrow> (uart_parser \<times> packet list) result" where
  "feed_bytes [] p = Inr (p, [])"
| "feed_bytes (b # bs) p =
     rbind (feed b p) (\<lambda>(p, out). rbind (feed_bytes bs p) (\<lambda>(p, out'). Inr (p, out @ out')))"

definition reset :: "uart_parser \<Rightarrow> uart_parser" where
  "reset p = p\<lparr>up_state := WaitSof1, up_length := 0, up_type := 0, up_payload_index := 0,
     up_running_crc := 0, up_crc_lo := 0, up_in_flight := False\<rparr>"

definition finish :: "uart_parser \<Rightarrow> uart_parser" where
  "finish p =
     (let p = (if up_state p \<noteq> WaitSof1
               then p\<lparr>up_stats := (up_stats p)\<lparr>partial_packets := partial_packets (up_stats p) + 1\<rparr>\<rparr>
               else p)
      in reset p)"

named_theorems uart_simps \<open>the definitions of the parser operations\<close>

lemmas [uart_simps] = feed_def finish_packet_def toWaitSof1_def handleFramingError_def
  count_discarded_def Let_def

section \<open>Invariant\<close>

definition in_packet :: "pstate \<Rightarrow> bool" where
  "in_packet s \<longleftrightarrow> s \<noteq> WaitSof1 \<and> s \<noteq> WaitSof2"

definition payload_so_far :: "uart_parser \<Rightarrow> u8 list" where
  "payload_so_far p = take (up_payload_index p) (up_payload p)"

definition up_inv :: "uart_parser \<Rightarrow> bool" where
  "up_inv p \<longleftrightarrow>
     length (up_payload p) = kMaxPayloadLen \<and>
     up_in_flight p = in_packet (up_state p) \<and>
     (up_state p = Type \<longrightarrow> up_payload_index p = 0 \<and> up_running_crc p = kInit) \<and>
     (up_state p = Payload \<longrightarrow> up_payload_index p < unat (up_length p)) \<and>
     (up_state p \<in> {CrcLo, CrcHi} \<longrightarrow> up_payload_index p = unat (up_length p)) \<and>
     (up_state p \<in> {Payload, CrcLo, CrcHi} \<longrightarrow>
        up_running_crc p = crc_compute (up_type p # payload_so_far p))"

lemma unat_less_eq_kMax: "unat (n :: u8) \<le> kMaxPayloadLen"
  using unat_u8_less [of n] by (simp add: kMaxPayloadLen_def del: unat_u8_less)

lemma unat_pos_iff: "0 < unat n \<longleftrightarrow> n \<noteq> 0" for n :: u8
  by (simp add: unat_gt_0)

lemma new_parser_inv: "up_inv (new_parser cb)"
  by (simp add: up_inv_def new_parser_def in_packet_def)

lemma reset_inv: "up_inv p \<Longrightarrow> up_inv (reset p)"
  by (simp add: up_inv_def reset_def in_packet_def)

lemma finish_inv: "up_inv p \<Longrightarrow> up_inv (finish p)"
  by (simp add: up_inv_def reset_def finish_def in_packet_def)

lemma resetStats_inv: "up_inv p \<Longrightarrow> up_inv (resetStats p)"
  by (simp add: up_inv_def resetStats_def payload_so_far_def)

text \<open>One payload byte: the write is inside the buffer.\<close>

lemma feed_payload:
  fixes p :: uart_parser and b :: u8
  assumes "up_inv p" and "up_state p = Payload"
  defines "p' \<equiv> p\<lparr>up_payload := (up_payload p)[up_payload_index p := b],
      up_payload_index := up_payload_index p + 1,
      up_running_crc := crc_update (up_running_crc p) b\<rparr>"
  shows "feed b p = Inr (if unat (up_length p) \<le> up_payload_index p + 1
      then p'\<lparr>up_state := CrcLo\<rparr> else p', [])"
proof -
  have "up_payload_index p < length (up_payload p)"
    using assms(1,2) unat_less_eq_kMax [of "up_length p"] by (simp add: up_inv_def)
  then show ?thesis using assms(2) by (simp add: feed_def p'_def Let_def)
qed

lemma finish_packet_inv: "up_inv p \<Longrightarrow> up_inv (fst (finish_packet b p))"
  by (simp add: uart_simps up_inv_def in_packet_def)

lemma feed_inv:
  assumes inv: "up_inv p"
  shows "\<exists>p' out. feed b p = Inr (p', out) \<and> up_inv p'"
proof (cases "up_state p")
  case WaitSof1
  with inv show ?thesis by (auto simp: uart_simps up_inv_def in_packet_def)
next
  case WaitSof2
  with inv show ?thesis by (auto simp: uart_simps up_inv_def in_packet_def)
next
  case Length
  with inv show ?thesis by (simp add: feed_def up_inv_def in_packet_def)
next
  case Type
  with inv show ?thesis
    by (auto simp: feed_def up_inv_def in_packet_def payload_so_far_def crc.first_byte unat_pos_iff)
next
  case Payload
  have "up_payload_index p < length (up_payload p)"
    using inv Payload unat_less_eq_kMax [of "up_length p"] by (simp add: up_inv_def)
  with inv Payload show ?thesis
    by (auto simp: feed_payload up_inv_def in_packet_def payload_so_far_def
          take_list_update_snoc crc.whole_snoc simp flip: append_Cons)
next
  case CrcLo
  with inv show ?thesis by (simp add: feed_def up_inv_def in_packet_def payload_so_far_def)
next
  case CrcHi
  with inv finish_packet_inv [of p b] show ?thesis
    by (cases "finish_packet b p") (simp add: feed_def)
qed

lemma feed_bytes_append:
  "feed_bytes (xs @ ys) p =
     rbind (feed_bytes xs p) (\<lambda>(p, out). rbind (feed_bytes ys p) (\<lambda>(p, out'). Inr (p, out @ out')))"
proof (induction xs arbitrary: p)
  case Nil
  show ?case by (cases "feed_bytes ys p") auto
next
  case (Cons x xs)
  show ?case
  proof (cases "feed x p")
    case (Inr r)
    obtain q o1 where r: "r = (q, o1)" by (cases r)
    show ?thesis
      by (simp add: Inr r Cons.IH rbind_def split: sum.split prod.split)
  qed simp
qed

lemma feed_bytes_inv:
  "up_inv p \<Longrightarrow> \<exists>p' out. feed_bytes bs p = Inr (p', out) \<and> up_inv p'"
proof (induction bs arbitrary: p)
  case (Cons b bs)
  from feed_inv [OF Cons.prems, of b] obtain q o1 where 1: "feed b p = Inr (q, o1)" and q: "up_inv q"
    by auto
  from Cons.IH [OF q] obtain r o2 where "feed_bytes bs q = Inr (r, o2)" and "up_inv r" by auto
  with 1 show ?case by simp
qed simp

section \<open>Runs of the public operations\<close>

text \<open>Any sequence of calls a program can make on one parser object.\<close>

datatype parser_op = Feed u8 | Feed_Buffer "u8 list" | Finish | Reset | Reset_Stats

fun run_op :: "parser_op \<Rightarrow> uart_parser \<Rightarrow> (uart_parser \<times> packet list) result" where
  "run_op (Feed b) p = feed b p"
| "run_op (Feed_Buffer bs) p = feed_bytes bs p"
| "run_op Finish p = Inr (finish p, [])"
| "run_op Reset p = Inr (reset p, [])"
| "run_op Reset_Stats p = Inr (resetStats p, [])"

fun run_ops :: "parser_op list \<Rightarrow> uart_parser \<Rightarrow> (uart_parser \<times> packet list) result" where
  "run_ops [] p = Inr (p, [])"
| "run_ops (x # xs) p =
     rbind (run_op x p) (\<lambda>(p, out). rbind (run_ops xs p) (\<lambda>(p, out'). Inr (p, out @ out')))"

definition stats_inv :: "uart_parser \<Rightarrow> bool" where
  "stats_inv p \<longleftrightarrow> up_inv p \<and> sync_losses (up_stats p) = crc_failures (up_stats p)"

lemma feed_stats_inv:
  assumes inv: "stats_inv p" and f: "feed b p = Inr (p', out)"
  shows "stats_inv p'"
proof -
  from inv have up: "up_inv p" and eq: "sync_losses (up_stats p) = crc_failures (up_stats p)"
    by (simp_all add: stats_inv_def)
  have "sync_losses (up_stats p') = crc_failures (up_stats p')"
  proof (cases "up_state p = Payload")
    case True
    with up f eq show ?thesis by (auto simp: feed_payload split: if_splits)
  next
    case False
    with up f eq show ?thesis
      by (auto simp: uart_simps up_inv_def in_packet_def split: pstate.splits if_splits)
  qed
  moreover have "up_inv p'" using feed_inv [OF up, of b] f by auto
  ultimately show ?thesis by (simp add: stats_inv_def)
qed

lemma feed_bytes_stats_inv:
  "stats_inv p \<Longrightarrow> feed_bytes bs p = Inr (p', out) \<Longrightarrow> stats_inv p'"
  by (induction bs arbitrary: p p' out)
     (auto simp: rbind_Inr_iff split: prod.splits dest: feed_stats_inv)

lemma run_op_ok: "stats_inv p \<Longrightarrow> \<exists>p' out. run_op x p = Inr (p', out) \<and> stats_inv p'"
proof (cases x)
  case (Feed b)
  moreover assume p: "stats_inv p"
  ultimately show ?thesis using feed_inv [of p b] feed_stats_inv [OF p] by (auto simp: stats_inv_def)
next
  case (Feed_Buffer bs)
  moreover assume p: "stats_inv p"
  ultimately show ?thesis
    using feed_bytes_inv [of p bs] feed_bytes_stats_inv [OF p] by (auto simp: stats_inv_def)
next
  case Finish
  moreover assume "stats_inv p"
  ultimately show ?thesis using finish_inv [of p] by (auto simp: stats_inv_def finish_def reset_def)
next
  case Reset
  moreover assume "stats_inv p"
  ultimately show ?thesis using reset_inv [of p] by (auto simp: stats_inv_def reset_def)
next
  case Reset_Stats
  moreover assume "stats_inv p"
  ultimately show ?thesis
    using resetStats_inv [of p] by (auto simp: stats_inv_def resetStats_def zero_stats_def)
qed

lemma run_ops_ok: "stats_inv p \<Longrightarrow> \<exists>p' out. run_ops xs p = Inr (p', out) \<and> stats_inv p'"
proof (induction xs arbitrary: p)
  case (Cons x xs)
  from run_op_ok [OF Cons.prems, of x] obtain q o1 where 1: "run_op x p = Inr (q, o1)" and q: "stats_inv q"
    by auto
  from Cons.IH [OF q] obtain r o2 where "run_ops xs q = Inr (r, o2)" and "stats_inv r" by auto
  with 1 show ?case by simp
qed simp

lemma new_parser_stats_inv: "stats_inv (new_parser cb)"
  using new_parser_inv by (simp add: stats_inv_def new_parser_def zero_stats_def)

text \<open>
  C6: no sequence of calls makes the parser write outside its 255-byte payload buffer: every run
  of \<open>feed\<close>, \<open>finish\<close>, \<open>reset\<close> and \<open>resetStats\<close> on a new parser completes, keeps the state
  invariant, and keeps the counter of lost synchronisations equal to the counter of CRC failures.
\<close>

theorem parser_never_faults:
  "\<exists>p out. run_ops ops (new_parser cb) = Inr (p, out) \<and> up_inv p \<and>
     sync_losses (up_stats p) = crc_failures (up_stats p)"
  using run_ops_ok [OF new_parser_stats_inv] by (auto simp: stats_inv_def)

end
