(* ===== verification/Uart_Spec.thy ===== *)
theory Uart_Spec
  imports Uart_Parser
begin

text \<open>
  An abstract specification of the packet protocol and the proof that the byte-at-a-time parser
  implements it. \<open>scan\<close> cuts a whole byte stream into items (noise, false starts, complete frames,
  an unfinished tail); the parser, fed the same bytes one at a time, delivers the packets of the
  frames whose CRC is right, counts what the items say, and stops in the state the tail determines.
  From this follow the round trip of an encoder, recovery from noise, rejection of corrupted
  frames, and an exact account of every byte of a stream.
\<close>

section \<open>Cutting a stream into items\<close>

text \<open>
  \<open>Skip b\<close> is a byte outside any packet; \<open>Resync\<close> is a first marker byte followed by another
  one, which becomes the new candidate; \<open>False_Sof c\<close> is a first marker byte followed by a
  byte \<open>c\<close> that is neither marker; \<open>Frame\<close> holds length, type, payload and the two CRC bytes;
  \<open>Partial\<close> is a frame (or a lone first marker byte) cut off by the end of the stream.
\<close>

datatype item =
    Skip u8
  | Resync
  | False_Sof u8
  | Frame u8 u8 "u8 list" u8 u8
  | Partial "u8 list"

function (sequential) scan :: "u8 list \<Rightarrow> item list" and scan_sof :: "u8 list \<Rightarrow> item list" where
  "scan [] = []"
| "scan (b # bs) = (if b = kSof1 then scan_sof bs else Skip b # scan bs)"
| "scan_sof [] = [Partial [kSof1]]"
| "scan_sof (c # cs) =
     (if c = kSof2 then
        (case cs of
           len # ty # rest \<Rightarrow>
             if unat len + 2 \<le> length rest
             then Frame len ty (take (unat len) rest) (rest ! unat len) (rest ! Suc (unat len))
                    # scan (drop (unat len + 2) rest)
             else [Partial (kSof1 # kSof2 # cs)]
         | _ \<Rightarrow> [Partial (kSof1 # kSof2 # cs)])
      else if c = kSof1 then Resync # scan_sof cs
      else False_Sof c # scan cs)"
  by pat_completeness auto
termination
  by (relation "measure (case_sum (\<lambda>bs. length bs) (\<lambda>bs. length bs))") auto

fun item_bytes :: "item \<Rightarrow> u8 list" where
  "item_bytes (Skip b) = [b]"
| "item_bytes Resync = [kSof1]"
| "item_bytes (False_Sof c) = [kSof1, c]"
| "item_bytes (Frame len ty payload lo hi) = [kSof1, kSof2, len, ty] @ payload @ [lo, hi]"
| "item_bytes (Partial bs) = bs"

lemma scan_lossless_aux:
  "concat (map item_bytes (scan bs)) = bs"
  "concat (map item_bytes (scan_sof cs)) = kSof1 # cs"
proof (induction bs and cs rule: scan_scan_sof.induct)
  case (4 c cs)
  have split: "take n r @ r ! n # r ! Suc n # drop (Suc (Suc n)) r = r" if "Suc (Suc n) \<le> length r"
    for n and r :: "u8 list"
    using that by (metis Cons_nth_drop_Suc Suc_le_eq append_take_drop_id less_Suc_eq_le less_imp_le)
  from 4 show ?case
    by (auto split: list.splits simp: split)
qed auto

section \<open>What each item means for the packets and the counters\<close>

definition frame_crc :: "u8 \<Rightarrow> u8 list \<Rightarrow> u16" where
  "frame_crc ty payload = crc_compute (ty # payload)"

definition wire_crc :: "u8 \<Rightarrow> u8 \<Rightarrow> u16" where
  "wire_crc lo hi = push_bit 8 (ucast hi) OR ucast lo"

fun item_packets :: "item \<Rightarrow> (u8 \<times> u8 \<times> u8 list) list" where
  "item_packets (Frame len ty payload lo hi) =
     (if wire_crc lo hi = frame_crc ty payload then [(len, ty, payload)] else [])"
| "item_packets _ = []"

fun count_item :: "item \<Rightarrow> parser_stats \<Rightarrow> parser_stats" where
  "count_item (Frame len ty payload lo hi) st =
     (if wire_crc lo hi = frame_crc ty payload
      then st\<lparr>valid_packets := valid_packets st + 1\<rparr>
      else st\<lparr>crc_failures := crc_failures st + 1, sync_losses := sync_losses st + 1\<rparr>)"
| "count_item (Partial bs) st = st"
| "count_item _ st = st\<lparr>discarded_bytes := discarded_bytes st + 1\<rparr>"

text \<open>What the callback can read of a packet: \<open>length\<close> bytes from the payload pointer.\<close>

definition packet_view :: "packet \<Rightarrow> u8 \<times> u8 \<times> u8 list" where
  "packet_view pkt = (pkt_length pkt, pkt_type pkt,
     case pkt_payload pkt of None \<Rightarrow> [] | Some buf \<Rightarrow> take (unat (pkt_length pkt)) buf)"

text \<open>The state in which an unfinished frame leaves the parser.\<close>

definition partial_state :: "u8 list \<Rightarrow> pstate" where
  "partial_state bs =
     (case bs of
        [_] \<Rightarrow> WaitSof2
      | [_, _] \<Rightarrow> Length
      | [_, _, _] \<Rightarrow> Type
      | _ # _ # len # _ # rest \<Rightarrow>
          if length rest < unat len then Payload
          else if length rest = unat len then CrcLo else CrcHi
      | [] \<Rightarrow> WaitSof1)"

fun resume_state :: "item list \<Rightarrow> pstate" where
  "resume_state [] = WaitSof1"
| "resume_state [Partial bs] = partial_state bs"
| "resume_state (_ # items) = resume_state items"

section \<open>The parser on the parts of a frame\<close>

lemma feed_payload_bytes:
  assumes "up_inv p" and "up_state p = Payload" and "xs \<noteq> []"
    and "up_payload_index p + length xs \<le> unat (up_length p)"
  shows "\<exists>p'. feed_bytes xs p = Inr (p', []) \<and> up_inv p' \<and>
     up_payload_index p' = up_payload_index p + length xs \<and>
     payload_so_far p' = payload_so_far p @ xs \<and>
     up_stats p' = up_stats p \<and> up_on_packet p' = up_on_packet p \<and>
     up_length p' = up_length p \<and> up_type p' = up_type p \<and>
     up_state p' = (if up_payload_index p + length xs = unat (up_length p) then CrcLo else Payload)"
  using assms
proof (induction xs arbitrary: p)
  case (Cons x xs)
  have idx: "up_payload_index p < length (up_payload p)"
    using Cons.prems unat_less_eq_kMax [of "up_length p"] by (simp add: up_inv_def)
  define q where "q = fst (projr (feed x p))"
  have f: "feed x p = Inr (q, [])"
    using Cons.prems by (simp add: feed_payload q_def)
  have q: "up_inv q" using feed_inv [OF Cons.prems(1), of x] f by auto
  have fields: "up_payload_index q = up_payload_index p + 1" "payload_so_far q = payload_so_far p @ [x]"
     "up_stats q = up_stats p" "up_on_packet q = up_on_packet p" "up_length q = up_length p"
     "up_type q = up_type p"
     "up_state q = (if up_payload_index p + 1 = unat (up_length p) then CrcLo else Payload)"
    using Cons.prems idx
    by (auto simp: q_def feed_payload payload_so_far_def take_list_update_snoc split: if_splits)
  show ?case
  proof (cases "xs = []")
    case True
    with f q fields show ?thesis by simp
  next
    case False
    with Cons.prems fields have "up_state q = Payload" by (cases xs) auto
    from Cons.IH [OF q this False] Cons.prems fields f show ?thesis by fastforce
  qed
qed simp

lemma feed_header:
  assumes "up_inv p" and "up_state p = Length"
  shows "\<exists>q. feed_bytes [len, ty] p = Inr (q, []) \<and> up_inv q \<and> up_length q = len \<and> up_type q = ty \<and>
     payload_so_far q = [] \<and> up_payload_index q = 0 \<and> up_stats q = up_stats p \<and>
     up_on_packet q = up_on_packet p \<and> up_state q = (if len = 0 then CrcLo else Payload)"
  using feed_bytes_inv [OF assms(1), of "[len, ty]"] assms
  by (auto simp: feed_def payload_so_far_def)

lemma feed_header_body:
  assumes "up_inv p" and "up_state p = Length" and "length rest \<le> unat len"
  shows "\<exists>q. feed_bytes (len # ty # rest) p = Inr (q, []) \<and> up_inv q \<and> up_length q = len \<and>
     up_type q = ty \<and> payload_so_far q = rest \<and> up_payload_index q = length rest \<and>
     up_stats q = up_stats p \<and> up_on_packet q = up_on_packet p \<and>
     up_state q = (if length rest = unat len then CrcLo else Payload)"
proof -
  from feed_header [OF assms(1,2)] obtain q where
    h: "feed_bytes [len, ty] p = Inr (q, [])" and q: "up_inv q" "up_length q = len" "up_type q = ty"
      "payload_so_far q = []" "up_payload_index q = 0" "up_stats q = up_stats p"
      "up_on_packet q = up_on_packet p" "up_state q = (if len = 0 then CrcLo else Payload)"
    by blast
  show ?thesis
  proof (cases "rest = []")
    case True
    with h q show ?thesis by (auto simp: unat_eq_zero)
  next
    case False
    with assms(3) have "up_state q = Payload" using q by (auto simp: unat_eq_zero)
    from feed_payload_bytes [OF q(1) this False] q assms(3)
    obtain r where "feed_bytes rest q = Inr (r, [])" "up_inv r" "up_payload_index r = length rest"
      "payload_so_far r = rest" "up_stats r = up_stats p" "up_on_packet r = up_on_packet p"
      "up_length r = len" "up_type r = ty"
      "up_state r = (if length rest = unat len then CrcLo else Payload)"
      by auto
    with h show ?thesis using feed_bytes_append [of "[len, ty]" rest p] by auto
  qed
qed

lemma packet_view_parser:
  "up_inv p \<Longrightarrow> up_state p = CrcHi \<Longrightarrow>
   packet_view \<lparr>pkt_length = up_length p, pkt_type = up_type p,
      pkt_payload = (if 0 < up_length p then Some (up_payload p) else None)\<rparr> =
     (up_length p, up_type p, payload_so_far p)"
  by (auto simp: packet_view_def payload_so_far_def up_inv_def word_gt_0)

lemma feed_crc_bytes:
  assumes "up_inv p" and "up_state p = CrcLo" and "up_on_packet p"
  shows "\<exists>q out. feed_bytes [lo, hi] p = Inr (q, out) \<and> up_inv q \<and> up_state q = WaitSof1 \<and>
     up_on_packet q \<and>
     up_stats q = count_item (Frame (up_length p) (up_type p) (payload_so_far p) lo hi) (up_stats p) \<and>
     map packet_view out = item_packets (Frame (up_length p) (up_type p) (payload_so_far p) lo hi)"
proof -
  define q where "q = p\<lparr>up_crc_lo := ucast lo, up_state := CrcHi\<rparr>"
  have 1: "feed lo p = Inr (q, [])" using assms(2) by (simp add: feed_def q_def)
  have q: "up_inv q" using feed_inv [OF assms(1), of lo] 1 by auto
  have s: "up_state q = CrcHi" "up_on_packet q" "up_length q = up_length p" "up_type q = up_type p"
      "payload_so_far q = payload_so_far p" "up_stats q = up_stats p" "up_crc_lo q = ucast lo"
    using assms(3) by (simp_all add: q_def payload_so_far_def)
  have crc: "up_running_crc q = frame_crc (up_type p) (payload_so_far p)" "up_in_flight q"
    using q s by (simp_all add: up_inv_def frame_crc_def in_packet_def)
  obtain r out where 2: "feed hi q = Inr (r, out)" and r: "up_inv r"
    using feed_inv [OF q, of hi] by auto
  have "finish_packet hi q = (r, out)" using 2 s by (simp add: feed_def)
  then have "up_state r = WaitSof1 \<and> up_on_packet r \<and>
     up_stats r = count_item (Frame (up_length p) (up_type p) (payload_so_far p) lo hi) (up_stats p) \<and>
     map packet_view out = item_packets (Frame (up_length p) (up_type p) (payload_so_far p) lo hi)"
    using packet_view_parser [OF q s(1)] s crc
    by (auto simp: finish_packet_def Let_def toWaitSof1_def handleFramingError_def wire_crc_def
          split: if_splits)
  with 1 2 r show ?thesis by simp
qed

lemma feed_frame:
  assumes "up_inv p" and "up_state p = Length" and "up_on_packet p" and "length payload = unat len"
  shows "\<exists>q out. feed_bytes (len # ty # payload @ [lo, hi]) p = Inr (q, out) \<and> up_inv q \<and>
     up_state q = WaitSof1 \<and> up_on_packet q \<and>
     up_stats q = count_item (Frame len ty payload lo hi) (up_stats p) \<and>
     map packet_view out = item_packets (Frame len ty payload lo hi)"
proof -
  from feed_header_body [OF assms(1,2), of payload len ty] assms(3,4) obtain q where
    h: "feed_bytes (len # ty # payload) p = Inr (q, [])" and q: "up_inv q" "up_length q = len"
      "up_type q = ty" "payload_so_far q = payload" "up_stats q = up_stats p" "up_on_packet q"
      "up_state q = CrcLo"
    by auto
  from feed_crc_bytes [OF q(1,7,6), of lo hi] q h show ?thesis
    using feed_bytes_append [of "len # ty # payload" "[lo, hi]" p] by auto
qed

lemma feed_partial:
  assumes "up_inv p" and "up_state p = Length"
    and "\<forall>len ty rest. cs = len # ty # rest \<longrightarrow> length rest < unat len + 2"
  shows "\<exists>q. feed_bytes cs p = Inr (q, []) \<and> up_inv q \<and> up_on_packet q = up_on_packet p \<and>
     up_stats q = up_stats p \<and> up_state q = partial_state (kSof1 # kSof2 # cs)"
proof (cases cs rule: remdups_adj.cases)
  case 1
  with assms show ?thesis by (simp add: partial_state_def)
next
  case (2 len)
  with assms feed_inv [OF assms(1), of len] show ?thesis by (auto simp: partial_state_def feed_def)
next
  case (3 len ty rest)
  with assms(3) have short: "length rest < unat len + 2" by blast
  show ?thesis
  proof (cases "length rest \<le> unat len")
    case True
    with feed_header_body [OF assms(1,2) True, of ty] 3 show ?thesis
      by (auto simp: partial_state_def split: list.splits)
  next
    case False
    with short have l: "length rest = Suc (unat len)" by simp
    then obtain body lo where rest: "rest = body @ [lo]" and b: "length body = unat len"
      by (cases rest rule: rev_cases) auto
    from feed_header_body [OF assms(1,2), of body len ty] b obtain q where
      h: "feed_bytes (len # ty # body) p = Inr (q, [])" and q: "up_inv q" "up_stats q = up_stats p"
        "up_on_packet q = up_on_packet p" "up_state q = CrcLo"
      by auto
    from q feed_inv [OF q(1), of lo] have "\<exists>r. feed lo q = Inr (r, []) \<and> up_inv r \<and>
        up_stats r = up_stats p \<and> up_on_packet r = up_on_packet p \<and> up_state r = CrcHi"
      by (auto simp: feed_def)
    with h 3 rest l show ?thesis
      using feed_bytes_append [of "len # ty # body" "[lo]" p] by (auto simp: partial_state_def)
  qed
qed

section \<open>The parser implements the batch decoder\<close>

definition parses_to :: "uart_parser \<Rightarrow> u8 list \<Rightarrow> item list \<Rightarrow> bool" where
  "parses_to p bs items \<longleftrightarrow>
     (\<exists>q out. feed_bytes bs p = Inr (q, out) \<and> up_inv q \<and> up_on_packet q \<and>
        map packet_view out = concat (map item_packets items) \<and>
        up_stats q = fold count_item items (up_stats p) \<and> up_state q = resume_state items)"

lemma resume_state_Cons: "(\<And>bs. x \<noteq> Partial bs) \<Longrightarrow> resume_state (x # items) = resume_state items"
  by (cases x) auto

lemma parses_to_append:
  assumes "feed_bytes xs p = Inr (q, out)" and "parses_to q ys items"
    and "up_stats q = count_item x (up_stats p)" and "map packet_view out = item_packets x"
    and "\<And>bs. x \<noteq> Partial bs"
  shows "parses_to p (xs @ ys) (x # items)"
  using assms by (auto simp: parses_to_def feed_bytes_append resume_state_Cons)

lemma parses_to_step:
  assumes "feed b p = Inr (q, [])" and "parses_to q ys items" and "up_stats q = up_stats p"
  shows "parses_to p (b # ys) items"
  using assms by (auto simp: parses_to_def)

lemma feed_idle:
  assumes "up_inv p" and "up_state p = WaitSof1"
  shows "\<exists>q. feed b p = Inr (q, []) \<and> up_inv q \<and> up_on_packet q = up_on_packet p \<and>
     (if b = kSof1 then up_state q = WaitSof2 \<and> up_stats q = up_stats p
      else up_state q = WaitSof1 \<and> up_stats q = count_item (Skip b) (up_stats p))"
  using feed_inv [OF assms(1), of b] assms(2) by (auto simp: uart_simps)

lemma feed_sof:
  assumes "up_inv p" and "up_state p = WaitSof2"
  shows "\<exists>q. feed c p = Inr (q, []) \<and> up_inv q \<and> up_on_packet q = up_on_packet p \<and>
     (if c = kSof2 then up_state q = Length \<and> up_stats q = up_stats p
      else if c = kSof1 then up_state q = WaitSof2 \<and> up_stats q = count_item Resync (up_stats p)
      else up_state q = WaitSof1 \<and> up_stats q = count_item (False_Sof c) (up_stats p))"
  using feed_inv [OF assms(1), of c] assms(2) by (auto simp: uart_simps)

lemma parses_to_partial:
  assumes "up_inv p" and "up_state p = Length" and "up_on_packet p"
    and "\<forall>len ty rest. cs = len # ty # rest \<longrightarrow> length rest < unat len + 2"
  shows "parses_to p cs [Partial (kSof1 # kSof2 # cs)]"
  using feed_partial [OF assms(1,2,4)] assms(3) by (auto simp: parses_to_def)

lemma parses_to_frame:
  assumes "up_inv p" and "up_state p = Length" and "up_on_packet p"
    and "unat len + 2 \<le> length rest"
    and next': "\<And>q. up_inv q \<Longrightarrow> up_state q = WaitSof1 \<Longrightarrow> up_on_packet q \<Longrightarrow>
      parses_to q (drop (unat len + 2) rest) items"
  shows "parses_to p (len # ty # rest)
    (Frame len ty (take (unat len) rest) (rest ! unat len) (rest ! Suc (unat len)) # items)"
proof -
  let ?n = "unat len"
  have l: "length (take ?n rest) = ?n" using assms(4) by simp
  from feed_frame [OF assms(1-3) l, of ty "rest ! ?n" "rest ! Suc ?n"] obtain q out where
    q: "feed_bytes (len # ty # take ?n rest @ [rest ! ?n, rest ! Suc ?n]) p = Inr (q, out)"
      "up_inv q" "up_state q = WaitSof1" "up_on_packet q"
      "up_stats q = count_item (Frame len ty (take ?n rest) (rest ! ?n) (rest ! Suc ?n)) (up_stats p)"
      "map packet_view out = item_packets (Frame len ty (take ?n rest) (rest ! ?n) (rest ! Suc ?n))"
    by blast
  have "rest = take ?n rest @ [rest ! ?n, rest ! Suc ?n] @ drop (?n + 2) rest"
    using assms(4) by (simp add: Cons_nth_drop_Suc)
  then have "len # ty # rest = (len # ty # take ?n rest @ [rest ! ?n, rest ! Suc ?n]) @ drop (?n + 2) rest"
    by simp
  with parses_to_append [OF q(1) next' [OF q(2-4)] q(5,6)] show ?thesis by simp
qed

lemma parser_refines_scan:
  "\<And>p. up_inv p \<Longrightarrow> up_state p = WaitSof1 \<Longrightarrow> up_on_packet p \<Longrightarrow> parses_to p bs (scan bs)"
  "\<And>p. up_inv p \<Longrightarrow> up_state p = WaitSof2 \<Longrightarrow> up_on_packet p \<Longrightarrow> parses_to p cs (scan_sof cs)"
proof (induction bs and cs rule: scan_scan_sof.induct)
  case 1
  then show ?case by (simp add: parses_to_def)
next
  case (2 b bs)
  from feed_idle [OF "2.prems"(1,2), of b] obtain q where
    q: "feed b p = Inr (q, [])" "up_inv q" "up_on_packet q"
      "if b = kSof1 then up_state q = WaitSof2 \<and> up_stats q = up_stats p
       else up_state q = WaitSof1 \<and> up_stats q = count_item (Skip b) (up_stats p)"
    using "2.prems"(3) by auto
  show ?case
  proof (cases "b = kSof1")
    case True
    with q "2.IH"(1) [OF True q(2) _ q(3)] show ?thesis by (simp add: parses_to_step)
  next
    case False
    with q "2.IH"(2) [OF False q(2) _ q(3)] show ?thesis
      using parses_to_append [of "[b]" p q "[]" bs "scan bs" "Skip b"] by simp
  qed
next
  case 3
  then show ?case by (simp add: parses_to_def partial_state_def)
next
  case (4 c cs)
  from feed_sof [OF "4.prems"(1,2), of c] obtain q where
    q: "feed c p = Inr (q, [])" "up_inv q" "up_on_packet q"
      "if c = kSof2 then up_state q = Length \<and> up_stats q = up_stats p
       else if c = kSof1 then up_state q = WaitSof2 \<and> up_stats q = count_item Resync (up_stats p)
       else up_state q = WaitSof1 \<and> up_stats q = count_item (False_Sof c) (up_stats p)"
    using "4.prems"(3) by auto
  show ?case
  proof (cases "c = kSof2")
    case sof2: True
    with q have qs: "up_state q = Length" "up_stats q = up_stats p" by simp_all
    have "parses_to q cs (case cs of
         len # ty # rest \<Rightarrow>
           if unat len + 2 \<le> length rest
           then Frame len ty (take (unat len) rest) (rest ! unat len) (rest ! Suc (unat len))
                  # scan (drop (unat len + 2) rest)
           else [Partial (kSof1 # kSof2 # cs)]
       | _ \<Rightarrow> [Partial (kSof1 # kSof2 # cs)])"
      using parses_to_partial [OF q(2) qs(1) q(3), of cs]
        parses_to_frame [OF q(2) qs(1) q(3)] "4.IH"(1) [OF sof2]
      by (auto split: list.split)
    with sof2 q qs show ?thesis by (simp add: parses_to_step)
  next
    case False
    then show ?thesis
      using q "4.IH"(2) [OF False _ q(2) _ q(3)] "4.IH"(3) [OF False _ q(2) _ q(3)]
        parses_to_append [of "[c]" p q "[]" cs "scan_sof cs" Resync]
        parses_to_append [of "[c]" p q "[]" cs "scan cs" "False_Sof c"]
      by (cases "c = kSof1") simp_all
  qed
qed

section \<open>Properties of the parser\<close>

lemma new_parser_idle:
  "up_inv (new_parser cb)" "up_state (new_parser cb) = WaitSof1"
  "up_on_packet (new_parser cb) = cb" "up_stats (new_parser cb) = zero_stats"
  using new_parser_inv by (simp_all add: new_parser_def)

text \<open>The run of a fresh parser, in the form the properties use.\<close>

lemma fresh_run:
  obtains q out where "feed_bytes bs (new_parser True) = Inr (q, out)"
    and "map packet_view out = concat (map item_packets (scan bs))"
    and "up_stats q = fold count_item (scan bs) zero_stats"
    and "up_state q = resume_state (scan bs)"
  using parser_refines_scan(1) [of "new_parser True" bs] new_parser_idle [of True]
  by (auto simp: parses_to_def)

text \<open>
  C1: the byte-at-a-time parser implements the batch decoder. Fed any byte stream from a
  fresh state it never fails, hands the callback exactly the packets of the frames whose CRC is
  right, in order, has counted exactly the items of the stream, and stops in the state that the
  tail of the stream determines.
\<close>

theorem stream_refines_scan:
  "\<exists>q out. feed_bytes bs (new_parser True) = Inr (q, out) \<and>
     map packet_view out = concat (map item_packets (scan bs)) \<and>
     up_stats q = fold count_item (scan bs) zero_stats \<and>
     up_state q = resume_state (scan bs)"
  by (rule fresh_run [of bs]) blast

lemma partial_state_neq: "partial_state (b # bs) \<noteq> WaitSof1"
  by (auto simp: partial_state_def split: list.splits)

lemma resume_state_partial:
  "resume_state (scan bs) = WaitSof1 \<longleftrightarrow> (\<forall>xs. Partial xs \<notin> set (scan bs))"
  "resume_state (scan_sof cs) = WaitSof1 \<longleftrightarrow> (\<forall>xs. Partial xs \<notin> set (scan_sof cs))"
  by (induction bs and cs rule: scan_scan_sof.induct)
     (auto simp: resume_state_Cons partial_state_neq split: list.splits)

lemma count_item_partial: "partial_packets (count_item x st) = partial_packets st"
  by (cases x) simp_all

lemma fold_count_item_partial: "partial_packets (fold count_item xs st) = partial_packets st"
  by (induction xs arbitrary: st) (simp_all add: count_item_partial)

text \<open>What \<open>finish\<close> adds to the counters of such a run.\<close>

lemma finish_fresh:
  assumes "up_stats q = fold count_item (scan bs) zero_stats" and "up_state q = resume_state (scan bs)"
  shows "up_stats (finish q) = (fold count_item (scan bs) zero_stats)
       \<lparr>partial_packets := (if \<exists>xs. Partial xs \<in> set (scan bs) then 1 else 0)\<rparr>"
proof -
  have "partial_packets (up_stats q) = 0"
    by (simp add: assms(1) fold_count_item_partial zero_stats_def)
  then show ?thesis
    using assms resume_state_partial(1) [of bs] by (auto simp: finish_def reset_def zero_stats_def)
qed

text \<open>
  C33: after the end of the stream \<open>finish\<close> has counted one partial packet exactly when the
  stream ends in an unfinished frame, no other counter moved, and the parser is idle again.
\<close>

theorem finish_counts_partial:
  "\<exists>q out. feed_bytes bs (new_parser True) = Inr (q, out) \<and>
     up_stats (finish q) = (fold count_item (scan bs) zero_stats)
       \<lparr>partial_packets := (if \<exists>xs. Partial xs \<in> set (scan bs) then 1 else 0)\<rparr> \<and>
     up_state (finish q) = WaitSof1 \<and> \<not> up_in_flight (finish q)"
proof (rule fresh_run [of bs])
  fix q out
  assume run: "feed_bytes bs (new_parser True) = Inr (q, out)"
    and st: "up_stats q = fold count_item (scan bs) zero_stats"
    and s: "up_state q = resume_state (scan bs)"
  then show ?thesis using finish_fresh [OF st s] by (simp add: finish_def reset_def)
qed

section \<open>An encoder\<close>

text \<open>
  The encoder of the protocol, as \<open>makePacket\<close> of \<open>tests/test_uart_parser.cpp\<close> writes a packet:
  the CRC covers type and payload and travels low byte first.
\<close>

definition make_packet :: "u8 \<Rightarrow> u8 list \<Rightarrow> u8 list" where
  "make_packet ty payload =
     (let crc = crc_compute (ty # payload)
      in [kSof1, kSof2, of_nat (length payload), ty] @ payload @
         [ucast (crc AND 0xFF), ucast (drop_bit 8 crc AND 0xFF)])"

lemma wire_crc_bytes: "wire_crc (ucast (c AND 0xFF)) (ucast (drop_bit 8 c AND 0xFF)) = c" for c :: u16
proof (rule bit_word_eqI)
  fix n assume n: "n < LENGTH(16)"
  have m: "(0xFF :: u16) = mask 8" by (simp add: mask_eq_exp_minus_1)
  show "bit (wire_crc (ucast (c AND 0xFF)) (ucast (drop_bit 8 c AND 0xFF))) n = bit c n"
    using n unfolding wire_crc_def m by (auto simp: bit_simps)
qed

lemma scan_frame:
  assumes "length body = unat len"
  shows "scan ([kSof1, kSof2, len, ty] @ body @ [lo, hi] @ rest) = Frame len ty body lo hi # scan rest"
proof -
  have "body @ lo # hi # rest = (body @ [lo, hi]) @ rest" by simp
  then show ?thesis using assms
    by (simp add: nth_append Suc_diff_Suc del: append_assoc)
qed

lemma scan_noise: "kSof1 \<notin> set noise \<Longrightarrow> scan (noise @ rest) = map Skip noise @ scan rest"
  by (induction noise) auto

lemma unat_of_nat_u8: "n \<le> kMaxPayloadLen \<Longrightarrow> unat (of_nat n :: u8) = n"
  by (simp add: kMaxPayloadLen_def unat_of_nat)

definition stream_of :: "(u8 list \<times> u8 \<times> u8 list) list \<Rightarrow> u8 list" where
  "stream_of segs = concat (map (\<lambda>(noise, ty, payload). noise @ make_packet ty payload) segs)"

definition clean_segments :: "(u8 list \<times> u8 \<times> u8 list) list \<Rightarrow> bool" where
  "clean_segments segs \<longleftrightarrow>
     list_all (\<lambda>(noise, ty, payload). kSof1 \<notin> set noise \<and> length payload \<le> kMaxPayloadLen) segs"

lemma scan_make_packet:
  assumes "length payload \<le> kMaxPayloadLen"
  shows "scan (make_packet ty payload @ rest) =
     Frame (of_nat (length payload)) ty payload
       (ucast (frame_crc ty payload AND 0xFF)) (ucast (drop_bit 8 (frame_crc ty payload) AND 0xFF)) # scan rest"
  using scan_frame [of payload "of_nat (length payload)"] assms
  by (simp add: make_packet_def unat_of_nat_u8 frame_crc_def Let_def)

lemma fold_count_skip:
  "fold count_item (map Skip xs) st = st\<lparr>discarded_bytes := discarded_bytes st + of_nat (length xs)\<rparr>"
  by (induction xs arbitrary: st) simp_all

fun segment_items :: "(u8 list \<times> u8 \<times> u8 list) list \<Rightarrow> item list" where
  "segment_items [] = []"
| "segment_items ((noise, ty, payload) # segs) = map Skip noise @
     Frame (of_nat (length payload)) ty payload (ucast (frame_crc ty payload AND 0xFF))
       (ucast (drop_bit 8 (frame_crc ty payload) AND 0xFF)) # segment_items segs"

lemma scan_stream_of:
  "clean_segments segs \<Longrightarrow> scan (stream_of segs @ rest) = segment_items segs @ scan rest"
  by (induction segs)
     (auto simp: stream_of_def clean_segments_def scan_noise scan_make_packet)

lemma segment_items_packets:
  "concat (map item_packets (segment_items segs)) =
     map (\<lambda>(noise, ty, payload). (of_nat (length payload), ty, payload)) segs"
proof (induction segs rule: segment_items.induct)
  case (2 noise ty payload segs)
  have "concat (map item_packets (map Skip noise)) = []" by (induction noise) simp_all
  with 2 show ?case by (simp add: wire_crc_bytes del: map_map)
qed simp

lemma segment_items_resume: "resume_state (segment_items segs @ items) = resume_state items"
proof (induction segs rule: segment_items.induct)
  case (2 noise ty payload segs)
  have "resume_state (map Skip noise @ xs) = resume_state xs" for xs
    by (induction noise) (simp_all add: resume_state_Cons)
  with 2 show ?case by (simp add: resume_state_Cons)
qed simp

lemma segment_items_count:
  "fold count_item (segment_items segs) st =
     st\<lparr>valid_packets := valid_packets st + of_nat (length segs),
        discarded_bytes := discarded_bytes st + of_nat (length (concat (map fst segs)))\<rparr>"
  by (induction segs arbitrary: st rule: segment_items.induct)
     (simp_all add: fold_count_skip wire_crc_bytes)

lemmas segment_simps = scan_stream_of segment_items_packets segment_items_resume segment_items_count

text \<open>
  C8: round trip. A stream of encoded packets of at most 255 payload bytes, with noise that
  holds no first marker byte in front of each, decodes to exactly those packets in order; every
  noise byte is counted as discarded and no other counter moves.
\<close>

theorem decode_encoded_stream:
  assumes "clean_segments segs"
  shows "\<exists>q out. feed_bytes (stream_of segs) (new_parser True) = Inr (q, out) \<and>
     map packet_view out = map (\<lambda>(noise, ty, payload). (of_nat (length payload), ty, payload)) segs \<and>
     up_stats (finish q) = zero_stats\<lparr>valid_packets := of_nat (length segs),
        discarded_bytes := of_nat (length (concat (map fst segs)))\<rparr>"
proof (rule fresh_run [of "stream_of segs"])
  fix q out
  assume "feed_bytes (stream_of segs) (new_parser True) = Inr (q, out)"
    and "map packet_view out = concat (map item_packets (scan (stream_of segs)))"
    and "up_stats q = fold count_item (scan (stream_of segs)) zero_stats"
    and "up_state q = resume_state (scan (stream_of segs))"
  with scan_stream_of [OF assms, of "[]"] segment_items_resume [of segs "[]"] show ?thesis
    by (auto simp: segment_simps finish_def reset_def zero_stats_def)
qed

lemma decode_encoded_stream_witness:
  "\<exists>q out. feed_bytes (stream_of [([0, 0x12], 7, [0xDE, 0xAD])]) (new_parser True) = Inr (q, out) \<and>
     map packet_view out = [(2, 7, [0xDE, 0xAD])] \<and>
     up_stats (finish q) = zero_stats\<lparr>valid_packets := 1, discarded_bytes := 2\<rparr>"
  using decode_encoded_stream [of "[([0, 0x12], 7, [0xDE, 0xAD])]"]
  by (simp add: clean_segments_def kSof1_def kMaxPayloadLen_def)

section \<open>An account of every byte\<close>

definition is_frame_part :: "item \<Rightarrow> bool" where
  "is_frame_part x \<longleftrightarrow> (case x of Frame _ _ _ _ _ \<Rightarrow> True | Partial _ \<Rightarrow> True | _ \<Rightarrow> False)"

definition is_false_sof :: "item \<Rightarrow> bool" where
  "is_false_sof x \<longleftrightarrow> (case x of False_Sof _ \<Rightarrow> True | _ \<Rightarrow> False)"

definition bytes_in :: "item list \<Rightarrow> nat" where
  "bytes_in items = length (concat (map item_bytes items))"

lemma discarded_fold:
  "discarded_bytes (fold count_item items st) =
     discarded_bytes st + of_nat (length (filter (\<lambda>x. \<not> is_frame_part x) items))"
proof (induction items arbitrary: st)
  case (Cons x items)
  then show ?case by (cases x) (simp_all add: is_frame_part_def)
qed simp

lemma bytes_in_split:
  "bytes_in items = bytes_in (filter is_frame_part items) +
     length (filter (\<lambda>x. \<not> is_frame_part x) items) + length (filter is_false_sof items)"
proof (induction items)
  case (Cons x items)
  then show ?case by (cases x) (simp_all add: bytes_in_def is_frame_part_def is_false_sof_def)
qed (simp add: bytes_in_def)

text \<open>
  C24: no byte is lost or counted twice. The length of a stream is the bytes of its frames
  (complete or cut off), plus the discarded bytes the parser counted, plus one byte for every
  false start (a first marker byte followed by a byte that is no marker, counted only once).
\<close>

theorem byte_account:
  "\<exists>q out. feed_bytes bs (new_parser True) = Inr (q, out) \<and>
     of_nat (length bs) = of_nat (bytes_in (filter is_frame_part (scan bs))) +
       discarded_bytes (up_stats q) + of_nat (length (filter is_false_sof (scan bs)))"
proof (rule fresh_run [of bs])
  fix q out
  assume "feed_bytes bs (new_parser True) = Inr (q, out)"
    and "up_stats q = fold count_item (scan bs) zero_stats"
  moreover have "length bs = bytes_in (scan bs)"
    by (simp add: bytes_in_def scan_lossless_aux)
  ultimately show ?thesis
    using bytes_in_split [of "scan bs"] by (auto simp: discarded_fold zero_stats_def)
qed

section \<open>Corrupted frames\<close>

definition raw_frame :: "u8 \<Rightarrow> u8 list \<Rightarrow> u16 \<Rightarrow> u8 list" where
  "raw_frame len body crc = [kSof1, kSof2, len] @ body @
     [ucast (crc AND 0xFF), ucast (drop_bit 8 crc AND 0xFF)]"

text \<open>
  C13: a frame of which up to two adjacent bytes of type and payload were altered is never
  delivered, wherever it stands in a stream of good packets: it is counted as one CRC failure and
  one loss of synchronisation, and every packet before and after it is still delivered.
\<close>

theorem corrupted_frame_rejected:
  assumes "clean_segments before" and "clean_segments after"
    and "length (p @ m @ s) = unat len + 1" and "m \<noteq> m'" and "length m = length m'" and "length m \<le> 2"
  shows "\<exists>q out. feed_bytes (stream_of before @ raw_frame len (p @ m' @ s) (crc_compute (p @ m @ s)) @
        stream_of after) (new_parser True) = Inr (q, out) \<and>
     map packet_view out =
       map (\<lambda>(noise, ty, payload). (of_nat (length payload), ty, payload)) (before @ after) \<and>
     valid_packets (up_stats q) = of_nat (length before + length after) \<and>
     crc_failures (up_stats q) = 1 \<and> sync_losses (up_stats q) = 1 \<and> up_state q = WaitSof1"
    (is "\<exists>q out. feed_bytes ?stream _ = _ \<and> _")
proof -
  let ?crc = "crc_compute (p @ m @ s)"
  obtain ty body where b: "p @ m' @ s = ty # body" and l: "length body = unat len"
    using assms(3,5) by (cases "p @ m' @ s") (auto, metis length_Cons length_append nat.inject)
  have "scan (raw_frame len (p @ m' @ s) ?crc @ stream_of after) =
      Frame len ty body (ucast (?crc AND 0xFF)) (ucast (drop_bit 8 ?crc AND 0xFF)) # segment_items after"
    using scan_frame [OF l, of ty _ _ "stream_of after"] scan_stream_of [OF assms(2), of "[]"]
    by (simp add: raw_frame_def b)
  then have items: "scan ?stream = segment_items before @
      Frame len ty body (ucast (?crc AND 0xFF)) (ucast (drop_bit 8 ?crc AND 0xFF)) # segment_items after"
    using scan_stream_of [OF assms(1)] by simp
  have "frame_crc ty body \<noteq> ?crc"
    using crc.corrupted_differs [OF assms(4,5,6), of p s] by (simp add: frame_crc_def flip: b)
  then have meaning: "concat (map item_packets (scan ?stream)) =
        map (\<lambda>(noise, ty, payload). (of_nat (length payload), ty, payload)) (before @ after)"
      "resume_state (scan ?stream) = WaitSof1"
      "valid_packets (fold count_item (scan ?stream) zero_stats) = of_nat (length before + length after)"
      "crc_failures (fold count_item (scan ?stream) zero_stats) = 1"
      "sync_losses (fold count_item (scan ?stream) zero_stats) = 1"
    using segment_items_resume [of after "[]"]
    by (simp_all add: items segment_items_packets segment_items_resume segment_items_count
          wire_crc_bytes resume_state_Cons zero_stats_def)
  show ?thesis by (rule fresh_run [of ?stream], intro exI conjI, assumption, simp_all only: meaning)
qed

lemma corrupted_frame_rejected_witness:
  "\<exists>q out. feed_bytes (stream_of [([], 1, [0x10, 0x20])] @ raw_frame 1 [2, 0x55] (crc_compute [2, 0xAA]) @
        stream_of [([], 3, [0x55])]) (new_parser True) = Inr (q, out) \<and>
     map packet_view out = [(2, 1, [0x10, 0x20]), (1, 3, [0x55])] \<and>
     valid_packets (up_stats q) = 2 \<and>
     crc_failures (up_stats q) = 1 \<and> sync_losses (up_stats q) = 1 \<and> up_state q = WaitSof1"
  using corrupted_frame_rejected [of "[([], 1, [0x10, 0x20])]" "[([], 3, [0x55])]" "[2]" "[0xAA]" "[]" 1 "[0x55]"]
  by (simp add: clean_segments_def kMaxPayloadLen_def)

section \<open>Reset and buffer boundaries\<close>

lemma feed_on_packet: "up_inv p \<Longrightarrow> feed b p = Inr (q, out) \<Longrightarrow> up_on_packet q = up_on_packet p"
  by (auto simp: uart_simps rbind_Inr_iff split: pstate.splits if_splits)

lemma feed_bytes_on_packet:
  "up_inv p \<Longrightarrow> feed_bytes bs p = Inr (q, out) \<Longrightarrow> up_on_packet q = up_on_packet p"
proof (induction bs arbitrary: p q out)
  case (Cons b bs)
  from feed_inv [OF Cons.prems(1), of b] obtain r o1 where "feed b p = Inr (r, o1)" and "up_inv r" by auto
  moreover from this Cons.prems(2) obtain o2 where "feed_bytes bs r = Inr (q, o2)"
    by (auto simp: rbind_Inr_iff)
  ultimately show ?case
    using Cons.IH feed_on_packet [OF Cons.prems(1)] by metis
qed simp

lemma run_ops_on_packet:
  "stats_inv p \<Longrightarrow> run_ops ops p = Inr (q, out) \<Longrightarrow> up_on_packet q = up_on_packet p"
proof (induction ops arbitrary: p q out)
  case (Cons x ops)
  from run_op_ok [OF Cons.prems(1), of x] obtain r o1 where
    r: "run_op x p = Inr (r, o1)" "stats_inv r" by auto
  have "up_inv p" using Cons.prems(1) by (simp add: stats_inv_def)
  then have "up_on_packet r = up_on_packet p"
    using r(1) feed_on_packet feed_bytes_on_packet
    by (cases x) (auto simp: finish_def reset_def resetStats_def Let_def split: if_splits)
  moreover from r Cons.prems(2) obtain o2 where "run_ops ops r = Inr (q, o2)"
    by (auto simp: rbind_Inr_iff)
  ultimately show ?case using Cons.IH r(2) by metis
qed simp

text \<open>
  C32: \<open>reset\<close> really returns to the initial state. After any run of calls, a reset parser
  and a new parser with the same counters deliver the same packets, count the same and end in the
  same state on every further input, although \<open>reset\<close> leaves the old payload bytes in the buffer.
\<close>

theorem reset_is_fresh:
  "\<exists>p o1 q out q' out'. run_ops ops (new_parser True) = Inr (p, o1) \<and>
     feed_bytes bs (reset p) = Inr (q, out) \<and>
     feed_bytes bs ((new_parser True)\<lparr>up_stats := up_stats p\<rparr>) = Inr (q', out') \<and>
     map packet_view out = map packet_view out' \<and> up_stats q = up_stats q' \<and> up_state q = up_state q'"
proof -
  from run_ops_ok [OF new_parser_stats_inv] obtain p o1 where
    p: "run_ops ops (new_parser True) = Inr (p, o1)" "stats_inv p" by blast
  have on: "up_on_packet p"
    using run_ops_on_packet [OF new_parser_stats_inv p(1)] new_parser_idle by simp
  have "parses_to (reset p) bs (scan bs)"
    using p on reset_inv [of p]
    by (intro parser_refines_scan) (simp_all add: reset_def stats_inv_def)
  moreover have "parses_to ((new_parser True)\<lparr>up_stats := up_stats p\<rparr>) bs (scan bs)"
    using new_parser_idle [of True]
    by (intro parser_refines_scan) (simp_all add: up_inv_def payload_so_far_def in_packet_def)
  ultimately show ?thesis using p(1) by (auto simp: parses_to_def reset_def)
qed

text \<open>
  Chunk boundaries do not matter. Feeding a stream buffer by buffer gives the same parser
  and the same packets as feeding it byte by byte.
\<close>

lemma chunking_irrelevant:
  "run_ops (map Feed_Buffer chunks) p = run_ops (map Feed (concat chunks)) p"
proof -
  have bytes: "run_ops (map Feed bs) p = feed_bytes bs p" for bs p
    by (induction bs arbitrary: p) simp_all
  show ?thesis
    unfolding bytes
    by (induction chunks arbitrary: p) (simp_all add: feed_bytes_append)
qed

text \<open>
  A first marker byte followed by an unrelated byte is two skipped bytes, but the parser
  counts one discarded byte: the marker byte of a false start is not counted.
\<close>

lemma false_start_uncounted:
  "\<exists>q out. feed_bytes [kSof1, 0] (new_parser True) = Inr (q, out) \<and> up_state q = WaitSof1 \<and>
     discarded_bytes (up_stats q) = 1"
  by (simp add: uart_simps new_parser_def zero_stats_def kSof1_def kSof2_def)

text \<open>
  \<open>finish\<close> counts a lone trailing first marker byte as a partial packet, although no packet
  is in flight (only the two-byte marker puts one in flight).
\<close>

lemma lone_sof1_partial:
  "\<exists>q out. feed_bytes [kSof1] (new_parser True) = Inr (q, out) \<and> \<not> up_in_flight q \<and>
     partial_packets (up_stats (finish q)) = 1"
  by (simp add: uart_simps new_parser_def zero_stats_def finish_def reset_def)

section \<open>The sample stream\<close>

text \<open>
  The capture \<open>task1_uart_parser/data/uart_stream.bin\<close>. Its counters are the ones the README of
  the task reports (the single partial packet is counted by \<open>finish\<close>).
\<close>

definition sample_stream :: "u8 list" where
  "sample_stream = [
     0xAA, 0x55, 0x03, 0x01, 0x10, 0x20, 0x30, 0xA2, 0x81, 0xAA, 0x55, 0x00, 0x02, 0xB2, 0xC1, 0xAA,
     0x55, 0x02, 0x01, 0xDE, 0xAD, 0xC3, 0xA9, 0x00, 0xFF, 0x12, 0x34, 0xAA, 0x77, 0x88, 0xAA, 0x00,
     0xAA, 0x55, 0x03, 0x03, 0xAA, 0x55, 0x00, 0xF4, 0x6B, 0xAA, 0x55, 0x01, 0x04, 0x99, 0x5B, 0xC3,
     0xAA, 0x55, 0x03, 0x05, 0x05, 0x01, 0x02, 0x03, 0xB4, 0x59, 0xAA, 0x55, 0x04, 0x06, 0x01, 0x02,
     0x04, 0x8A, 0xD1, 0x39, 0x0C, 0x8C, 0x7D, 0x72, 0x47, 0xAA, 0x55, 0x02, 0x07, 0xCA, 0xFE, 0x42,
     0xBE, 0xAA, 0x55, 0x14, 0x08, 0x00, 0x01, 0x02, 0x03, 0x04, 0x05, 0x06, 0x07, 0x08, 0x09, 0x0A,
     0x0B, 0x0C, 0x0D, 0x0E, 0x0F, 0x10, 0x11, 0x12, 0x13, 0x63, 0x54, 0xAA, 0x55, 0x00, 0x01, 0xD1,
     0xF1, 0xAA, 0x55, 0x0A, 0x09, 0x01, 0x01, 0x01, 0x01, 0x01, 0x01, 0x01, 0x01, 0x01, 0x01, 0x86,
     0xA7, 0xAA, 0x55, 0x01, 0x0A, 0x42, 0x42, 0x9A, 0xAA, 0x55, 0x03, 0x0B, 0x01, 0x02]"

lemma sample_stream_counters:
  "fold count_item (scan sample_stream) zero_stats =
     \<lparr>valid_packets = 8, crc_failures = 4, sync_losses = 4, discarded_bytes = 13, partial_packets = 0\<rparr>"
  by code_simp

lemma sample_stream_packets:
  "map (\<lambda>(len, ty, payload). (ty, payload)) (concat (map item_packets (scan sample_stream))) =
     [(1, [0x10, 0x20, 0x30]), (2, []), (1, [0xDE, 0xAD]), (4, [0x99]), (7, [0xCA, 0xFE]),
      (8, [0, 1, 2, 3, 4, 5, 6, 7, 8, 9, 10, 11, 12, 13, 14, 15, 16, 17, 18, 19]), (1, []), (0x0A, [0x42])]"
  by code_simp

end
