(* ===== verification/Cpp_Double.thy ===== *)
theory Cpp_Double
  imports Cpp_Prelude Complex_Main
begin

text \<open>
  The C++ type \<open>double\<close>: IEEE 754 binary64 with rounding to nearest, ties to even, as the sources
  use it (conversion from integers, multiplication, addition, division, comparison, conversion to
  integers). The operations compute; their results are related to rational arithmetic: they are
  exact whenever the exact result has 53 significant bits, and within half a unit in the last place
  otherwise. Products and sums are rounded separately, as on targets without a fused operation.
\<close>

section \<open>Values\<close>

text \<open>
  \<open>Finite s m e\<close> is the number \<open>(-1)^s * m * 2^e\<close>; the operations below return it with
  \<open>m < 2^53\<close> and either \<open>2^52 \<le> m\<close> or the least exponent \<open>-1074\<close> (subnormal numbers and the two
  zeros), so that a result has one representation.
\<close>

datatype double = Finite bool nat int | Infinite bool | NaN

definition dzero :: "bool \<Rightarrow> double" where
  "dzero s = Finite s 0 (-1074)"

text \<open>The rational value of a finite number (0 for the others, which have none).\<close>

fun dval :: "double \<Rightarrow> rat" where
  "dval (Finite s m e) = (if s then -1 else 1) * of_nat m * 2 powi e"
| "dval (Infinite s) = 0"
| "dval NaN = 0"

section \<open>Rounding\<close>

text \<open>The number of binary digits (the large step only speeds the evaluation up).\<close>

fun bitlen_nat :: "nat \<Rightarrow> nat" where
  "bitlen_nat n =
     (if n = 0 then 0
      else if 2 ^ 32 \<le> n then 32 + bitlen_nat (n div 2 ^ 32)
      else Suc (bitlen_nat (n div 2)))"

declare bitlen_nat.simps [simp del]

lemma bitlen_nat_0 [simp]: "bitlen_nat 0 = 0"
  by (simp add: bitlen_nat.simps)

lemma bitlen_nat_pos: "n \<noteq> 0 \<Longrightarrow> bitlen_nat n \<noteq> 0"
  by (simp add: bitlen_nat.simps [of n])

lemma shift_bounds:
  "2 ^ (b - 1) \<le> n div 2 ^ k \<Longrightarrow> n div 2 ^ k < 2 ^ b \<Longrightarrow> b \<noteq> 0 \<Longrightarrow>
     2 ^ (k + b - 1) \<le> n \<and> n < 2 ^ (k + b)" for n :: nat
proof
  assume h: "2 ^ (b - 1) \<le> n div 2 ^ k" "n div 2 ^ k < 2 ^ b" "b \<noteq> 0"
  have "2 ^ (b - 1) * 2 ^ k \<le> n" using h(1) by (simp add: less_eq_div_iff_mult_less_eq)
  then show "2 ^ (k + b - 1) \<le> n" using h(3) by (simp add: mult.commute flip: power_add)
  have "n < 2 ^ b * 2 ^ k" using h(2) by (simp add: div_less_iff_less_mult)
  then show "n < 2 ^ (k + b)" by (simp add: power_add mult.commute)
qed

lemma bitlen_nat_bounds: "n \<noteq> 0 \<Longrightarrow> 2 ^ (bitlen_nat n - 1) \<le> n \<and> n < 2 ^ bitlen_nat n"
proof (induction n rule: bitlen_nat.induct)
  case (1 n)
  consider "n = 1" | "2 ^ 32 \<le> n" | "n \<noteq> 1" "\<not> 2 ^ 32 \<le> n" by blast
  then show ?case
  proof cases
    case 1
    then show ?thesis by (simp add: bitlen_nat.simps)
  next
    case 2
    then have "n div 2 ^ 32 \<noteq> 0" by (simp add: div_eq_0_iff)
    with "1.IH"(1) [OF "1.prems" 2] 2 "1.prems" show ?thesis
      using shift_bounds [of "bitlen_nat (n div 2 ^ 32)" n 32] bitlen_nat_pos
      by (simp add: bitlen_nat.simps [of n])
  next
    case 3
    with "1.prems" have "n div 2 \<noteq> 0" by linarith
    with "1.IH"(2) [OF "1.prems" 3(2)] 3(2) "1.prems" show ?thesis
      using shift_bounds [of "bitlen_nat (n div 2)" n 1] bitlen_nat_pos
      by (simp add: bitlen_nat.simps [of n])
  qed
qed

text \<open>\<open>floor (log2 (num / den))\<close> for positive arguments.\<close>

definition ilog2_frac :: "nat \<Rightarrow> nat \<Rightarrow> int" where
  "ilog2_frac num den =
     (let k = int (bitlen_nat num) - int (bitlen_nat den)
      in if den * 2 ^ nat k \<le> num * 2 ^ nat (- k) then k else k - 1)"

text \<open>The natural number nearest to \<open>n / d\<close>, the even one of two equally near ones.\<close>

definition round_half_even :: "nat \<Rightarrow> nat \<Rightarrow> nat" where
  "round_half_even n d =
     (let q = n div d; r = n mod d in if d < 2 * r \<or> d = 2 * r \<and> odd q then q + 1 else q)"

text \<open>
  Round \<open>num / den\<close> to 53 significant bits: the exponent is chosen so that the quotient has 53 bits
  (fewer at the subnormal end), a carry into the 54th bit moves the exponent, and a result beyond
  the largest exponent is infinite.
\<close>

definition round_frac :: "bool \<Rightarrow> nat \<Rightarrow> nat \<Rightarrow> double" where
  "round_frac s num den =
     (if num = 0 then dzero s
      else
        let e = max (-1074) (ilog2_frac num den - 52);
            q = round_half_even (num * 2 ^ nat (- e)) (den * 2 ^ nat e);
            (m, e) = (if q = 2 ^ 53 then (2 ^ 52, e + 1) else (q, e))
        in if 971 < e then Infinite s else Finite s m e)"

definition round_dyadic :: "bool \<Rightarrow> nat \<Rightarrow> int \<Rightarrow> double" where
  "round_dyadic s m e = round_frac s (m * 2 ^ nat e) (2 ^ nat (- e))"

section \<open>Operations\<close>

text \<open>\<open>static_cast<double>\<close> of an integer, and the arithmetic operators.\<close>

definition of_integer :: "int \<Rightarrow> double" where
  "of_integer i = round_dyadic (i < 0) (nat \<bar>i\<bar>) 0"

fun dmul :: "double \<Rightarrow> double \<Rightarrow> double" where
  "dmul (Finite s1 m1 e1) (Finite s2 m2 e2) = round_dyadic (s1 \<noteq> s2) (m1 * m2) (e1 + e2)"
| "dmul (Finite s1 m1 e1) (Infinite s2) = (if m1 = 0 then NaN else Infinite (s1 \<noteq> s2))"
| "dmul (Infinite s1) (Finite s2 m2 e2) = (if m2 = 0 then NaN else Infinite (s1 \<noteq> s2))"
| "dmul (Infinite s1) (Infinite s2) = Infinite (s1 \<noteq> s2)"
| "dmul _ _ = NaN"

definition signed_mant :: "bool \<Rightarrow> nat \<Rightarrow> int" where
  "signed_mant s m = (if s then - int m else int m)"

fun dadd :: "double \<Rightarrow> double \<Rightarrow> double" where
  "dadd (Finite s1 m1 e1) (Finite s2 m2 e2) =
     (if m1 = 0 \<and> m2 = 0 then dzero (s1 \<and> s2)
      else if m1 = 0 then Finite s2 m2 e2
      else if m2 = 0 then Finite s1 m1 e1
      else
        let e = min e1 e2;
          i = signed_mant s1 m1 * 2 ^ nat (e1 - e) + signed_mant s2 m2 * 2 ^ nat (e2 - e)
      in if i = 0 then dzero False else round_dyadic (i < 0) (nat \<bar>i\<bar>) e)"
| "dadd (Finite _ _ _) (Infinite s) = Infinite s"
| "dadd (Infinite s) (Finite _ _ _) = Infinite s"
| "dadd (Infinite s1) (Infinite s2) = (if s1 = s2 then Infinite s1 else NaN)"
| "dadd _ _ = NaN"

fun ddiv :: "double \<Rightarrow> double \<Rightarrow> double" where
  "ddiv (Finite s1 m1 e1) (Finite s2 m2 e2) =
     (if m2 = 0 then if m1 = 0 then NaN else Infinite (s1 \<noteq> s2)
      else round_frac (s1 \<noteq> s2) (m1 * 2 ^ nat (e1 - e2)) (m2 * 2 ^ nat (e2 - e1)))"
| "ddiv (Finite s1 _ _) (Infinite s2) = dzero (s1 \<noteq> s2)"
| "ddiv (Infinite s1) (Finite s2 _ _) = Infinite (s1 \<noteq> s2)"
| "ddiv _ _ = NaN"

fun dless :: "double \<Rightarrow> double \<Rightarrow> bool" where
  "dless (Finite s1 m1 e1) (Finite s2 m2 e2) =
     (let e = min e1 e2
      in signed_mant s1 m1 * 2 ^ nat (e1 - e) < signed_mant s2 m2 * 2 ^ nat (e2 - e))"
| "dless (Finite _ _ _) (Infinite s) = (\<not> s)"
| "dless (Infinite s) (Finite _ _ _) = s"
| "dless (Infinite s1) (Infinite s2) = (s1 \<and> \<not> s2)"
| "dless _ _ = False"

text \<open>
  The integer part (towards zero). \<open>static_cast\<close> to an integer type is undefined when it does not
  fit the type.
\<close>

fun dtrunc :: "double \<Rightarrow> int option" where
  "dtrunc (Finite s m e) =
     Some (let k = (if 0 \<le> e then m * 2 ^ nat e else m div 2 ^ nat (- e)) in if s then - int k else int k)"
| "dtrunc _ = None"

definition cast_int :: "double \<Rightarrow> int result" where
  "cast_int x = (case dtrunc x of
     Some i \<Rightarrow> if int_min \<le> i \<and> i \<le> int_max then Inr i else Inl (UB ''double to int'')
   | None \<Rightarrow> Inl (UB ''double to int''))"

definition cast_long :: "double \<Rightarrow> int result" where
  "cast_long x = (case dtrunc x of
     Some i \<Rightarrow> if long_min \<le> i \<and> i \<le> long_max then Inr i else Inl (UB ''double to long'')
   | None \<Rightarrow> Inl (UB ''double to long''))"

text \<open>The equations that evaluate a closed floating-point term.\<close>

named_theorems double_eval \<open>evaluation of floating-point terms\<close>

lemmas [double_eval] = of_integer_def round_dyadic_def round_frac_def ilog2_frac_def
  bitlen_nat.simps round_half_even_def Let_def dzero_def signed_mant_def

lemma one_tenth: "ddiv (of_integer 1) (of_integer 10) = Finite False 7205759403792794 (-56)"
  by (simp add: double_eval)

section \<open>Correct rounding\<close>

lemma powi_split: "(2::rat) powi e = 2 ^ nat e / 2 ^ nat (- e)"
  by (cases "0 \<le> e") (simp_all add: power_int_def power_inverse divide_simps)

lemma powi_pos [simp]: "0 < (2::rat) powi e"
  by (simp add: powi_split)

lemma powi_Suc: "(2::rat) powi (e + 1) = 2 * 2 powi e"
  by (simp add: power_int_add)

lemma powi_divide: "(2::rat) powi a / 2 powi b = 2 powi (a - b)"
  by (rule power_int_diff [symmetric]) simp

lemma powi_add: "(2::rat) powi a * 2 powi b = 2 powi (a + b)"
  by (rule power_int_add [symmetric]) simp

lemma powi_less: "a < b \<Longrightarrow> (2::rat) powi a < 2 powi b"
  by (rule power_int_strict_increasing) simp_all

lemma powi_less_iff: "(2::rat) powi a < 2 powi b \<longleftrightarrow> a < b"
  by (metis less_asym linorder_neq_iff powi_less)

lemma powi_le_iff: "(2::rat) powi a \<le> 2 powi b \<longleftrightarrow> a \<le> b"
  by (metis linorder_not_le powi_less_iff)

lemma bitlen_powi:
  assumes "n \<noteq> 0"
  shows "(2::rat) powi (int (bitlen_nat n) - 1) \<le> of_nat n" and "of_nat n < (2::rat) powi int (bitlen_nat n)"
proof -
  have b: "bitlen_nat n \<noteq> 0" using assms by (rule bitlen_nat_pos)
  from bitlen_nat_bounds [OF assms] have "2 ^ (bitlen_nat n - 1) \<le> n" and "n < 2 ^ bitlen_nat n" by auto
  then have "(2::rat) ^ (bitlen_nat n - 1) \<le> of_nat n" and "of_nat n < (2::rat) ^ bitlen_nat n"
    by (metis of_nat_le_iff of_nat_numeral of_nat_power, metis of_nat_less_iff of_nat_numeral of_nat_power)
  moreover have "int (bitlen_nat n) - 1 = int (bitlen_nat n - 1)" using b by simp
  ultimately show "(2::rat) powi (int (bitlen_nat n) - 1) \<le> of_nat n" and "of_nat n < (2::rat) powi int (bitlen_nat n)"
    by (simp_all only: power_int_of_nat)
qed

lemma scale_le_iff:
  assumes "den \<noteq> 0"
  shows "den * 2 ^ nat k \<le> num * 2 ^ nat (- k) \<longleftrightarrow> (2::rat) powi k \<le> of_nat num / of_nat den"
proof -
  have "den * 2 ^ nat k \<le> num * 2 ^ nat (- k) \<longleftrightarrow>
      (of_nat (den * 2 ^ nat k) :: rat) \<le> of_nat (num * 2 ^ nat (- k))" by (rule of_nat_le_iff [symmetric])
  also have "\<dots> \<longleftrightarrow> 2 powi k \<le> (of_nat num :: rat) / of_nat den"
    using assms by (simp add: powi_split field_simps)
  finally show ?thesis .
qed

lemma ilog2_frac_bounds:
  assumes "num \<noteq> 0" and "den \<noteq> 0"
  defines "x \<equiv> (of_nat num :: rat) / of_nat den"
  shows "2 powi ilog2_frac num den \<le> x" and "x < 2 powi (ilog2_frac num den + 1)"
proof -
  let ?a = "int (bitlen_nat num)" and ?b = "int (bitlen_nat den)"
  have d: "(0::rat) < of_nat den" using assms(2) by simp
  have up: "x < 2 powi (?a - ?b + 1)"
  proof -
    have "x < 2 powi ?a / of_nat den" unfolding x_def
      using bitlen_powi(2) [OF assms(1)] d by (rule divide_strict_right_mono)
    also have "\<dots> \<le> 2 powi ?a / 2 powi (?b - 1)"
      using bitlen_powi(1) [OF assms(2)] d by (intro divide_left_mono) simp_all
    also have "\<dots> = 2 powi (?a - ?b + 1)" unfolding powi_divide by (simp add: algebra_simps)
    finally show ?thesis .
  qed
  have lo: "2 powi (?a - ?b - 1) \<le> x"
  proof -
    have "2 powi (?a - ?b - 1) = (2::rat) powi (?a - 1) / 2 powi ?b"
      unfolding powi_divide by (simp add: algebra_simps)
    also have "\<dots> \<le> of_nat num / 2 powi ?b"
      using bitlen_powi(1) [OF assms(1)] by (rule divide_right_mono) simp
    also have "\<dots> \<le> x" unfolding x_def
      using bitlen_powi(2) [OF assms(2)] d by (intro divide_left_mono) simp_all
    finally show ?thesis .
  qed
  show "2 powi ilog2_frac num den \<le> x" and "x < 2 powi (ilog2_frac num den + 1)"
    using up lo scale_le_iff [OF assms(2), of "?a - ?b" num]
    by (auto simp: ilog2_frac_def Let_def x_def not_le)
qed

lemma round_half_even_error:
  assumes "d \<noteq> 0"
  shows "\<bar>of_nat (round_half_even n d) - (of_nat n :: rat) / of_nat d\<bar> \<le> 1 / 2"
proof -
  have n: "(of_nat n :: rat) / of_nat d = of_nat (n div d) + of_nat (n mod d) / of_nat d"
    using assms by (metis (no_types) add_divide_distrib div_mult_mod_eq nonzero_mult_div_cancel_right
        of_nat_0_eq_iff of_nat_add of_nat_mult)
  have "n mod d < d" using assms by simp
  then have m: "(of_nat (n mod d) :: rat) < of_nat d" by (simp only: of_nat_less_iff)
  have "d < 2 * (n mod d) \<longleftrightarrow> (of_nat d :: rat) < 2 * of_nat (n mod d)"
    by (metis of_nat_less_iff of_nat_mult of_nat_numeral)
  with n m assms show ?thesis
    by (auto simp: round_half_even_def Let_def abs_le_iff field_simps)
qed

lemma round_half_even_exact: "d \<noteq> 0 \<Longrightarrow> round_half_even (k * d) d = k"
  by (simp add: round_half_even_def)

lemma round_half_even_mono_bounds:
  assumes "d \<noteq> 0"
  shows "of_nat k \<le> (of_nat n :: rat) / of_nat d \<Longrightarrow> k \<le> round_half_even n d"
    and "(of_nat n :: rat) / of_nat d \<le> of_nat k \<Longrightarrow> round_half_even n d \<le> k"
proof -
  assume "of_nat k \<le> (of_nat n :: rat) / of_nat d"
  with round_half_even_error [OF assms, of n] have "(of_nat k :: rat) - 1 / 2 \<le> of_nat (round_half_even n d)"
    unfolding abs_le_iff by linarith
  then have "(of_nat k :: rat) < of_nat (round_half_even n d + 1)" by simp
  then show "k \<le> round_half_even n d" by (simp only: of_nat_less_iff)
next
  assume "(of_nat n :: rat) / of_nat d \<le> of_nat k"
  with round_half_even_error [OF assms, of n] have "(of_nat (round_half_even n d) :: rat) \<le> of_nat k + 1 / 2"
    unfolding abs_le_iff by linarith
  then have "(of_nat (round_half_even n d) :: rat) < of_nat (k + 1)" by simp
  then show "round_half_even n d \<le> k" by (simp only: of_nat_less_iff)
qed

text \<open>The scaled quotient that is rounded, as a rational.\<close>

lemma scaled_quotient:
  assumes "den \<noteq> 0"
  shows "(of_nat (num * 2 ^ nat (- e)) :: rat) / of_nat (den * 2 ^ nat e) =
     of_nat num / of_nat den / 2 powi e"
  using assms by (simp add: powi_split field_simps)

lemma round_frac_spec:
  assumes "num \<noteq> 0" and "den \<noteq> 0"
  defines "x \<equiv> (of_nat num :: rat) / of_nat den"
  obtains m e where "round_frac s num den = (if 971 < e then Infinite s else Finite s m e)"
    and "m < 2 ^ 53" and "-1074 \<le> e" and "2 ^ 52 \<le> m \<or> e = -1074"
    and "\<bar>of_nat m * 2 powi e - x\<bar> \<le> 2 powi e / 2"
proof -
  define e where "e = max (-1074) (ilog2_frac num den - 52)"
  define d where "d = den * 2 ^ nat e"
  define q where "q = round_half_even (num * 2 ^ nat (- e)) d"
  have e_lo: "-1074 \<le> e" by (simp add: e_def)
  have d: "d \<noteq> 0" using assms(2) by (simp add: d_def)
  have y: "(of_nat (num * 2 ^ nat (- e)) :: rat) / of_nat d = x / 2 powi e"
    unfolding d_def x_def by (rule scaled_quotient [OF assms(2)])
  note log = ilog2_frac_bounds [OF assms(1,2), folded x_def]
  have "x / 2 powi e < 2 powi (ilog2_frac num den + 1) / 2 powi e"
    using log(2) by (rule divide_strict_right_mono) simp
  also have "\<dots> \<le> 2 powi 53" unfolding powi_divide powi_le_iff by (simp add: e_def)
  finally have "x / 2 powi e \<le> of_nat (2 ^ 53)" by (simp add: power_int_def)
  then have q_le: "q \<le> 2 ^ 53" unfolding q_def by (intro round_half_even_mono_bounds(2) [OF d]) (simp only: y)
  have q_ge: "2 ^ 52 \<le> q \<or> e = -1074"
  proof (cases "e = -1074")
    case False
    then have "2 powi ilog2_frac num den / 2 powi e = (2::rat) powi 52"
      unfolding powi_divide by (simp add: e_def max_def split: if_splits)
    moreover have "2 powi ilog2_frac num den / 2 powi e \<le> x / 2 powi e"
      using log(1) by (rule divide_right_mono) simp
    ultimately have "of_nat (2 ^ 52) \<le> x / 2 powi e" by (simp add: power_int_def)
    then show ?thesis unfolding q_def by (intro disjI1 round_half_even_mono_bounds(1) [OF d]) (simp only: y)
  qed simp
  have "\<bar>of_nat q - x / 2 powi e\<bar> \<le> 1 / 2"
    using round_half_even_error [OF d] unfolding q_def y [symmetric] .
  then have "\<bar>of_nat q - x / 2 powi e\<bar> * 2 powi e \<le> 1 / 2 * 2 powi e"
    by (rule mult_right_mono) simp
  moreover have "of_nat q * 2 powi e - x = (of_nat q - x / 2 powi e) * 2 powi e"
    by (simp add: left_diff_distrib)
  ultimately have err: "\<bar>of_nat q * 2 powi e - x\<bar> \<le> 2 powi e / 2"
    by (simp only: abs_mult) simp
  have r: "round_frac s num den =
      (case if q = 2 ^ 53 then (2 ^ 52, e + 1) else (q, e) of
         (m, e) \<Rightarrow> if 971 < e then Infinite s else Finite s m e)"
    using assms(1) unfolding round_frac_def q_def d_def by (simp only: Let_def e_def if_False)
  show ?thesis
  proof (cases "q = 2 ^ 53")
    case True
    have "of_nat (2 ^ 52) * (2::rat) powi (e + 1) = of_nat q * 2 powi e"
      by (simp add: True powi_Suc)
    then have "\<bar>of_nat (2 ^ 52) * 2 powi (e + 1) - x\<bar> \<le> 2 powi e / 2" using err by simp
    also have "\<dots> \<le> 2 powi (e + 1) / 2" by (simp add: powi_le_iff)
    finally have "\<bar>of_nat (2 ^ 52) * 2 powi (e + 1) - x\<bar> \<le> 2 powi (e + 1) / 2" .
    moreover have "round_frac s num den = (if 971 < e + 1 then Infinite s else Finite s (2 ^ 52) (e + 1))"
      using r True by simp
    ultimately show ?thesis using e_lo by (intro that [of "e + 1" "2 ^ 52"]) simp_all
  next
    case False
    with q_le have "q < 2 ^ 53" by simp
    moreover have "round_frac s num den = (if 971 < e then Infinite s else Finite s q e)"
      using r False by simp
    ultimately show ?thesis using q_ge err e_lo by (intro that) simp_all
  qed
qed

definition representable :: "rat \<Rightarrow> bool" where
  "representable x \<longleftrightarrow> (\<exists>k e. k < 2 ^ 53 \<and> -1074 \<le> e \<and> e \<le> 971 \<and> x = of_nat k * 2 powi e)"

lemma representable_of_nat: "n < 2 ^ 53 \<Longrightarrow> representable (of_nat n)"
  unfolding representable_def by (rule exI [of _ n], rule exI [of _ 0]) simp

lemma representable_of_int: "\<bar>i\<bar> < 2 ^ 53 \<Longrightarrow> representable \<bar>of_int i\<bar>"
  using representable_of_nat [of "nat \<bar>i\<bar>"] by simp

lemma round_frac_exact:
  assumes "den \<noteq> 0" and "representable ((of_nat num :: rat) / of_nat den)"
  obtains m e where "round_frac s num den = Finite s m e"
    and "of_nat m * 2 powi e = (of_nat num :: rat) / of_nat den"
proof (cases "num = 0")
  case True
  with that [of 0 "-1074"] show ?thesis by (simp add: round_frac_def dzero_def)
next
  case False
  define x where "x = (of_nat num :: rat) / of_nat den"
  from assms(2) obtain k e0 where k: "k < 2 ^ 53" "-1074 \<le> e0" "e0 \<le> 971" and x: "x = of_nat k * 2 powi e0"
    unfolding representable_def x_def by blast
  define e where "e = max (-1074) (ilog2_frac num den - 52)"
  have "2 powi ilog2_frac num den \<le> x"
    using ilog2_frac_bounds(1) [OF False assms(1)] by (simp add: x_def)
  also have "x < 2 powi 53 * 2 powi e0"
  proof -
    have "(of_nat k :: rat) < of_nat (2 ^ 53)" using k(1) by (simp only: of_nat_less_iff)
    then have "(of_nat k :: rat) < 2 powi 53" by (simp add: power_int_def)
    then show ?thesis unfolding x by (rule mult_strict_right_mono) simp
  qed
  finally have "ilog2_frac num den < 53 + e0" unfolding powi_add powi_less_iff .
  then have ee: "e \<le> e0" using k(2) by (simp add: e_def)
  define K where "K = k * 2 ^ nat (e0 - e)"
  define d where "d = den * 2 ^ nat e"
  have d: "d \<noteq> 0" using assms(1) by (simp add: d_def)
  have K: "(of_nat K :: rat) = x / 2 powi e"
  proof -
    have "(2::rat) ^ nat (e0 - e) = 2 powi (e0 - e)" using ee by (simp add: power_int_def)
    then show ?thesis by (simp add: K_def x powi_divide [symmetric])
  qed
  also have "\<dots> = of_nat (num * 2 ^ nat (- e)) / of_nat d"
    unfolding d_def x_def by (rule scaled_quotient [OF assms(1), symmetric])
  finally have "(of_nat (K * d) :: rat) = of_nat (num * 2 ^ nat (- e))" using d by (simp add: field_simps)
  then have "num * 2 ^ nat (- e) = K * d" by (simp only: of_nat_eq_iff)
  then have q: "round_half_even (num * 2 ^ nat (- e)) d = K" by (simp add: round_half_even_exact [OF d])
  have r: "round_frac s num den =
      (case if K = 2 ^ 53 then (2 ^ 52, e + 1) else (K, e) of
         (m, e) \<Rightarrow> if 971 < e then Infinite s else Finite s m e)"
    using False q unfolding round_frac_def d_def by (simp only: Let_def e_def if_False)
  have val: "of_nat K * 2 powi e = x" by (simp add: K)
  show ?thesis
  proof (cases "K = 2 ^ 53")
    case True
    have "e < e0"
    proof (rule ccontr)
      assume "\<not> e < e0"
      with ee k(1) True show False by (simp add: K_def)
    qed
    with that [of "2 ^ 52" "e + 1"] r True val k(3) show ?thesis
      by (simp add: powi_Suc x_def)
  next
    case Neq: False
    with that [of K e] r val ee k(3) show ?thesis by (simp add: x_def)
  qed
qed

section \<open>Operations on finite values\<close>

fun dfinite :: "double \<Rightarrow> bool" where
  "dfinite (Finite s m e) = True"
| "dfinite _ = False"

definition sgn_of :: "bool \<Rightarrow> rat" where
  "sgn_of s = (if s then -1 else 1)"

lemma dval_Finite: "dval (Finite s m e) = sgn_of s * (of_nat m * 2 powi e)"
  by (simp add: sgn_of_def)

lemma round_frac_value:
  assumes "den \<noteq> 0" and "representable ((of_nat num :: rat) / of_nat den)"
  shows "dfinite (round_frac s num den) \<and>
     dval (round_frac s num den) = sgn_of s * (of_nat num / of_nat den)"
  by (rule round_frac_exact [OF assms, of s]) (simp add: dval_Finite del: dval.simps)

lemma round_dyadic_value:
  assumes "representable (of_nat m * 2 powi e)"
  shows "dfinite (round_dyadic s m e) \<and> dval (round_dyadic s m e) = sgn_of s * (of_nat m * 2 powi e)"
proof -
  have "(of_nat (m * 2 ^ nat e) :: rat) / of_nat (2 ^ nat (- e)) = of_nat m * 2 powi e"
    by (simp add: powi_split)
  with assms round_frac_value [of "2 ^ nat (- e)" "m * 2 ^ nat e" s] show ?thesis
    unfolding round_dyadic_def by (simp only:) simp
qed

lemma of_integer_exact:
  assumes "\<bar>i\<bar> < 2 ^ 53"
  shows "dfinite (of_integer i) \<and> dval (of_integer i) = of_int i"
proof -
  have "representable (of_nat (nat \<bar>i\<bar>) * 2 powi 0)" using assms by (simp add: representable_of_int)
  from round_dyadic_value [OF this, of "i < 0"] show ?thesis
    by (auto simp: of_integer_def sgn_of_def)
qed

lemma dmul_exact:
  assumes "dfinite a" and "dfinite b" and "representable \<bar>dval a * dval b\<bar>"
  shows "dfinite (dmul a b) \<and> dval (dmul a b) = dval a * dval b"
proof -
  obtain s1 m1 e1 s2 m2 e2 where ab: "a = Finite s1 m1 e1" "b = Finite s2 m2 e2"
    using assms(1,2) by (cases a; cases b) auto
  have p: "of_nat (m1 * m2) * 2 powi (e1 + e2) = (of_nat m1 * 2 powi e1) * (of_nat m2 * (2::rat) powi e2)"
    by (simp flip: powi_add)
  then have "\<bar>dval a * dval b\<bar> = of_nat (m1 * m2) * 2 powi (e1 + e2)"
    unfolding ab dval_Finite p by (simp add: sgn_of_def abs_mult)
  with assms(3) have "representable (of_nat (m1 * m2) * 2 powi (e1 + e2))" by simp
  from round_dyadic_value [OF this, of "s1 \<noteq> s2"] show ?thesis
    unfolding ab dmul.simps p by (auto simp: dval_Finite sgn_of_def simp del: dval.simps)
qed

lemma ddiv_exact:
  assumes "dfinite a" and "dfinite b" and "dval b \<noteq> 0" and "representable \<bar>dval a / dval b\<bar>"
  shows "dfinite (ddiv a b) \<and> dval (ddiv a b) = dval a / dval b"
proof -
  obtain s1 m1 e1 s2 m2 e2 where ab: "a = Finite s1 m1 e1" "b = Finite s2 m2 e2"
    using assms(1,2) by (cases a; cases b) auto
  have m2: "m2 \<noteq> 0" using assms(3) by (auto simp: ab)
  have "(of_nat m1 * 2 powi e1) / (of_nat m2 * 2 powi e2) = of_nat m1 / of_nat m2 * ((2::rat) powi e1 / 2 powi e2)"
    by simp
  also have "(2::rat) powi e1 / 2 powi e2 = 2 ^ nat (e1 - e2) / 2 ^ nat (e2 - e1)"
    unfolding powi_divide using powi_split [of "e1 - e2"] by simp
  finally have q: "(of_nat (m1 * 2 ^ nat (e1 - e2)) :: rat) / of_nat (m2 * 2 ^ nat (e2 - e1)) =
      (of_nat m1 * 2 powi e1) / (of_nat m2 * 2 powi e2)" by simp
  have "\<bar>dval a / dval b\<bar> = of_nat (m1 * 2 ^ nat (e1 - e2)) / of_nat (m2 * 2 ^ nat (e2 - e1))"
    unfolding ab dval_Finite q by (simp add: sgn_of_def abs_mult)
  with assms(4) have "representable (of_nat (m1 * 2 ^ nat (e1 - e2)) / of_nat (m2 * 2 ^ nat (e2 - e1)))" by simp
  from round_frac_value [OF _ this, of "s1 \<noteq> s2"] m2 show ?thesis
    unfolding ab ddiv.simps q by (auto simp: dval_Finite sgn_of_def simp del: dval.simps)
qed

lemma signed_mant_val: "of_int (signed_mant s m) = sgn_of s * (of_nat m :: rat)"
  by (simp add: signed_mant_def sgn_of_def)

lemma aligned_val:
  assumes "e \<le> e1"
  shows "of_int (signed_mant s m * 2 ^ nat (e1 - e)) * 2 powi e = dval (Finite s m e1)"
proof -
  have "(2::rat) ^ nat (e1 - e) = 2 powi (e1 - e)" using assms by (simp add: power_int_def)
  then have "(2::rat) ^ nat (e1 - e) * 2 powi e = 2 powi e1" by (simp add: powi_add)
  then show ?thesis
    by (simp add: dval_Finite signed_mant_val mult.assoc del: dval.simps)
qed

lemma dless_dval: "dfinite a \<Longrightarrow> dfinite b \<Longrightarrow> dless a b \<longleftrightarrow> dval a < dval b"
proof -
  assume "dfinite a" and "dfinite b"
  then obtain s1 m1 e1 s2 m2 e2 where ab: "a = Finite s1 m1 e1" "b = Finite s2 m2 e2"
    by (cases a; cases b) auto
  define e where "e = min e1 e2"
  let ?l = "signed_mant s1 m1 * 2 ^ nat (e1 - e)" and ?r = "signed_mant s2 m2 * 2 ^ nat (e2 - e)"
  have "dless a b \<longleftrightarrow> ?l < ?r" by (simp add: ab e_def Let_def)
  also have "\<dots> \<longleftrightarrow> (of_int ?l :: rat) < of_int ?r" by (rule of_int_less_iff [symmetric])
  also have "\<dots> \<longleftrightarrow> of_int ?l * (2::rat) powi e < of_int ?r * 2 powi e" by simp
  also have "\<dots> \<longleftrightarrow> dval a < dval b" unfolding ab by (subst (1 2) aligned_val) (simp_all add: e_def)
  finally show ?thesis .
qed

lemma dadd_exact:
  assumes "dfinite a" and "dfinite b" and "representable \<bar>dval a + dval b\<bar>"
  shows "dfinite (dadd a b) \<and> dval (dadd a b) = dval a + dval b"
proof -
  obtain s1 m1 e1 s2 m2 e2 where ab: "a = Finite s1 m1 e1" "b = Finite s2 m2 e2"
    using assms(1,2) by (cases a; cases b) auto
  define e where "e = min e1 e2"
  define i where "i = signed_mant s1 m1 * 2 ^ nat (e1 - e) + signed_mant s2 m2 * 2 ^ nat (e2 - e)"
  have sum: "of_int i * 2 powi e = dval a + dval b"
    unfolding i_def ab of_int_add distrib_right
    by (subst (1 2) aligned_val) (simp_all add: e_def)
  then have abs: "of_nat (nat \<bar>i\<bar>) * 2 powi e = \<bar>dval a + dval b\<bar>"
    by (simp add: abs_mult flip: sum)
  have zero: "m1 = 0 \<or> m2 = 0 \<Longrightarrow> ?thesis"
    by (auto simp: ab dzero_def)
  show ?thesis
  proof (cases "m1 = 0 \<or> m2 = 0 \<or> i = 0")
    case True
    then show ?thesis
    proof (cases "m1 = 0 \<or> m2 = 0")
      case True
      then show ?thesis by (rule zero)
    next
      case False
      with True have "i = 0" by simp
      then show ?thesis using sum False
        by (simp add: ab Let_def dzero_def flip: e_def i_def)
    qed
  next
    case False
    have "representable (of_nat (nat \<bar>i\<bar>) * 2 powi e)" using assms(3) by (simp only: abs)
    from round_dyadic_value [OF this, of "i < 0"] False have
      "dfinite (dadd a b) \<and> dval (dadd a b) = sgn_of (i < 0) * (of_nat (nat \<bar>i\<bar>) * 2 powi e)"
      by (simp add: ab Let_def flip: e_def i_def)
    moreover have "sgn_of (i < 0) * (of_nat (nat \<bar>i\<bar>) * 2 powi e) = of_int i * 2 powi e"
      by (simp add: sgn_of_def)
    ultimately show ?thesis using sum by simp
  qed
qed

section \<open>Large integers\<close>

lemma of_integer_large:
  assumes "2 ^ 53 \<le> \<bar>i\<bar>" and "\<bar>i\<bar> < 2 ^ 64"
  shows "dfinite (of_integer i) \<and> 2 ^ 53 \<le> sgn_of (i < 0) * dval (of_integer i)"
proof -
  define n where "n = nat \<bar>i\<bar>"
  define x where "x = (of_nat n :: rat)"
  have xr: "x = of_int \<bar>i\<bar>" by (simp add: x_def n_def)
  have x: "2 ^ 53 \<le> x" "x < 2 ^ 64"
    unfolding xr using assms by (metis of_int_le_iff of_int_numeral of_int_power, metis of_int_less_iff of_int_numeral of_int_power)
  have n: "n \<noteq> 0" using assms(1) by (simp add: n_def)
  obtain m e where r: "round_frac (i < 0) n 1 = (if 971 < e then Infinite (i < 0) else Finite (i < 0) m e)"
    and m: "m < 2 ^ 53" and me: "2 ^ 52 \<le> m \<or> e = -1074"
    and err: "\<bar>of_nat m * 2 powi e - x\<bar> \<le> 2 powi e / 2"
    by (rule round_frac_spec [OF n, of 1 "i < 0"]) (auto simp: x_def)
  have e1: "1 \<le> e"
  proof (rule ccontr)
    assume "\<not> 1 \<le> e"
    then have "(2::rat) powi e \<le> 2 powi 0" unfolding powi_le_iff by simp
    then have p: "(2::rat) powi e \<le> 1" by simp
    have "m + 1 \<le> 2 ^ 53" using m by simp
    then have "(of_nat (m + 1) :: rat) \<le> of_nat (2 ^ 53)" by (simp only: of_nat_le_iff)
    then have "(of_nat m :: rat) \<le> 2 ^ 53 - 1" by simp
    then have "of_nat m * 2 powi e \<le> (2 ^ 53 - 1) * (1::rat)"
      using p by (intro mult_mono) simp_all
    moreover define A where "A = of_nat m * (2::rat) powi e"
    ultimately have "A \<le> 9007199254740991" by simp
    moreover have "x \<le> A + 2 powi e / 2" using err unfolding A_def by linarith
    ultimately show False using x(1) p by simp
  qed
  with me have "2 ^ 52 \<le> m" by simp
  then have "(of_nat (2 ^ 52) :: rat) \<le> of_nat m" by (simp only: of_nat_le_iff)
  then have big: "2 ^ 52 * (2::rat) powi e \<le> of_nat m * 2 powi e" by (intro mult_right_mono) simp_all
  have "(2::rat) powi 1 \<le> 2 powi e" unfolding powi_le_iff by (rule e1)
  then have "(2::rat) ^ 53 \<le> 2 ^ 52 * 2 powi e" by simp
  with big have low: "(2::rat) ^ 53 \<le> of_nat m * 2 powi e" by (rule order_trans [rotated])
  have "\<not> 971 < e"
  proof
    assume "971 < e"
    then have "(2::rat) powi 64 \<le> 2 powi e" unfolding powi_le_iff by simp
    then have "(2::rat) ^ 64 \<le> 2 powi e" by (simp add: power_int_def)
    moreover define P where "P = (2::rat) powi e"
    ultimately have "18446744073709551616 \<le> P" by simp
    moreover define A where "A = of_nat m * (2::rat) powi e"
    moreover have "A \<le> x + P / 2" using err unfolding A_def P_def by linarith
    moreover have "2 ^ 52 * P \<le> A" using big unfolding A_def P_def .
    moreover have "(2::rat) ^ 52 = 4503599627370496" by simp
    ultimately show False using x(2) by simp
  qed
  with r low show ?thesis
    by (simp add: of_integer_def round_dyadic_def sgn_of_def flip: n_def)
qed

lemma dless_of_integer:
  assumes "\<bar>t\<bar> < 2 ^ 53" and "\<bar>i\<bar> < 2 ^ 64"
  shows "dless (of_integer t) (of_integer i) \<longleftrightarrow> t < i"
proof -
  have t: "dfinite (of_integer t)" "dval (of_integer t) = of_int t" using of_integer_exact [OF assms(1)] by simp_all
  have "(of_int \<bar>t\<bar> :: rat) < of_int (2 ^ 53)" using assms(1) by (simp only: of_int_less_iff)
  then have tb: "- (2 ^ 53) < (of_int t :: rat)" "(of_int t :: rat) < 2 ^ 53" by simp_all
  show ?thesis
  proof (cases "\<bar>i\<bar> < 2 ^ 53")
    case True
    then show ?thesis using t of_integer_exact [OF True] by (simp add: dless_dval)
  next
    case False
    then have i: "dfinite (of_integer i)" "2 ^ 53 \<le> sgn_of (i < 0) * dval (of_integer i)"
      using of_integer_large [OF _ assms(2)] by simp_all
    show ?thesis
    proof (cases "i < 0")
      case True
      with False assms(1) i(2) tb have "\<not> t < i" and "\<not> of_int t < dval (of_integer i)"
        by (auto simp: sgn_of_def)
      then show ?thesis using t i(1) by (simp add: dless_dval)
    next
      case pos: False
      with False assms(1) i(2) tb have "t < i" and "of_int t < dval (of_integer i)"
        by (auto simp: sgn_of_def)
      then show ?thesis using t i(1) by (simp add: dless_dval)
    qed
  qed
qed

text \<open>
  The normal form of a finite result: 53 significant bits, fewer at the least exponent. There the
  unit in the last place of the number is the power of two of its exponent.
\<close>

fun normal_form :: "double \<Rightarrow> bool" where
  "normal_form (Finite s m e) \<longleftrightarrow> m < 2 ^ 53 \<and> -1074 \<le> e \<and> e \<le> 971 \<and> (2 ^ 52 \<le> m \<or> e = -1074)"
| "normal_form _ \<longleftrightarrow> False"

fun ulp :: "double \<Rightarrow> rat" where
  "ulp (Finite s m e) = 2 powi e"
| "ulp _ = 0"

lemma normal_form_dzero: "normal_form (dzero s)"
  by (simp add: dzero_def)

lemma round_dyadic_error:
  assumes "round_dyadic s m e = Finite s' m' e'"
  shows "normal_form (Finite s' m' e')"
    and "\<bar>dval (Finite s' m' e') - sgn_of s * (of_nat m * 2 powi e)\<bar> \<le> ulp (Finite s' m' e') / 2"
proof -
  have "normal_form (Finite s' m' e') \<and>
    \<bar>dval (Finite s' m' e') - sgn_of s * (of_nat m * 2 powi e)\<bar> \<le> ulp (Finite s' m' e') / 2"
  proof (cases "m = 0")
    case True
    with assms show ?thesis by (auto simp: round_dyadic_def round_frac_def dzero_def)
  next
    case False
    define x where "x = (of_nat m :: rat) * 2 powi e"
    have q: "(of_nat (m * 2 ^ nat e) :: rat) / of_nat (2 ^ nat (- e)) = x"
      by (simp add: powi_split x_def)
    have num: "m * 2 ^ nat e \<noteq> 0" and den: "(2::nat) ^ nat (- e) \<noteq> 0" using False by simp_all
    obtain n k where r: "round_frac s (m * 2 ^ nat e) (2 ^ nat (- e)) =
          (if 971 < k then Infinite s else Finite s n k)"
      and n: "n < 2 ^ 53" "-1074 \<le> k" "2 ^ 52 \<le> n \<or> k = -1074" and err: "\<bar>of_nat n * 2 powi k - x\<bar> \<le> 2 powi k / 2"
      using round_frac_spec [OF num den, of s] unfolding q by metis
    have eq: "s' = s" "m' = n" "e' = k" "k \<le> 971"
      using assms r by (auto simp: round_dyadic_def split: if_splits)
    have "\<bar>dval (Finite s' m' e') - sgn_of s * x\<bar> = \<bar>of_nat n * 2 powi k - x\<bar>"
      by (auto simp: eq sgn_of_def abs_minus_commute)
    with err n eq(4) show ?thesis by (simp add: eq x_def del: dval.simps)
  qed
  then show "normal_form (Finite s' m' e')"
    and "\<bar>dval (Finite s' m' e') - sgn_of s * (of_nat m * 2 powi e)\<bar> \<le> ulp (Finite s' m' e') / 2" by blast+
qed

lemma dmul_error:
  assumes "dfinite a" and "dfinite b" and "dfinite (dmul a b)"
  shows "normal_form (dmul a b) \<and> \<bar>dval (dmul a b) - dval a * dval b\<bar> \<le> ulp (dmul a b) / 2"
proof -
  obtain s1 m1 e1 s2 m2 e2 s m e where ab: "a = Finite s1 m1 e1" "b = Finite s2 m2 e2"
    and r: "dmul a b = Finite s m e"
    using assms by (cases a; cases b; cases "dmul a b") auto
  have "dval a * dval b = sgn_of (s1 \<noteq> s2) * (of_nat (m1 * m2) * 2 powi (e1 + e2))"
    by (auto simp: ab sgn_of_def simp flip: powi_add)
  with round_dyadic_error [of "s1 \<noteq> s2" "m1 * m2" "e1 + e2" s m e] r show ?thesis
    by (simp add: ab del: dval.simps)
qed

section \<open>Conversions back to integers\<close>

lemma dtrunc_exact:
  assumes "dfinite x" and "dval x = of_int i"
  shows "dtrunc x = Some i"
proof -
  obtain s m e where x: "x = Finite s m e" using assms(1) by (cases x) auto
  have v: "sgn_of s * (of_nat m * 2 powi e) = of_int i" using assms(2) unfolding x dval_Finite .
  have abs: "of_nat m * (2::rat) powi e = of_int (if s then - i else i)"
    using v by (simp add: sgn_of_def split: if_splits)
  define k where "k = (if 0 \<le> e then m * 2 ^ nat e else m div 2 ^ nat (- e))"
  have "int k = (if s then - i else i)"
  proof (cases "0 \<le> e")
    case True
    then have "(of_int (int k) :: rat) = of_nat m * 2 powi e" by (simp add: k_def power_int_def)
    then show ?thesis unfolding abs by (simp only: of_int_eq_iff)
  next
    case False
    then have "of_nat m = of_int (if s then - i else i) * (2::rat) ^ nat (- e)"
      using abs by (simp add: power_int_def field_simps)
    then have "(of_int (int m) :: rat) = of_int ((if s then - i else i) * 2 ^ nat (- e))" by simp
    then have "int m = (if s then - i else i) * 2 ^ nat (- e)" by (simp only: of_int_eq_iff)
    then have "int m div 2 ^ nat (- e) = (if s then - i else i)" by simp
    then show ?thesis using False by (simp add: k_def zdiv_int)
  qed
  then show ?thesis by (cases s) (simp_all add: x Let_def flip: k_def)
qed

lemma of_integer_finite: "\<bar>i\<bar> < 2 ^ 64 \<Longrightarrow> dfinite (of_integer i)"
  using of_integer_exact [of i] of_integer_large [of i] by linarith

lemma cast_long_exact:
  "dfinite x \<Longrightarrow> dval x = of_int i \<Longrightarrow> long_min \<le> i \<Longrightarrow> i \<le> long_max \<Longrightarrow> cast_long x = Inr i"
  by (simp add: cast_long_def dtrunc_exact)

lemma cast_int_exact:
  "dfinite x \<Longrightarrow> dval x = of_int i \<Longrightarrow> int_min \<le> i \<Longrightarrow> i \<le> int_max \<Longrightarrow> cast_int x = Inr i"
  by (simp add: cast_int_def dtrunc_exact)

lemma never_seen: "of_integer (10 ^ 18) = Finite False 7812500000000000 7"
  by (simp add: double_eval)

end
