(* ===== verification/Cpp_Text.thy ===== *)
theory Cpp_Text
  imports Cpp_Double "HOL-Library.Char_ord"
begin

text \<open>
  The text functions of the C++ library that the sources call, on strings as character lists:
  integers printed by \<open>ostream <<\<close>, \<open>std::hex\<close>, \<open>std::to_string\<close> and \<open>printf\<close>, and the
  conversions \<open>std::stol\<close>, \<open>std::stoi\<close>, \<open>std::stoul(s, nullptr, 16)\<close> and \<open>std::stod\<close> with
  the exceptions they throw. The round trips between the two directions close the theory.
\<close>

section \<open>Digits\<close>

definition digit_char :: "nat \<Rightarrow> char" where
  "digit_char n = ''0123456789abcdef'' ! n"

definition upper_digit :: "nat \<Rightarrow> char" where
  "upper_digit n = ''0123456789ABCDEF'' ! n"

definition digit_val :: "char \<Rightarrow> nat option" where
  "digit_val c =
     (let n = (of_char c :: nat) in
      if 48 \<le> n \<and> n \<le> 57 then Some (n - 48)
      else if 97 \<le> n \<and> n \<le> 102 then Some (n - 87)
      else if 65 \<le> n \<and> n \<le> 70 then Some (n - 55)
      else None)"

definition is_digit :: "nat \<Rightarrow> char \<Rightarrow> bool" where
  "is_digit b c = (case digit_val c of None \<Rightarrow> False | Some d \<Rightarrow> d < b)"

text \<open>\<open>std::isspace\<close> in the C locale.\<close>

definition is_space :: "char \<Rightarrow> bool" where
  "is_space c \<longleftrightarrow> (let n = (of_char c :: nat) in n = 32 \<or> 9 \<le> n \<and> n \<le> 13)"

section \<open>Printing\<close>

function to_base :: "(nat \<Rightarrow> char) \<Rightarrow> nat \<Rightarrow> nat \<Rightarrow> string" where
  "to_base d b n =
     (if b < 2 \<or> n < b then [d n] else to_base d b (n div b) @ [d (n mod b)])"
  by pat_completeness auto

termination
  by (relation "measure (\<lambda>(d, b, n). n)") (auto intro: div_less_dividend)

declare to_base.simps [simp del]

definition dec_nat :: "nat \<Rightarrow> string" where
  "dec_nat n = to_base digit_char 10 n"

definition dec_int :: "int \<Rightarrow> string" where
  "dec_int i = (if i < 0 then ''-'' @ dec_nat (nat (- i)) else dec_nat (nat i))"

definition hex_lower :: "nat \<Rightarrow> string" where
  "hex_lower n = to_base digit_char 16 n"

definition hex_upper :: "nat \<Rightarrow> string" where
  "hex_upper n = to_base upper_digit 16 n"

text \<open>Minimum field widths of \<open>printf\<close>: right-justified, left-justified, zero-padded.\<close>

definition pad_left :: "nat \<Rightarrow> string \<Rightarrow> string" where
  "pad_left w s = replicate (w - length s) CHR '' '' @ s"

definition pad_right :: "nat \<Rightarrow> string \<Rightarrow> string" where
  "pad_right w s = s @ replicate (w - length s) CHR '' ''"

definition zero_pad :: "nat \<Rightarrow> string \<Rightarrow> string" where
  "zero_pad w s = replicate (w - length s) CHR ''0'' @ s"

text \<open>
  \<open>%.<p>f\<close>: the exact value of the double times ten to the precision, rounded half to even, with
  the decimal point inserted.
\<close>

definition fixed_digits :: "nat \<Rightarrow> nat \<Rightarrow> int \<Rightarrow> nat" where
  "fixed_digits p m e = round_half_even (m * 10 ^ p * 2 ^ nat e) (2 ^ nat (- e))"

fun fmt_fixed :: "nat \<Rightarrow> double \<Rightarrow> string" where
  "fmt_fixed p (Finite s m e) =
     (let n = fixed_digits p m e in
      (if s then ''-'' else '''') @ dec_nat (n div 10 ^ p) @
      (if p = 0 then '''' else ''.'' @ zero_pad p (dec_nat (n mod 10 ^ p))))"
| "fmt_fixed p (Infinite s) = (if s then ''-inf'' else ''inf'')"
| "fmt_fixed p NaN = ''nan''"

text \<open>
  \<open>ostream <<\<close> of a double, which is \<open>%g\<close> with six significant digits: the decimal exponent of the
  rounded value decides between the two notations, and trailing zeros are dropped.
\<close>

definition decimal_exponent :: "nat \<Rightarrow> nat \<Rightarrow> int" where
  "decimal_exponent num den =
     (if den \<le> num then int (length (dec_nat (num div den))) - 1
      else - int (length (dec_nat ((den - 1) div num))))"

definition strip_fraction :: "string \<Rightarrow> string" where
  "strip_fraction f =
     (let t = rev (dropWhile (\<lambda>c. c = CHR ''0'') (rev f)) in if t = [] then [] else ''.'' @ t)"

text \<open>A number of six digits, with the point behind the first digit and the exponent \<open>x\<close>.\<close>

definition general_text :: "nat \<Rightarrow> int \<Rightarrow> string" where
  "general_text n x =
     (let p = (if -4 \<le> x \<and> x < 6 then nat (5 - x) else 5);
          t = dec_nat (n div 10 ^ p) @ strip_fraction (zero_pad p (dec_nat (n mod 10 ^ p)))
      in if -4 \<le> x \<and> x < 6 then t
         else t @ (if x < 0 then ''e-'' else ''e+'') @ zero_pad 2 (dec_nat (nat \<bar>x\<bar>)))"

definition general_digits :: "nat \<Rightarrow> nat \<Rightarrow> string" where
  "general_digits num den =
     (let x = decimal_exponent num den;
          n = round_half_even (num * 10 ^ nat (5 - x)) (den * 10 ^ nat (x - 5))
      in if n = 10 ^ 6 then general_text (10 ^ 5) (x + 1) else general_text n x)"

fun fmt_general :: "double \<Rightarrow> string" where
  "fmt_general (Finite s m e) =
     (if s then ''-'' else []) @ (if m = 0 then ''0'' else general_digits (m * 2 ^ nat e) (2 ^ nat (- e)))"
| "fmt_general (Infinite s) = (if s then ''-inf'' else ''inf'')"
| "fmt_general NaN = ''nan''"

section \<open>How a program starts\<close>

definition newline :: char where "newline = CHR 0x0A"

text \<open>
  The reading of the command line either lets the program run or ends it by \<open>std::exit\<close>, with its
  status and the texts written to the standard output and the error output.
\<close>

datatype 'a started = Exited int string string | Running 'a

definition missing_value :: "string \<Rightarrow> 'a started" where
  "missing_value f = Exited 1 '''' (''Missing value for '' @ f @ [newline])"

definition unknown_argument :: "string \<Rightarrow> 'a started" where
  "unknown_argument arg = Exited 1 '''' (''Unknown argument: '' @ arg @ [newline])"

text \<open>The lambda \<open>next\<close>: the following word, or the end of the program.\<close>

definition with_next :: "string \<Rightarrow> string list \<Rightarrow> (string \<Rightarrow> 'a started result) \<Rightarrow> 'a started result" where
  "with_next f rest k = (case rest of [] \<Rightarrow> Inr (missing_value f) | v # _ \<Rightarrow> k v)"

lemma with_next_cong [fundef_cong]:
  "rest = rest' \<Longrightarrow> (\<And>v vs. rest' = v # vs \<Longrightarrow> k v = k' v) \<Longrightarrow> with_next f rest k = with_next f rest' k'"
  by (simp add: with_next_def split: list.split)

text \<open>The message of a standard exception; undefined behaviour is none and is not caught.\<close>

fun cpp_what :: "cpp_error \<Rightarrow> string option" where
  "cpp_what (UB s) = None"
| "cpp_what (Runtime_Error s) = Some s"
| "cpp_what (Invalid_Argument s) = Some s"
| "cpp_what (Out_Of_Range s) = Some s"

definition catch_exception :: "(string \<Rightarrow> 'a result) \<Rightarrow> 'a result \<Rightarrow> 'a result" where
  "catch_exception h r =
     (case r of
        Inr x \<Rightarrow> Inr x
      | Inl e \<Rightarrow> (case cpp_what e of None \<Rightarrow> Inl e | Some what \<Rightarrow> h what))"

lemma catch_exception_Inr:
  "catch_exception h r = Inr x \<longleftrightarrow> r = Inr x \<or> (\<exists>e what. r = Inl e \<and> cpp_what e = Some what \<and> h what = Inr x)"
  by (auto simp: catch_exception_def split: sum.splits option.splits)

section \<open>Scanning integers\<close>

fun read_digits :: "nat \<Rightarrow> nat \<Rightarrow> string \<Rightarrow> nat \<times> string" where
  "read_digits b acc [] = (acc, [])"
| "read_digits b acc (c # cs) =
     (if is_digit b c then read_digits b (acc * b + the (digit_val c)) cs else (acc, c # cs))"

definition starts_with_digit :: "nat \<Rightarrow> string \<Rightarrow> bool" where
  "starts_with_digit b s = (case s of [] \<Rightarrow> False | c # _ \<Rightarrow> is_digit b c)"

definition read_sign :: "string \<Rightarrow> bool \<times> string" where
  "read_sign s =
     (case s of
        [] \<Rightarrow> (False, [])
      | c # cs \<Rightarrow> if c = CHR ''-'' then (True, cs) else if c = CHR ''+'' then (False, cs) else (False, s))"

definition strtol10 :: "string \<Rightarrow> int option" where
  "strtol10 s =
     (let (neg, t) = read_sign (dropWhile is_space s) in
      if starts_with_digit 10 t
      then (let n = int (fst (read_digits 10 0 t)) in Some (if neg then - n else n))
      else None)"

definition stol :: "string \<Rightarrow> int result" where
  "stol s =
     (case strtol10 s of
        None \<Rightarrow> Inl (Invalid_Argument ''stol'')
      | Some v \<Rightarrow> if long_min \<le> v \<and> v \<le> long_max then Inr v else Inl (Out_Of_Range ''stol''))"

definition stoi :: "string \<Rightarrow> int result" where
  "stoi s =
     (case strtol10 s of
        None \<Rightarrow> Inl (Invalid_Argument ''stoi'')
      | Some v \<Rightarrow> if int_min \<le> v \<and> v \<le> int_max then Inr v else Inl (Out_Of_Range ''stoi''))"

text \<open>Base 16 skips an optional \<open>0x\<close> when a hexadecimal digit follows it.\<close>

definition skip_0x :: "string \<Rightarrow> string" where
  "skip_0x s =
     (case s of
        c # x # d # cs \<Rightarrow>
          if c = CHR ''0'' \<and> (x = CHR ''x'' \<or> x = CHR ''X'') \<and> is_digit 16 d then d # cs else s
      | _ \<Rightarrow> s)"

definition stoul16 :: "string \<Rightarrow> u64 result" where
  "stoul16 s =
     (let (neg, t) = read_sign (dropWhile is_space s); u = skip_0x t in
      if \<not> starts_with_digit 16 u then Inl (Invalid_Argument ''stoul'')
      else let n = fst (read_digits 16 0 u) in
        if 2 ^ 64 \<le> n then Inl (Out_Of_Range ''stoul'')
        else Inr (if neg then - of_nat n else of_nat n))"

section \<open>Lines and words\<close>

text \<open>
  \<open>std::getline\<close> in a loop: a line ends at the delimiter or at the end of the input; a final
  delimiter does not start another, empty, line.
\<close>

fun split_at :: "char \<Rightarrow> string \<Rightarrow> string \<Rightarrow> string list" where
  "split_at d acc [] = (if acc = [] then [] else [rev acc])"
| "split_at d acc (c # cs) = (if c = d then rev acc # split_at d [] cs else split_at d (c # acc) cs)"

definition getlines :: "char \<Rightarrow> string \<Rightarrow> string list" where
  "getlines d s = split_at d [] s"

text \<open>\<open>iss >> word\<close> in a loop: the maximal runs of characters that are not white space.\<close>

fun split_words :: "string \<Rightarrow> string \<Rightarrow> string list" where
  "split_words acc [] = (if acc = [] then [] else [rev acc])"
| "split_words acc (c # cs) =
     (if is_space c then (if acc = [] then split_words [] cs else rev acc # split_words [] cs)
      else split_words (c # acc) cs)"

definition stream_words :: "string \<Rightarrow> string list" where
  "stream_words s = split_words [] s"

named_theorems text_eval \<open>evaluation of text functions on literals\<close>

lemmas [text_eval] = to_base.simps digit_char_def upper_digit_def digit_val_def is_digit_def is_space_def
  dec_nat_def dec_int_def hex_lower_def hex_upper_def pad_left_def pad_right_def zero_pad_def
  fixed_digits_def round_half_even_def starts_with_digit_def read_sign_def strtol10_def stol_def stoi_def
  decimal_exponent_def strip_fraction_def skip_0x_def stoul16_def getlines_def stream_words_def newline_def Let_def

section \<open>Printing and scanning are inverse\<close>

definition digits_ok :: "(nat \<Rightarrow> char) \<Rightarrow> bool" where
  "digits_ok d \<longleftrightarrow> (\<forall>k < 16. digit_val (d k) = Some k \<and> \<not> is_space (d k) \<and> d k \<noteq> CHR ''-'' \<and>
     d k \<noteq> CHR ''+'' \<and> d k \<noteq> CHR ''x'' \<and> d k \<noteq> CHR ''X'')"

lemma all_less_16: "(\<forall>k < (16::nat). P k) \<longleftrightarrow>
    P 0 \<and> P 1 \<and> P 2 \<and> P 3 \<and> P 4 \<and> P 5 \<and> P 6 \<and> P 7 \<and> P 8 \<and> P 9 \<and> P 10 \<and> P 11 \<and> P 12 \<and> P 13 \<and> P 14 \<and> P 15"
  by (simp add: numeral_eq_Suc All_less_Suc)
     auto

lemma digits_ok_lower: "digits_ok digit_char"
  unfolding digits_ok_def all_less_16 by (simp add: text_eval)

lemma digits_ok_upper: "digits_ok upper_digit"
  unfolding digits_ok_def all_less_16 by (simp add: text_eval)

lemma digits_okD: "digits_ok d \<Longrightarrow> k < 16 \<Longrightarrow> digit_val (d k) = Some k"
  by (simp add: digits_ok_def)

lemma to_base_not_Nil [simp]: "to_base d b n \<noteq> []"
  by (subst to_base.simps) simp

lemma to_base_digits:
  "2 \<le> b \<Longrightarrow> b \<le> 16 \<Longrightarrow> c \<in> set (to_base d b n) \<Longrightarrow> \<exists>k < b. c = d k"
proof (induction d b n rule: to_base.induct)
  case (1 d b n)
  show ?case
  proof (cases "n < b")
    case True
    then have "to_base d b n = [d n]" by (simp add: to_base.simps)
    with 1 True show ?thesis by auto
  next
    case False
    then have "to_base d b n = to_base d b (n div b) @ [d (n mod b)]"
      using 1(2) by (subst to_base.simps) simp
    then consider "c \<in> set (to_base d b (n div b))" | "c = d (n mod b)" using 1(4) by auto
    then show ?thesis
    proof cases
      case 1
      then show ?thesis using \<open>2 \<le> b\<close> \<open>b \<le> 16\<close> False "1.IH" by simp
    next
      case 2
      moreover have "n mod b < b" using \<open>2 \<le> b\<close> by simp
      ultimately show ?thesis by blast
    qed
  qed
qed

lemma read_digits_to_base:
  assumes "digits_ok d" and "2 \<le> b" and "b \<le> 16"
  shows "read_digits b acc (to_base d b n @ rest) = read_digits b (acc * b ^ length (to_base d b n) + n) rest"
proof (induction n arbitrary: acc rest rule: less_induct)
  case (less n)
  have digit: "digit_val (d k) = Some k" if "k < b" for k
    using digits_okD [OF assms(1), of k] assms(3) that by simp
  show ?case
  proof (cases "n < b")
    case True
    then show ?thesis using assms(2) digit [OF True] by (simp add: to_base.simps is_digit_def)
  next
    case False
    have eq: "to_base d b n = to_base d b (n div b) @ [d (n mod b)]"
      using False assms(2) by (subst to_base.simps) simp
    have "n div b < n" using False assms(2) by (intro div_less_dividend) auto
    then show ?thesis
      unfolding eq using assms(2) digit [of "n mod b"]
      by (simp add: less.IH is_digit_def add_mult_distrib mult.assoc flip: add.assoc)
         (simp add: ac_simps)
  qed
qed

lemma read_digits_stop: "\<not> starts_with_digit b rest \<Longrightarrow> read_digits b acc rest = (acc, rest)"
  by (cases rest) (simp_all add: starts_with_digit_def)

lemma to_base_Cons:
  assumes "digits_ok d" and "2 \<le> b" and "b \<le> 16"
  obtains k cs where "k < b" and "to_base d b n = d k # cs" and "\<forall>c \<in> set cs. \<exists>j < b. c = d j"
proof -
  obtain c cs where c: "to_base d b n = c # cs" by (cases "to_base d b n") auto
  with to_base_digits [OF assms(2,3), of c d n] to_base_digits [OF assms(2,3), of _ d n] that show thesis
    by (metis list.set_intros)
qed

lemma is_digit_d: "digits_ok d \<Longrightarrow> k < b \<Longrightarrow> b \<le> 16 \<Longrightarrow> is_digit b (d k)"
  by (simp add: is_digit_def digits_okD)

lemma read_dec: "\<not> starts_with_digit 10 rest \<Longrightarrow> read_digits 10 0 (dec_nat n @ rest) = (n, rest)"
  unfolding dec_nat_def
  using read_digits_to_base [OF digits_ok_lower, of 10 0 n rest] by (simp add: read_digits_stop)

lemma dec_nat_start:
  "starts_with_digit 10 (dec_nat n @ rest)"
  "dropWhile is_space (dec_nat n @ rest) = dec_nat n @ rest"
  "read_sign (dec_nat n @ rest) = (False, dec_nat n @ rest)"
proof -
  obtain k cs where k: "k < 10" "dec_nat n = digit_char k # cs"
    unfolding dec_nat_def by (rule to_base_Cons [OF digits_ok_lower, of 10 n]) auto
  then have "is_digit 10 (digit_char k)" "\<not> is_space (digit_char k)"
      "digit_char k \<noteq> CHR ''-''" "digit_char k \<noteq> CHR ''+''"
    using digits_ok_lower by (simp_all add: is_digit_d digits_ok_def)
  then show "starts_with_digit 10 (dec_nat n @ rest)"
    "dropWhile is_space (dec_nat n @ rest) = dec_nat n @ rest"
    "read_sign (dec_nat n @ rest) = (False, dec_nat n @ rest)"
    by (simp_all add: k starts_with_digit_def read_sign_def)
qed

lemma strtol10_dec_int: "\<not> starts_with_digit 10 rest \<Longrightarrow> strtol10 (dec_int i @ rest) = Some i"
proof (cases "i < 0")
  case True
  assume "\<not> starts_with_digit 10 rest"
  moreover have "dropWhile is_space (''-'' @ dec_nat (nat (- i)) @ rest) = ''-'' @ dec_nat (nat (- i)) @ rest"
    by (simp add: is_space_def)
  ultimately show ?thesis using True
    by (simp add: strtol10_def dec_int_def read_sign_def dec_nat_start read_dec)
next
  case False
  assume "\<not> starts_with_digit 10 rest"
  with False show ?thesis by (simp add: strtol10_def dec_int_def dec_nat_start read_dec)
qed

lemma stol_dec_int: "long_min \<le> i \<Longrightarrow> i \<le> long_max \<Longrightarrow> stol (dec_int i) = Inr i"
  using strtol10_dec_int [of "[]" i] by (simp add: stol_def starts_with_digit_def)

lemma stoi_dec_int: "int_min \<le> i \<Longrightarrow> i \<le> int_max \<Longrightarrow> stoi (dec_int i) = Inr i"
  using strtol10_dec_int [of "[]" i] by (simp add: stoi_def starts_with_digit_def)

text \<open>Hexadecimal numbers with leading zeros, with and without the prefix \<open>0x\<close>.\<close>

lemma read_zeros: "2 \<le> b \<Longrightarrow> read_digits b 0 (replicate k CHR ''0'' @ s) = read_digits b 0 s"
  by (induction k) (simp_all add: is_digit_def digit_val_def)

lemma zero_pad_hex:
  assumes "digits_ok d"
  obtains c k cs where "zero_pad w (to_base d 16 n) = c # cs" and "k < 16" and "c = d k \<or> c = CHR ''0''"
    and "\<forall>x \<in> set cs. (\<exists>j < 16. x = d j) \<or> x = CHR ''0''"
proof -
  obtain k cs where k: "k < 16" "to_base d 16 n = d k # cs" "\<forall>c \<in> set cs. \<exists>j < 16. c = d j"
    by (rule to_base_Cons [OF assms, of 16 n]) auto
  show thesis
  proof (cases "w - length (to_base d 16 n)")
    case 0
    with k show thesis by (intro that [of "d k" cs k]) (auto simp: zero_pad_def)
  next
    case (Suc m)
    with k show thesis
      by (intro that [of "CHR ''0''" "replicate m CHR ''0'' @ d k # cs" k]) (auto simp: zero_pad_def)
  qed
qed

lemma stoul16_steps:
  "\<lbrakk>read_sign (dropWhile is_space s) = (False, t); skip_0x t = u; starts_with_digit 16 u;
    read_digits 16 0 u = (n, rest); n < 2 ^ 64\<rbrakk> \<Longrightarrow> stoul16 s = Inr (of_nat n)"
  unfolding stoul16_def Let_def by (simp only: prod.case fst_conv not_le [symmetric]) simp

lemma stoul16_hex:
  assumes "digits_ok d" and "n < 2 ^ 64"
  shows "stoul16 (zero_pad w (to_base d 16 n)) = Inr (of_nat n)"
    and "stoul16 (''0x'' @ zero_pad w (to_base d 16 n)) = Inr (of_nat n)"
proof -
  obtain k c cs where c: "zero_pad w (to_base d 16 n) = c # cs" "k < 16" "c = d k \<or> c = CHR ''0''"
    and cs: "\<forall>x \<in> set cs. (\<exists>j < 16. x = d j) \<or> x = CHR ''0''"
    by (rule zero_pad_hex [OF assms(1), of w n]) 
  have hd: "is_digit 16 c" "\<not> is_space c" "c \<noteq> CHR ''-''" "c \<noteq> CHR ''+''"
  proof -
    have "is_digit 16 c \<and> \<not> is_space c \<and> c \<noteq> CHR ''-'' \<and> c \<noteq> CHR ''+''"
    proof (cases "c = d k")
      case True
      then show ?thesis using assms(1) c(2) by (simp add: digits_ok_def is_digit_def)
    next
      case False
      with c(3) have "c = CHR ''0''" by blast
      then show ?thesis by (simp add: is_digit_def is_space_def digit_val_def)
    qed
    then show "is_digit 16 c" "\<not> is_space c" "c \<noteq> CHR ''-''" "c \<noteq> CHR ''+''" by simp_all
  qed
  have x: "x \<noteq> CHR ''x'' \<and> x \<noteq> CHR ''X''" if "x \<in> set cs" for x
  proof -
    from cs that consider j where "j < 16" "x = d j" | "x = CHR ''0''" by blast
    then show ?thesis using assms(1) by cases (simp_all add: digits_ok_def)
  qed
  have skip: "skip_0x (c # cs) = c # cs"
  proof (cases cs)
    case (Cons y ys)
    then show ?thesis using x [of y] by (cases ys) (simp_all add: skip_0x_def)
  qed (simp add: skip_0x_def)
  have read: "read_digits 16 0 (c # cs) = (n, [])"
    unfolding c(1) [symmetric] zero_pad_def
    using read_digits_to_base [OF assms(1), of 16 0 n "[]"] by (simp add: read_zeros)
  have start: "starts_with_digit 16 (c # cs)" using hd by (simp add: starts_with_digit_def)
  show "stoul16 (zero_pad w (to_base d 16 n)) = Inr (of_nat n)"
    using hd by (intro stoul16_steps [OF _ skip start read assms(2)]) (simp add: c(1) read_sign_def)
  have "skip_0x (CHR ''0'' # CHR ''x'' # c # cs) = c # cs" using hd by (simp add: skip_0x_def)
  from stoul16_steps [OF _ this start read assms(2)]
  show "stoul16 (''0x'' @ zero_pad w (to_base d 16 n)) = Inr (of_nat n)"
    by (simp add: c(1) read_sign_def is_space_def)
qed

section \<open>Lines are read back\<close>

definition line_text :: "string list \<Rightarrow> string" where
  "line_text ls = concat (map (\<lambda>l. l @ [newline]) ls)"

lemma split_at_line: "d \<notin> set l \<Longrightarrow> split_at d acc (l @ d # rest) = (rev acc @ l) # split_at d [] rest"
  by (induction l arbitrary: acc) auto

lemma getlines_line_text: "\<forall>l \<in> set ls. newline \<notin> set l \<Longrightarrow> getlines newline (line_text ls) = ls"
proof (induction ls)
  case (Cons l ls)
  then show ?case using split_at_line [of newline l "[]" "line_text ls"]
    by (simp add: getlines_def line_text_def)
qed (simp add: getlines_def line_text_def)

end
