(* ===== verification/Uart_Main.thy ===== *)
theory Uart_Main
  imports Uart_Spec Cpp_Text
begin

text \<open>
  The demo program of the packet parser, \<open>task1_uart_parser/src/main.cpp\<close>: it reads a file, feeds it
  byte by byte to a parser whose callback prints each packet, and prints the counters. Its output is
  a function of the batch decoder's items.
\<close>

section \<open>Printing\<close>

lemma u8_next: "i < len \<Longrightarrow> unat (i + 1) = unat i + 1" for i len :: u8
proof -
  assume "i < len"
  then have "unat i + 1 < 256" using unat_u8_less [of len] by (simp add: word_less_nat_alt del: unat_u8_less)
  then show ?thesis by (simp add: unat_word_ariths del: unat_u8_less)
qed

text \<open>The loop over the payload counts in 8 bits; the payload pointer is null for an empty payload.\<close>

function print_payload :: "u8 \<Rightarrow> u8 \<Rightarrow> u8 list option \<Rightarrow> string result" where
  "print_payload i len payload =
     (if i < len then
        rbind (case payload of None \<Rightarrow> Inl (UB ''null pointer'') | Some buf \<Rightarrow> array_get buf (uint i)) (\<lambda>b.
        rbind (print_payload (i + 1) len payload) (\<lambda>s.
          Inr (zero_pad 2 (hex_upper (unat b)) @ '' '' @ s)))
      else Inr '''')"
  by pat_completeness auto

termination
  by (relation "measure (\<lambda>(i, len, payload). unat len - unat i)") (auto simp: u8_next word_less_nat_alt)

declare print_payload.simps [simp del]

definition printPacket :: "packet \<Rightarrow> string result" where
  "printPacket pkt =
     rbind (print_payload 0 (pkt_length pkt) (pkt_payload pkt)) (\<lambda>s.
       Inr (''PACKET  type=0x'' @ zero_pad 2 (hex_upper (unat (pkt_type pkt))) @ ''  len='' @
         pad_left 3 (dec_nat (unat (pkt_length pkt))) @ ''  payload='' @ s @ [newline]))"

fun print_packets :: "packet list \<Rightarrow> string result" where
  "print_packets [] = Inr ''''"
| "print_packets (pkt # pkts) = rbind (printPacket pkt) (\<lambda>s. rbind (print_packets pkts) (\<lambda>t. Inr (s @ t)))"

definition print_stats :: "parser_stats \<Rightarrow> string" where
  "print_stats st =
     [newline] @ ''--- Parser statistics ---'' @ [newline] @
     ''valid_packets    : '' @ dec_nat (unat (valid_packets st)) @ [newline] @
     ''crc_failures     : '' @ dec_nat (unat (crc_failures st)) @ [newline] @
     ''sync_losses      : '' @ dec_nat (unat (sync_losses st)) @ [newline] @
     ''discarded_bytes  : '' @ dec_nat (unat (discarded_bytes st)) @ [newline] @
     ''partial_packets  : '' @ dec_nat (unat (partial_packets st)) @ [newline]"

section \<open>The program\<close>

text \<open>\<open>argv[0]\<close> is \<open>prog\<close>; the contents of the file are an argument.\<close>

definition uart_path :: "string list \<Rightarrow> string" where
  "uart_path args = (case args of [] \<Rightarrow> ''task1_uart_parser/data/uart_stream.bin'' | path # _ \<Rightarrow> path)"

definition readFile :: "string \<Rightarrow> u8 list option \<Rightarrow> u8 list result" where
  "readFile path contents =
     (case contents of
        None \<Rightarrow> Inl (Runtime_Error (''Could not open file: '' @ path))
      | Some bytes \<Rightarrow> Inr bytes)"

text \<open>One byte at a time; the callback prints when \<open>feed\<close> calls it.\<close>

fun drive :: "u8 list \<Rightarrow> uart_parser \<Rightarrow> (uart_parser \<times> string) result" where
  "drive [] p = Inr (p, '''')"
| "drive (b # bs) p =
     rbind (feed b p) (\<lambda>(p, pkts).
     rbind (print_packets pkts) (\<lambda>s.
     rbind (drive bs p) (\<lambda>(p, t). Inr (p, s @ t))))"

text \<open>Status, standard output and error output.\<close>

definition uart_main :: "string \<Rightarrow> string list \<Rightarrow> (string \<Rightarrow> u8 list option) \<Rightarrow> (int \<times> string \<times> string) result" where
  "uart_main prog args files =
     (case readFile (uart_path args) (files (uart_path args)) of
        Inl (Runtime_Error what) \<Rightarrow>
          Inr (1, '''', ''Error: '' @ what @ [newline] @ ''Usage: '' @ prog @ '' [path/to/uart_stream.bin]'' @ [newline])
      | Inl e \<Rightarrow> Inl e
      | Inr bytes \<Rightarrow>
          rbind (drive bytes (new_parser True)) (\<lambda>(p, out).
            Inr (0, out @ print_stats (up_stats (finish p)), '''')))"

section \<open>The packets the parser hands out can be printed\<close>

definition packet_ok :: "packet \<Rightarrow> bool" where
  "packet_ok pkt \<longleftrightarrow>
     (case pkt_payload pkt of None \<Rightarrow> pkt_length pkt = 0 | Some buf \<Rightarrow> length buf = kMaxPayloadLen)"

definition packet_line :: "u8 \<times> u8 \<times> u8 list \<Rightarrow> string" where
  "packet_line = (\<lambda>(len, ty, payload).
     ''PACKET  type=0x'' @ zero_pad 2 (hex_upper (unat ty)) @ ''  len='' @ pad_left 3 (dec_nat (unat len)) @
     ''  payload='' @ concat (map (\<lambda>b. zero_pad 2 (hex_upper (unat b)) @ '' '') payload) @ [newline])"

lemma print_payload_eq:
  assumes "unat len \<le> length buf"
  shows "print_payload i len (Some buf) =
     Inr (concat (map (\<lambda>b. zero_pad 2 (hex_upper (unat b)) @ '' '') (drop (unat i) (take (unat len) buf))))"
  using assms
proof (induction i len "Some buf" rule: print_payload.induct)
  case (1 i len)
  note assms = "1.prems"
  show ?case
  proof (cases "i < len")
    case True
    then have i: "unat i < unat len" by (simp add: word_less_nat_alt)
    then have lt: "unat i < length buf" using assms by linarith
    then have get: "array_get buf (uint i) = Inr (buf ! unat i)" using array_get_nat [of "unat i" buf] by simp
    have "drop (unat i) (take (unat len) buf) = buf ! unat i # drop (unat (i + 1)) (take (unat len) buf)"
    proof -
      have "unat i < length (take (unat len) buf)" using i lt by (simp only: length_take min_less_iff_conj)
      from Cons_nth_drop_Suc [OF this] show ?thesis by (simp only: nth_take [OF i] u8_next [OF True] Suc_eq_plus1)
    qed
    with 1(1) [OF True _ assms] get show ?thesis by (subst print_payload.simps) (simp add: True)
  next
    case False
    then show ?thesis by (subst print_payload.simps) (simp add: word_less_nat_alt not_less)
  qed
qed

lemma printPacket_eq: "packet_ok pkt \<Longrightarrow> printPacket pkt = Inr (packet_line (packet_view pkt))"
proof (cases "pkt_payload pkt")
  case None
  assume "packet_ok pkt"
  with None show ?thesis
    by (simp add: printPacket_def packet_ok_def packet_line_def packet_view_def print_payload.simps [of 0 0])
next
  case (Some buf)
  assume "packet_ok pkt"
  with Some have "unat (pkt_length pkt) \<le> length buf"
    using unat_less_eq_kMax [of "pkt_length pkt"] by (simp add: packet_ok_def)
  from print_payload_eq [OF this, of 0] Some show ?thesis
    by (simp add: printPacket_def packet_line_def packet_view_def)
qed

lemma print_packets_eq: "\<forall>pkt \<in> set pkts. packet_ok pkt \<Longrightarrow>
    print_packets pkts = Inr (concat (map packet_line (map packet_view pkts)))"
  by (induction pkts) (simp_all add: printPacket_eq)

lemma feed_packets_ok: "up_inv p \<Longrightarrow> feed b p = Inr (q, out) \<Longrightarrow> \<forall>pkt \<in> set out. packet_ok pkt"
proof (cases "up_state p = Payload")
  case True
  assume "up_inv p" "feed b p = Inr (q, out)"
  with True show ?thesis by (auto simp: feed_payload split: if_splits)
next
  case False
  assume "up_inv p" "feed b p = Inr (q, out)"
  with False show ?thesis
    by (auto simp: uart_simps up_inv_def packet_ok_def word_gt_0 split: pstate.splits if_splits)
qed

lemma drive_eq:
  "up_inv p \<Longrightarrow> feed_bytes bs p = Inr (q, out) \<Longrightarrow>
     drive bs p = Inr (q, concat (map packet_line (map packet_view out)))"
proof (induction bs arbitrary: p out)
  case (Cons b bs)
  then obtain r o1 o2 where r: "feed b p = Inr (r, o1)" "feed_bytes bs r = Inr (q, o2)" "out = o1 @ o2"
    by (auto simp: rbind_Inr_iff split: prod.splits)
  have "up_inv r" using feed_inv [OF Cons.prems(1), of b] r(1) by simp
  from Cons.IH [OF this r(2)] r print_packets_eq [OF feed_packets_ok [OF Cons.prems(1) r(1)]]
  show ?case by simp
qed simp

section \<open>The property\<close>

text \<open>
  C34: on every readable file the program ends with status 0 and prints one line per frame with a right
  CRC, in order, with type, length and all payload bytes, and then the counters of the batch decoder's
  items; on an unreadable file it ends with status 1 and prints nothing but the error.
\<close>

theorem uart_program_output:
  "uart_main prog args files =
     (case files (uart_path args) of
        None \<Rightarrow> Inr (1, '''', ''Error: Could not open file: '' @ uart_path args @ [newline] @
          ''Usage: '' @ prog @ '' [path/to/uart_stream.bin]'' @ [newline])
      | Some bytes \<Rightarrow>
          Inr (0, concat (map packet_line (concat (map item_packets (scan bytes)))) @
            print_stats ((fold count_item (scan bytes) zero_stats)
              \<lparr>partial_packets := (if \<exists>xs. Partial xs \<in> set (scan bytes) then 1 else 0)\<rparr>), ''''))"
proof (cases "files (uart_path args)")
  case None
  then show ?thesis by (simp add: uart_main_def readFile_def)
next
  case (Some bytes)
  obtain q out where run: "feed_bytes bytes (new_parser True) = Inr (q, out)"
    and view: "map packet_view out = concat (map item_packets (scan bytes))"
    and st: "up_stats q = fold count_item (scan bytes) zero_stats" "up_state q = resume_state (scan bytes)"
    by (rule fresh_run [of bytes])
  from drive_eq [OF new_parser_inv run] Some finish_fresh [OF st] show ?thesis
    by (simp add: uart_main_def readFile_def view)
qed

end
