(* ===== verification/Uart_Sample.thy ===== *)
theory Uart_Sample
  imports Uart_Main
begin

text \<open>
  The sample stream of the repository, \<open>task1_uart_parser/data/uart_stream.bin\<close>, and the run of the
  program on it: the eight packets and the counters that the README of the task shows, computed by
  the definitions.
\<close>

definition uart_stream :: "u8 list" where
  "uart_stream =
    [0xAA, 0x55, 0x03, 0x01, 0x10, 0x20, 0x30, 0xA2, 0x81, 0xAA, 0x55, 0x00, 0x02, 0xB2, 0xC1, 0xAA,
     0x55, 0x02, 0x01, 0xDE, 0xAD, 0xC3, 0xA9, 0x00, 0xFF, 0x12, 0x34, 0xAA, 0x77, 0x88, 0xAA, 0x00,
     0xAA, 0x55, 0x03, 0x03, 0xAA, 0x55, 0x00, 0xF4, 0x6B, 0xAA, 0x55, 0x01, 0x04, 0x99, 0x5B, 0xC3,
     0xAA, 0x55, 0x03, 0x05, 0x05, 0x01, 0x02, 0x03, 0xB4, 0x59, 0xAA, 0x55, 0x04, 0x06, 0x01, 0x02,
     0x04, 0x8A, 0xD1, 0x39, 0x0C, 0x8C, 0x7D, 0x72, 0x47, 0xAA, 0x55, 0x02, 0x07, 0xCA, 0xFE, 0x42,
     0xBE, 0xAA, 0x55, 0x14, 0x08, 0x00, 0x01, 0x02, 0x03, 0x04, 0x05, 0x06, 0x07, 0x08, 0x09, 0x0A,
     0x0B, 0x0C, 0x0D, 0x0E, 0x0F, 0x10, 0x11, 0x12, 0x13, 0x63, 0x54, 0xAA, 0x55, 0x00, 0x01, 0xD1,
     0xF1, 0xAA, 0x55, 0x0A, 0x09, 0x01, 0x01, 0x01, 0x01, 0x01, 0x01, 0x01, 0x01, 0x01, 0x01, 0x86,
     0xA7, 0xAA, 0x55, 0x01, 0x0A, 0x42, 0x42, 0x9A, 0xAA, 0x55, 0x03, 0x0B, 0x01, 0x02]"

definition uart_stream_packets :: string where
  "uart_stream_packets =
     ''PACKET  type=0x01  len=  3  payload=10 20 30 '' @ [newline] @
     ''PACKET  type=0x02  len=  0  payload='' @ [newline] @
     ''PACKET  type=0x01  len=  2  payload=DE AD '' @ [newline] @
     ''PACKET  type=0x04  len=  1  payload=99 '' @ [newline] @
     ''PACKET  type=0x07  len=  2  payload=CA FE '' @ [newline] @
     ''PACKET  type=0x08  len= 20  payload=00 01 02 03 04 05 06 07 08 09 0A 0B 0C 0D 0E 0F 10 11 12 13 '' @ [newline] @
     ''PACKET  type=0x01  len=  0  payload='' @ [newline] @
     ''PACKET  type=0x0A  len=  1  payload=42 '' @ [newline]"

text \<open>The last packet of the stream is cut off; the bytes between the packets make 13 discarded bytes.\<close>

lemma uart_stream_driven:
  "(case drive uart_stream (new_parser True) of
      Inl e \<Rightarrow> False
    | Inr (p, out) \<Rightarrow> out = uart_stream_packets \<and>
        up_stats (finish p) = \<lparr>valid_packets = 8, crc_failures = 4, sync_losses = 4, discarded_bytes = 13,
          partial_packets = 1\<rparr>)"
  by code_simp

lemma uart_stream_output:
  "uart_main prog [] (\<lambda>_. Some uart_stream) =
     Inr (0, uart_stream_packets @ print_stats \<lparr>valid_packets = 8, crc_failures = 4, sync_losses = 4,
       discarded_bytes = 13, partial_packets = 1\<rparr>, '''')"
  using uart_stream_driven by (auto simp: uart_main_def readFile_def rbind_def split: sum.splits)

end
