(* ===== verification/Unit_Check.thy ===== *)
theory Unit_Check
  imports Cpp_Text
begin

text \<open>
  The frame of the two unit test programs (\<open>tests/test_uart_parser.cpp\<close> and
  \<open>tests/test_can_decoder.cpp\<close>, which share its text): the macro \<open>CHECK\<close> with the two global counters,
  and \<open>main\<close>, which runs the tests in order and prints the totals.
\<close>

text \<open>
  A check is the line of the macro, the text of its condition and the value; a test gives the checks it
  executes, in order.
\<close>

type_synonym check = "nat \<times> string \<times> bool"

record totals =
  g_failures :: int
  g_checks :: int
  g_out :: string

definition run_check :: "string \<Rightarrow> check \<Rightarrow> totals \<Rightarrow> totals result" where
  "run_check file = (\<lambda>(line, text, cond) t.
     rbind (int_add (g_checks t) 1) (\<lambda>n.
       let t = t\<lparr>g_checks := n\<rparr> in
       if cond then Inr t
       else rbind (int_add (g_failures t) 1) (\<lambda>m.
         Inr (t\<lparr>g_failures := m,
                g_out := g_out t @ ''FAIL '' @ file @ '':'' @ dec_nat line @ ''  '' @ text @ [newline]\<rparr>))))"

fun run_checks :: "string \<Rightarrow> check list \<Rightarrow> totals \<Rightarrow> totals result" where
  "run_checks file [] t = Inr t"
| "run_checks file (c # cs) t = rbind (run_check file c t) (run_checks file cs)"

fun run_tests :: "string \<Rightarrow> check list result list \<Rightarrow> totals \<Rightarrow> totals result" where
  "run_tests file [] t = Inr t"
| "run_tests file (test # tests) t =
     rbind test (\<lambda>cs. rbind (run_checks file cs t) (run_tests file tests))"

text \<open>Exit status and standard output; \<open>file\<close> is what the compiler makes of \<open>__FILE__\<close>.\<close>

definition test_main :: "string \<Rightarrow> check list result list \<Rightarrow> (int \<times> string) result" where
  "test_main file tests =
     rbind (run_tests file tests \<lparr>g_failures = 0, g_checks = 0, g_out = ''''\<rparr>) (\<lambda>t.
     rbind (int_add (g_checks t) (- g_failures t)) (\<lambda>passed.
       Inr (if g_failures t = 0 then 0 else 1,
            g_out t @ [newline] @ dec_int passed @ ''/'' @ dec_int (g_checks t) @ '' checks passed'' @ [newline])))"

text \<open>A test that runs \<open>n\<close> checks, all of which hold.\<close>

definition passes :: "nat \<Rightarrow> check list result \<Rightarrow> bool" where
  "passes n test \<longleftrightarrow>
     (case test of Inl e \<Rightarrow> False | Inr cs \<Rightarrow> length cs = n \<and> list_all (\<lambda>(line, text, cond). cond) cs)"

lemma passesE:
  assumes "passes n test"
  obtains cs where "test = Inr cs" "length cs = n" "list_all (\<lambda>(line, text, cond). cond) cs"
  using assms by (cases test) (simp_all add: passes_def)

lemma run_checks_pass:
  assumes "list_all (\<lambda>(line, text, cond). cond) cs" and "0 \<le> g_checks t" "g_checks t + int (length cs) \<le> int_max"
  shows "run_checks file cs t = Inr (t\<lparr>g_checks := g_checks t + int (length cs)\<rparr>)"
  using assms
proof (induction cs arbitrary: t)
  case (Cons c cs)
  obtain line what cond where c: "c = (line, what, cond)" by (cases c) auto
  with Cons.prems have "run_check file c t = Inr (t\<lparr>g_checks := g_checks t + 1\<rparr>)"
    by (simp add: run_check_def int_add_def)
  then show ?case using Cons.IH [of "t\<lparr>g_checks := g_checks t + 1\<rparr>"] Cons.prems by (simp add: add.assoc)
qed simp

lemma run_tests_pass:
  assumes "list_all2 passes ns tests" and "0 \<le> g_checks t" "g_checks t + int (sum_list ns) \<le> int_max"
  shows "run_tests file tests t = Inr (t\<lparr>g_checks := g_checks t + int (sum_list ns)\<rparr>)"
  using assms
proof (induction arbitrary: t rule: list_all2_induct)
  case (Cons n ns test tests)
  from Cons.hyps(1) obtain cs where cs: "test = Inr cs" "length cs = n" "list_all (\<lambda>(line, text, cond). cond) cs"
    by (rule passesE)
  then have "run_checks file cs t = Inr (t\<lparr>g_checks := g_checks t + int n\<rparr>)"
    using run_checks_pass [of cs t "file"] Cons.prems by simp
  then show ?case using cs(1) Cons.IH [of "t\<lparr>g_checks := g_checks t + int n\<rparr>"] Cons.prems
    by (simp add: add.assoc)
qed simp

text \<open>When every check of every test holds, the program prints the count and ends with status 0.\<close>

lemma test_main_pass:
  assumes "list_all2 passes ns tests" and "int (sum_list ns) \<le> int_max"
  shows "test_main file tests =
     Inr (0, [newline] @ dec_nat (sum_list ns) @ ''/'' @ dec_nat (sum_list ns) @ '' checks passed'' @ [newline])"
  using run_tests_pass [OF assms(1), of "\<lparr>g_failures = 0, g_checks = 0, g_out = ''''\<rparr>" "file"] assms(2)
  by (simp add: test_main_def int_add_def dec_int_def)

text \<open>A check that does not hold is counted and reported with its line.\<close>

lemma run_check_failed:
  assumes "0 \<le> g_checks t" "g_checks t < int_max" "0 \<le> g_failures t" "g_failures t < int_max"
  shows "run_check file (line, text, False) t = Inr (t\<lparr>g_checks := g_checks t + 1, g_failures := g_failures t + 1,
    g_out := g_out t @ ''FAIL '' @ file @ '':'' @ dec_nat line @ ''  '' @ text @ [newline]\<rparr>)"
  using assms by (simp add: run_check_def int_add_def)

end
