(* ===== verification/Uart_Tests.thy ===== *)
theory Uart_Tests
  imports Uart_Spec Unit_Check
begin

text \<open>
  The unit tests of the packet parser, \<open>tests/test_uart_parser.cpp\<close>: each test as the checks it executes
  on the model of the parser, and the outcome of the program, in which all 30 checks hold.
  \<open>makePacket\<close> is \<open>make_packet\<close>.
\<close>

section \<open>The tests\<close>

text \<open>A read through the payload pointer of a packet, and a callback that runs checks.\<close>

definition payload_at :: "packet \<Rightarrow> int \<Rightarrow> u8 result" where
  "payload_at p i = (case pkt_payload p of None \<Rightarrow> Inl (UB ''null pointer'') | Some buf \<Rightarrow> array_get buf i)"

fun on_packets :: "(packet \<Rightarrow> check list result) \<Rightarrow> packet list \<Rightarrow> check list result" where
  "on_packets callback [] = Inr []"
| "on_packets callback (p # ps) =
     rbind (callback p) (\<lambda>cs. rbind (on_packets callback ps) (\<lambda>cs'. Inr (cs @ cs')))"

definition test_single_valid_packet :: "check list result" where
  "test_single_valid_packet =
     (let bytes = make_packet 0x07 [0xDE, 0xAD, 0xBE, 0xEF] in
      rbind (feed_bytes bytes (new_parser True)) (\<lambda>(parser, pkts).
      rbind (on_packets (\<lambda>p.
          rbind (payload_at p 0) (\<lambda>b0.
          rbind (payload_at p 3) (\<lambda>b3.
            Inr [(52, ''p.type == 0x07'', pkt_type p = 0x07),
                 (53, ''p.length == 4'', pkt_length p = 4),
                 (54, ''p.payload[0] == 0xDE'', b0 = 0xDE),
                 (55, ''p.payload[3] == 0xEF'', b3 = 0xEF)]))) pkts) (\<lambda>cs.
        Inr (cs @
          [(58, ''received == 1'', length pkts = 1),
           (59, ''parser.stats().valid_packets == 1'', valid_packets (up_stats parser) = 1),
           (60, ''parser.stats().crc_failures == 0'', crc_failures (up_stats parser) = 0)]))))"

definition test_zero_length_payload :: "check list result" where
  "test_zero_length_payload =
     (let bytes = make_packet 0x02 [] in
      rbind (feed_bytes bytes (new_parser True)) (\<lambda>(parser, pkts).
      rbind (on_packets (\<lambda>p.
          Inr [(68, ''p.length == 0'', pkt_length p = 0),
               (69, ''p.payload == nullptr'', pkt_payload p = None)]) pkts) (\<lambda>cs.
        Inr (cs @ [(72, ''received == 1'', length pkts = 1)]))))"

definition test_corrupted_crc_then_recovers :: "check list result" where
  "test_corrupted_crc_then_recovers =
     (let good1 = make_packet 0x01 [0x10, 0x20];
          bad = make_packet 0x02 [0xAA];
          bad = bad[length bad - 1 := bad ! (length bad - 1) XOR 0xFF];
          good2 = make_packet 0x03 [0x55];
          stream = good1 @ bad @ good2 in
      rbind (feed_bytes stream (new_parser True)) (\<lambda>(parser, pkts).
        let seenTypes = map pkt_type pkts in
        Inr ([(90, ''parser.stats().valid_packets == 2'', valid_packets (up_stats parser) = 2),
              (91, ''parser.stats().crc_failures == 1'', crc_failures (up_stats parser) = 1),
              (92, ''seenTypes.size() == 2'', length seenTypes = 2)] @
             (if length seenTypes = 2 then
                [(94, ''seenTypes[0] == 0x01'', seenTypes ! 0 = 0x01),
                 (95, ''seenTypes[1] == 0x03'', seenTypes ! 1 = 0x03)]
              else []))))"

definition test_garbage_bytes_between_packets :: "check list result" where
  "test_garbage_bytes_between_packets =
     (let good1 = make_packet 0x01 [0x01];
          good2 = make_packet 0x02 [0x02, 0x03];
          garbage = [0x00, 0xFF, 0x12, 0x34, 0x77, 0x88];
          stream = good1 @ garbage @ good2 in
      rbind (feed_bytes stream (new_parser True)) (\<lambda>(parser, pkts).
        Inr [(113, ''received == 2'', length pkts = 2),
             (114, ''parser.stats().valid_packets == 2'', valid_packets (up_stats parser) = 2),
             (115, ''parser.stats().discarded_bytes == garbage.size()'',
              discarded_bytes (up_stats parser) = of_nat (length garbage))]))"

definition test_embedded_fake_sof :: "check list result" where
  "test_embedded_fake_sof =
     (let good1 = make_packet 0x01 [0x01];
          fakeSof = [0xAA, 0x55, 0x03, 0x03, 0xAA, 0x55, 0x00];
          filler = [0x11, 0x22, 0x33, 0x44];
          good2 = make_packet 0x09 [0x42];
          stream = good1 @ fakeSof @ filler @ good2 in
      rbind (feed_bytes stream (new_parser True)) (\<lambda>(parser, pkts).
        let seenTypes = map pkt_type pkts in
        Inr ([(147, ''parser.stats().valid_packets == 2'', valid_packets (up_stats parser) = 2),
              (148, ''seenTypes.size() == 2'', length seenTypes = 2)] @
             (if length seenTypes = 2 then
                [(150, ''seenTypes[0] == 0x01'', seenTypes ! 0 = 0x01),
                 (151, ''seenTypes[1] == 0x09'', seenTypes ! 1 = 0x09)]
              else []))))"

definition test_partial_packet_at_end_of_stream :: "check list result" where
  "test_partial_packet_at_end_of_stream =
     (let good = make_packet 0x0B [0x01, 0x02, 0x03];
          truncated = take (length good - 2) good in
      rbind (feed_bytes truncated (new_parser True)) (\<lambda>(parser, pkts).
      rbind (on_packets (\<lambda>p. Inr [(163, ''false'', False)]) pkts) (\<lambda>cs.
        let parser = finish parser in
        Inr (cs @
          [(168, ''parser.stats().partial_packets == 1'', partial_packets (up_stats parser) = 1),
           (169, ''parser.stats().valid_packets == 0'', valid_packets (up_stats parser) = 0)]))))"

definition test_reset_clears_in_flight_state :: "check list result" where
  "test_reset_clears_in_flight_state =
     (let good = make_packet 0x01 [0x01];
          truncated = take (length good - 2) good in
      rbind (feed_bytes truncated (new_parser True)) (\<lambda>(parser, pkts).
        let parser = reset parser;
            good2 = make_packet 0x02 [0xAA, 0xBB] in
      rbind (feed_bytes good2 parser) (\<lambda>(parser, pkts).
        Inr [(190, ''parser.stats().valid_packets == 1'', valid_packets (up_stats parser) = 1)])))"

definition test_chunked_feed_matches_byte_by_byte :: "check list result" where
  "test_chunked_feed_matches_byte_by_byte =
     (let good1 = make_packet 0x01 [0x10, 0x20, 0x30];
          good2 = make_packet 0x02 [];
          stream = good1 @ good2 in
      rbind (feed_bytes stream (new_parser True)) (\<lambda>(parser, pkts).
        Inr [(203, ''received == 2'', length pkts = 2),
             (204, ''parser.stats().valid_packets == 2'', valid_packets (up_stats parser) = 2)]))"

definition test_no_dynamic_growth_bounded_payload :: "check list result" where
  "test_no_dynamic_growth_bounded_payload =
     (let payload = map of_nat [0..<255];
          bytes = make_packet 0x08 payload in
      rbind (feed_bytes bytes (new_parser True)) (\<lambda>(parser, pkts).
      rbind (on_packets (\<lambda>p.
          rbind (payload_at p 254) (\<lambda>b.
            Inr [(216, ''p.length == 255'', pkt_length p = 255), (217, ''p.payload[254] == 254'', b = 254)])) pkts) (\<lambda>cs.
        Inr (cs @ [(220, ''received == 1'', length pkts = 1)]))))"

section \<open>The program\<close>

definition uart_tests :: "check list result list" where
  "uart_tests =
     [test_single_valid_packet, test_zero_length_payload, test_corrupted_crc_then_recovers,
      test_garbage_bytes_between_packets, test_embedded_fake_sof, test_partial_packet_at_end_of_stream,
      test_reset_clears_in_flight_state, test_chunked_feed_matches_byte_by_byte,
      test_no_dynamic_growth_bounded_payload]"

lemma short_packet_tests:
  "passes 7 test_single_valid_packet" "passes 3 test_zero_length_payload"
  "passes 2 test_chunked_feed_matches_byte_by_byte"
  by code_simp+

lemma reset_test: "passes 1 test_reset_clears_in_flight_state"
proof -
  have eq: "test_reset_clears_in_flight_state = Inr [(190, ''parser.stats().valid_packets == 1'', True)]" by code_simp
  show ?thesis unfolding passes_def eq by simp
qed

lemma recovery_tests:
  "passes 5 test_corrupted_crc_then_recovers" "passes 3 test_garbage_bytes_between_packets"
  "passes 4 test_embedded_fake_sof" "passes 2 test_partial_packet_at_end_of_stream"
  by code_simp+

text \<open>The packet of the largest size is evaluated through the batch decoder.\<close>

lemma largest_packet_test: "passes 3 test_no_dynamic_growth_bounded_payload"
proof -
  define payload :: "u8 list" where "payload = map of_nat [0..<255]"
  have len: "length payload = 255" by (simp add: payload_def)
  obtain q out where run: "feed_bytes (make_packet 8 payload) (new_parser True) = Inr (q, out)"
    and view: "map packet_view out = concat (map item_packets (scan (make_packet 8 payload)))"
    by (rule fresh_run)
  have "scan (make_packet 8 payload @ []) = Frame 255 8 payload
      (ucast (frame_crc 8 payload AND 0xFF)) (ucast (drop_bit 8 (frame_crc 8 payload) AND 0xFF)) # scan []"
    by (subst scan_make_packet) (simp_all add: len kMaxPayloadLen_def)
  with view have "map packet_view out = [(255, 8, payload)]" by (simp add: wire_crc_bytes)
  then obtain pkt where out: "out = [pkt]" and pkt: "packet_view pkt = (255, 8, payload)" by auto
  then have fields: "pkt_length pkt = 255" "pkt_payload pkt \<noteq> None" "take 255 (the (pkt_payload pkt)) = payload"
    using len by (auto simp: packet_view_def split: option.splits)
  then obtain buf where buf: "pkt_payload pkt = Some buf" "take 255 buf = payload" by auto
  then have "254 < length buf" "buf ! 254 = payload ! 254" using len by auto
  then have "payload_at pkt 254 = Inr 254"
    using buf(1) by (simp add: payload_at_def array_get_def payload_def)
  then show ?thesis
    using run out fields(1) by (simp add: test_no_dynamic_growth_bounded_payload_def payload_def [symmetric] passes_def)
qed

lemma uart_tests_pass:
  "test_main file uart_tests = Inr (0, [newline] @ ''30/30 checks passed'' @ [newline])"
proof -
  have "list_all2 passes [7, 3, 5, 3, 4, 2, 1, 2, 3] uart_tests"
    by (simp add: uart_tests_def short_packet_tests reset_test recovery_tests largest_packet_test del: One_nat_def)
  from test_main_pass [OF this] show ?thesis by (simp add: dec_nat_def to_base.simps digit_char_def)
qed

end
