(* ===== verification/Std_Map.thy ===== *)
theory Std_Map
  imports Cpp_Prelude "HOL-Library.List_Lexorder" "HOL-Library.Char_ord"
begin

text \<open>
  \<open>std::map\<close>, whose iteration order matters in this code base (the loader walks JSON objects, the
  timeout check walks the message table): a list of key/value pairs with strictly increasing keys.
  The components rely on the laws of the interface \<open>ordered_map\<close> below, not on the representation.
  Strings are ordered as \<open>std::string\<close> orders them, lexicographically by unsigned characters.
\<close>

section \<open>The operations\<close>

type_synonym ('k, 'v) std_map = "('k \<times> 'v) list"

definition std_find :: "('k, 'v) std_map \<Rightarrow> 'k \<Rightarrow> 'v option" where
  "std_find m k = map_of m k"

text \<open>\<open>emplace\<close> leaves an existing entry alone.\<close>

fun std_emplace :: "'k::linorder \<Rightarrow> 'v \<Rightarrow> ('k, 'v) std_map \<Rightarrow> ('k, 'v) std_map" where
  "std_emplace k v [] = [(k, v)]"
| "std_emplace k v ((k', v') # m) =
     (if k < k' then (k, v) # (k', v') # m
      else if k = k' then (k', v') # m
      else (k', v') # std_emplace k v m)"

text \<open>\<open>m[k] = v\<close> overwrites an existing entry.\<close>

fun std_assign :: "'k::linorder \<Rightarrow> 'v \<Rightarrow> ('k, 'v) std_map \<Rightarrow> ('k, 'v) std_map" where
  "std_assign k v [] = [(k, v)]"
| "std_assign k v ((k', v') # m) =
     (if k < k' then (k, v) # (k', v') # m
      else if k = k' then (k, v) # m
      else (k', v') # std_assign k v m)"

definition std_ordered :: "('k::linorder, 'v) std_map \<Rightarrow> bool" where
  "std_ordered m \<longleftrightarrow> sorted_wrt (<) (map fst m)"

section \<open>The interface\<close>

locale ordered_map =
  fixes empty :: "'m"
    and find :: "'m \<Rightarrow> 'k \<Rightarrow> 'v option"
    and emplace :: "'k \<Rightarrow> 'v \<Rightarrow> 'm \<Rightarrow> 'm"
    and assign :: "'k \<Rightarrow> 'v \<Rightarrow> 'm \<Rightarrow> 'm"
    and inv :: "'m \<Rightarrow> bool"
  assumes find_empty: "find empty k = None"
    and find_emplace: "inv m \<Longrightarrow>
      find (emplace k v m) k' = (if k = k' \<and> find m k = None then Some v else find m k')"
    and find_assign: "inv m \<Longrightarrow> find (assign k v m) k' = (if k = k' then Some v else find m k')"
    and inv_empty: "inv empty"
    and inv_emplace: "inv m \<Longrightarrow> inv (emplace k v m)"
    and inv_assign: "inv m \<Longrightarrow> inv (assign k v m)"
begin

lemma inv_emplace_all: "inv m \<Longrightarrow> inv (fold (\<lambda>(k, v). emplace k v) kvs m)"
  by (induction kvs arbitrary: m) (auto simp: inv_emplace)

lemma inv_assign_all: "inv m \<Longrightarrow> inv (fold (\<lambda>(k, v). assign k v) kvs m)"
  by (induction kvs arbitrary: m) (auto simp: inv_assign)

text \<open>A sequence of \<open>emplace\<close> keeps the first value of every key, one of \<open>assign\<close> the last.\<close>

lemma find_emplace_all:
  "inv m \<Longrightarrow> find (fold (\<lambda>(k, v). emplace k v) kvs m) k =
     (case find m k of Some v \<Rightarrow> Some v | None \<Rightarrow> map_of kvs k)"
  by (induction kvs arbitrary: m) (auto simp: inv_emplace find_emplace split: option.split)

lemma find_assign_all:
  "inv m \<Longrightarrow> find (fold (\<lambda>(k, v). assign k v) kvs m) k =
     (case map_of (rev kvs) k of Some v \<Rightarrow> Some v | None \<Rightarrow> find m k)"
  by (induction kvs arbitrary: m) (auto simp: inv_assign find_assign map_add_def split: option.split)

lemma first_wins: "find (fold (\<lambda>(k, v). emplace k v) kvs empty) k = map_of kvs k"
  by (simp add: find_emplace_all inv_empty find_empty)

lemma last_wins: "find (fold (\<lambda>(k, v). assign k v) kvs empty) k = map_of (rev kvs) k"
  by (simp add: find_assign_all inv_empty find_empty split: option.split)

end

section \<open>The representation satisfies the interface\<close>

lemma std_ordered_simps [simp]:
  "std_ordered []"
  "std_ordered ((k, v) # m) \<longleftrightarrow> (\<forall>k' \<in> fst ` set m. k < k') \<and> std_ordered m"
  by (simp_all add: std_ordered_def)

lemma keys_emplace: "fst ` set (std_emplace k v m) = insert k (fst ` set m)"
  by (induction k v m rule: std_emplace.induct) auto

lemma keys_assign: "fst ` set (std_assign k v m) = insert k (fst ` set m)"
  by (induction k v m rule: std_assign.induct) auto

lemma std_ordered_emplace: "std_ordered m \<Longrightarrow> std_ordered (std_emplace k v m)"
  by (induction k v m rule: std_emplace.induct) (auto simp: keys_emplace)

lemma std_ordered_assign: "std_ordered m \<Longrightarrow> std_ordered (std_assign k v m)"
  by (induction k v m rule: std_assign.induct) (auto simp: keys_assign)

lemma map_of_less_None: "\<forall>k' \<in> fst ` set m. k < (k' :: 'k::linorder) \<Longrightarrow> map_of m k = None"
  by (induction m) auto

lemma std_find_Nil: "std_find [] k = None"
  by (simp add: std_find_def)

lemma std_find_emplace:
  "std_ordered m \<Longrightarrow>
     std_find (std_emplace k v m) k' =
       (if k = k' \<and> std_find m k = None then Some v else std_find m k')"
  unfolding std_find_def
  by (induction k v m rule: std_emplace.induct)
     (auto simp: map_of_less_None dest!: map_of_SomeD split: if_splits)

lemma std_find_assign:
  "std_ordered m \<Longrightarrow> std_find (std_assign k v m) k' = (if k = k' then Some v else std_find m k')"
  unfolding std_find_def by (induction k v m rule: std_assign.induct) auto

interpretation std: ordered_map "[]" std_find std_emplace std_assign std_ordered
  by unfold_locales
     (simp_all add: std_find_Nil std_find_emplace std_find_assign std_ordered_emplace
        std_ordered_assign)

text \<open>What the ordering adds: iteration visits every entry once.\<close>

lemma std_find_iff: "std_ordered m \<Longrightarrow> std_find m k = Some v \<longleftrightarrow> (k, v) \<in> set m"
proof -
  assume "std_ordered m"
  then have "distinct (map fst m)" by (simp add: std_ordered_def strict_sorted_iff)
  then show ?thesis by (simp add: std_find_def)
qed

end
