(* ===== verification/Can_Types.thy ===== *)
theory Can_Types
  imports Std_Map Cpp_Double
begin

text \<open>
  The data of the CAN decoder: the signal and message descriptions and the lookup functions of
  \<open>task3_can_decoder/include/dbc_database.hpp\<close>, the frame payload of \<open>signal_codec.hpp\<close> and the
  captured frame of \<open>frame_log_reader.hpp\<close>.
\<close>

datatype byte_order = Intel | Motorola

record signal_def =
  sd_name :: string
  sd_start_bit :: int
  sd_length :: int
  sd_scale :: double
  sd_offset :: double
  sd_is_signed :: bool
  sd_unit :: string
  sd_enum_values :: "(int, string) std_map"

definition default_signal :: signal_def where
  "default_signal = \<lparr>sd_name = '''', sd_start_bit = 0, sd_length = 0, sd_scale = of_integer 1,
     sd_offset = of_integer 0, sd_is_signed = False, sd_unit = '''', sd_enum_values = []\<rparr>"

record message_def =
  md_id :: u32
  md_name :: string
  md_period_ms :: int
  md_byte_order :: byte_order
  md_signals :: "signal_def list"

definition default_message :: message_def where
  "default_message = \<lparr>md_id = 0, md_name = '''', md_period_ms = 0, md_byte_order = Intel,
     md_signals = []\<rparr>"

definition findSignal :: "message_def \<Rightarrow> string \<Rightarrow> signal_def option" where
  "findSignal msg name = List.find (\<lambda>s. sd_name s = name) (md_signals msg)"

text \<open>The message table \<open>messages_\<close>, keyed by the 32-bit identifier.\<close>

type_synonym dbc_database = "(u32, message_def) std_map"

definition db_find :: "dbc_database \<Rightarrow> u32 \<Rightarrow> message_def option" where
  "db_find db can_id = std_find db can_id"

text \<open>\<open>std::array<uint8_t, 8>\<close>: a list of length 8.\<close>

type_synonym frame_payload = "u8 list"

definition payload_ok :: "frame_payload \<Rightarrow> bool" where
  "payload_ok data \<longleftrightarrow> length data = 8"

record raw_frame =
  rf_timestamp_ms :: int
  rf_can_id :: u32
  rf_data :: frame_payload
  rf_dlc :: int

definition default_frame :: raw_frame where
  "default_frame = \<lparr>rf_timestamp_ms = 0, rf_can_id = 0, rf_data = replicate 8 0, rf_dlc = 0\<rparr>"

lemma findSignal_Some: "findSignal msg name = Some s \<Longrightarrow> s \<in> set (md_signals msg) \<and> sd_name s = name"
  by (auto simp: findSignal_def find_Some_iff)

lemma findSignal_None: "findSignal msg name = None \<longleftrightarrow> name \<notin> sd_name ` set (md_signals msg)"
  by (auto simp: findSignal_def find_None_iff)

end
