(* ===== verification/Signal_Codec.thy ===== *)
theory Signal_Codec
  imports Can_Types
begin

text \<open>
  Bit extraction and physical decoding of \<open>task3_can_decoder/src/signal_codec.cpp\<close>, with every
  undefined operation of the loops (overflow of the bit position, negative or over-wide shifts) as
  an error value, and its equivalence with a closed-form reference on the 64-bit payload.
\<close>

section \<open>The functions\<close>

text \<open>
  The two loops of \<open>extractRaw\<close> over \<open>i\<close>: the byte index and the bit in the byte come from
  truncating division, positions outside the payload are skipped.
\<close>

fun extract_intel :: "frame_payload \<Rightarrow> int \<Rightarrow> int list \<Rightarrow> u64 \<Rightarrow> u64 result" where
  "extract_intel data start [] value = Inr value"
| "extract_intel data start (i # is) value =
     rbind (int_add start i) (\<lambda>bitpos.
       let byte_idx = trunc_div bitpos 8; bit_in_byte = trunc_mod bitpos 8 in
       if byte_idx < 0 \<or> int (length data) \<le> byte_idx then extract_intel data start is value
       else if bit_in_byte < 0 then Inl (UB ''negative shift'')
       else
         let b = (ucast (drop_bit (nat bit_in_byte) (data ! nat byte_idx)) :: u64) AND 1 in
         if 64 \<le> i then Inl (UB ''shift too wide'')
         else extract_intel data start is (value OR push_bit (nat i) b))"

fun extract_motorola :: "frame_payload \<Rightarrow> int \<Rightarrow> int list \<Rightarrow> u64 \<Rightarrow> u64 result" where
  "extract_motorola data start [] value = Inr value"
| "extract_motorola data start (i # is) value =
     rbind (int_add start i) (\<lambda>bitpos.
       let byte_idx = trunc_div bitpos 8; bit_in_byte_from_msb = trunc_mod bitpos 8 in
       if byte_idx < 0 \<or> int (length data) \<le> byte_idx then extract_motorola data start is value
       else
         let bit_in_byte = 7 - bit_in_byte_from_msb;
             b = (ucast (drop_bit (nat bit_in_byte) (data ! nat byte_idx)) :: u64) AND 1 in
         extract_motorola data start is (push_bit 1 value OR b))"

definition extractRaw :: "frame_payload \<Rightarrow> signal_def \<Rightarrow> byte_order \<Rightarrow> u64 result" where
  "extractRaw data sig order =
     (case order of
        Intel \<Rightarrow> extract_intel data (sd_start_bit sig) [0..sd_length sig - 1] 0
      | Motorola \<Rightarrow> extract_motorola data (sd_start_bit sig) [0..sd_length sig - 1] 0)"

definition extractSigned :: "frame_payload \<Rightarrow> signal_def \<Rightarrow> byte_order \<Rightarrow> int result" where
  "extractSigned data sig order =
     rbind (extractRaw data sig order) (\<lambda>raw.
       if \<not> sd_is_signed sig \<or> sd_length sig = 0 \<or> 64 \<le> sd_length sig then Inr (sint raw)
       else if sd_length sig < 0 then Inl (UB ''negative shift'')
       else
         let sign_bit = push_bit (nat (sd_length sig - 1)) (1 :: u64) in
         if raw AND sign_bit \<noteq> 0
         then (let mask = push_bit (nat (sd_length sig)) (NOT 0) in Inr (sint (raw OR mask)))
         else Inr (sint raw))"

definition decodePhysical :: "frame_payload \<Rightarrow> signal_def \<Rightarrow> byte_order \<Rightarrow> double result" where
  "decodePhysical data sig order =
     rbind (if sd_is_signed sig
            then rbind (extractSigned data sig order) (\<lambda>v. Inr (of_integer v))
            else rbind (extractRaw data sig order) (\<lambda>v. Inr (of_integer (uint v))))
       (\<lambda>raw. Inr (dadd (dmul raw (sd_scale sig)) (sd_offset sig)))"

section \<open>The payload as one 64-bit word\<close>

fun payload_le :: "frame_payload \<Rightarrow> u64" where
  "payload_le [] = 0"
| "payload_le (b # bs) = ucast b OR push_bit 8 (payload_le bs)"

definition payload_be :: "frame_payload \<Rightarrow> u64" where
  "payload_be data = payload_le (rev data)"

lemma bit_payload_le:
  "bit (payload_le data) n \<longleftrightarrow> n < 64 \<and> n div 8 < length data \<and> bit (data ! (n div 8)) (n mod 8)"
proof (induction data arbitrary: n)
  case Nil
  then show ?case by simp
next
  case (Cons b bs)
  show ?case
  proof (cases "n < 8")
    case True
    then show ?thesis by (auto simp: bit_simps)
  next
    case False
    then have "n div 8 = Suc ((n - 8) div 8)" "n mod 8 = (n - 8) mod 8"
      by (simp_all add: le_div_geq le_mod_geq)
    moreover have "\<not> bit b n" using False by (simp add: bit_word.rep_eq) 
    ultimately show ?thesis using False by (auto simp: bit_simps Cons.IH)
  qed
qed

lemma bit_payload_be:
  assumes "length data = 8"
  shows "bit (payload_be data) n \<longleftrightarrow> n < 64 \<and> bit (data ! (7 - n div 8)) (n mod 8)"
proof (cases "n < 64")
  case True
  then have "n div 8 < 8" by simp
  then show ?thesis using assms by (simp add: payload_be_def bit_payload_le rev_nth)
qed (simp add: payload_be_def bit_payload_le)

lemma pick_bit: "(ucast (drop_bit k (b :: u8)) :: u64) AND 1 = of_bool (bit b k)"
  by (rule bit_word_eqI) (auto simp: bit_simps)

lemma upto_step: "i < j \<Longrightarrow> [i..j - 1] = i # [i + 1..j - 1]" for i j :: int
  by (subst upto.simps) simp

section \<open>Intel\<close>

lemma extract_intel_loop:
  assumes "length data = 8" and "int s + int b \<le> 2 ^ 31" and "a \<le> b"
  shows "extract_intel data (int s) [int a..int b - 1] v =
     Inr (v OR push_bit a (take_bit (b - a) (drop_bit (s + a) (payload_le data))))"
  using assms(3)
proof (induction "b - a" arbitrary: a v)
  case 0
  then show ?case by simp
next
  case (Suc n)
  then have ab: "a < b" by simp
  have IH: "extract_intel data (int s) [int a + 1..int b - 1] v' =
     Inr (v' OR push_bit (Suc a) (take_bit (b - Suc a) (drop_bit (s + Suc a) (payload_le data))))" for v'
    using Suc.hyps(1) [of "Suc a" v'] Suc.hyps(2) ab by (simp add: add.commute)
  have pos: "int_add (int s) (int a) = Inr (int (s + a))" using assms(2) ab by (simp add: int_add_def)
  have dm: "trunc_div (int (s + a)) 8 = int ((s + a) div 8)" "trunc_mod (int (s + a)) 8 = int ((s + a) mod 8)"
    by (simp_all add: trunc_div_nonneg trunc_mod_nonneg zdiv_int zmod_int)
  have step: "push_bit a (take_bit (b - a) (drop_bit (s + a) (payload_le data))) =
     push_bit a (of_bool (bit (payload_le data) (s + a))) OR
     push_bit (Suc a) (take_bit (b - Suc a) (drop_bit (s + Suc a) (payload_le data)))" (is "?l = ?r")
  proof (rule bit_word_eqI)
    fix k assume "k < LENGTH(64)"
    consider "k < a" | "k = a" | "a < k" by linarith
    then show "bit ?l k = bit ?r k" using ab
      by cases (auto simp: bit_simps simp del: push_bit_Suc)
  qed
  have skip: "8 \<le> (s + a) div 8 \<Longrightarrow> \<not> bit (payload_le data) (s + a)"
    using assms(1) by (simp add: bit_payload_le)
  have wide: "\<not> 8 \<le> (s + a) div 8 \<Longrightarrow> \<not> 64 \<le> a" by auto
  show ?case
    unfolding upto_step [of "int a" "int b", simplified, OF ab] extract_intel.simps pos rbind_simps dm Let_def
    using assms(1) skip wide
    by (auto simp: IH step pick_bit bit_payload_le or.assoc simp del: of_nat_add push_bit_Suc)
qed

section \<open>Motorola\<close>

lemma mirror_pos:
  fixes x :: nat
  assumes "x < 64"
  shows "(63 - x) div 8 = 7 - x div 8" and "(63 - x) mod 8 = 7 - x mod 8"
proof -
  define r where "r = 7 - x mod 8"
  have "x div 8 < 8" "x mod 8 < 8" "x = 8 * (x div 8) + x mod 8" using assms by simp_all
  then have split: "63 - x = 8 * (7 - x div 8) + r" and "r < 8" unfolding r_def by linarith+
  then show "(63 - x) div 8 = 7 - x div 8" "(63 - x) mod 8 = 7 - x mod 8"
    unfolding split r_def [symmetric] by simp_all
qed

lemma extract_motorola_loop:
  assumes "length data = 8" and "int s + int b \<le> 2 ^ 31" and "a \<le> b"
  shows "extract_motorola data (int s) [int a..int b - 1] v =
     Inr (push_bit (min 64 (s + b) - (s + a)) v OR
          take_bit (min 64 (s + b) - (s + a)) (drop_bit (64 - min 64 (s + b)) (payload_be data)))"
  using assms(3)
proof (induction "b - a" arbitrary: a v)
  case 0
  then show ?case by simp
next
  case (Suc n)
  then have ab: "a < b" by simp
  define e where "e = min 64 (s + b)"
  have IH: "extract_motorola data (int s) [int a + 1..int b - 1] v' =
     Inr (push_bit (e - Suc (s + a)) v' OR take_bit (e - Suc (s + a)) (drop_bit (64 - e) (payload_be data)))" for v'
    using Suc.hyps(1) [of "Suc a" v'] Suc.hyps(2) ab by (simp add: add.commute e_def)
  have pos: "int_add (int s) (int a) = Inr (int (s + a))" using assms(2) ab by (simp add: int_add_def)
  have dm: "trunc_div (int (s + a)) 8 = int ((s + a) div 8)" "trunc_mod (int (s + a)) 8 = int ((s + a) mod 8)"
    by (simp_all add: trunc_div_nonneg trunc_mod_nonneg zdiv_int zmod_int)
  show ?case
  proof (cases "s + a < 64")
    case False
    then have "int (length data) \<le> int ((s + a) div 8)" "e - (s + a) = 0" "e - Suc (s + a) = 0"
      using assms(1) by (simp_all add: e_def)
    then show ?thesis
      unfolding upto_step [of "int a" "int b", simplified, OF ab] extract_motorola.simps pos rbind_simps dm Let_def
      by (simp add: IH flip: e_def)
  next
    case True
    then have e: "e - (s + a) = Suc (e - Suc (s + a))" using ab by (simp add: e_def)
    define k where "k = e - Suc (s + a)"
    have ek: "64 - e + k = 63 - (s + a)" "e \<le> 64" using True ab by (simp_all add: k_def e_def)
    have idx: "(63 - (s + a)) div 8 = 7 - (s + a) div 8" "(63 - (s + a)) mod 8 = 7 - (s + a) mod 8"
      by (simp_all add: mirror_pos True)
    have b: "bit (data ! ((s + a) div 8)) (7 - (s + a) mod 8) = bit (payload_be data) (64 - e + k)"
      unfolding bit_payload_be [OF assms(1)] ek idx using less_imp_diff_less [of 63 64] True by simp
    have nat7: "nat (7 - int ((s + a) mod 8)) = 7 - (s + a) mod 8" by simp
    have inr: "\<not> (int ((s + a) div 8) < 0 \<or> int (length data) \<le> int ((s + a) div 8))"
      using True assms(1) by auto
    have step: "push_bit k (push_bit 1 v OR of_bool (bit (payload_be data) (64 - e + k))) OR
         take_bit k (drop_bit (64 - e) (payload_be data)) =
       push_bit (k + 1) v OR take_bit (k + 1) (drop_bit (64 - e) (payload_be data))" (is "?l = ?r")
    proof (rule bit_word_eqI)
      fix j assume j: "j < LENGTH(64)"
      consider "j < k" | "j = k" | "k < j" by linarith
      then show "bit ?l j = bit ?r j" using j
        by cases (auto simp: bit_simps simp del: push_bit_Suc)
    qed
    show ?thesis
      unfolding upto_step [of "int a" "int b", simplified, OF ab] extract_motorola.simps pos rbind_simps dm Let_def
        if_not_P [OF inr] pick_bit nat7 nat_int IH b e_def [symmetric] e k_def [symmetric] step
      by simp
  qed
qed

section \<open>Both orders against the reference\<close>

definition field_spec :: "byte_order \<Rightarrow> nat \<Rightarrow> nat \<Rightarrow> frame_payload \<Rightarrow> u64" where
  "field_spec order start len data =
     (case order of
        Intel \<Rightarrow> take_bit len (drop_bit start (payload_le data))
      | Motorola \<Rightarrow> (let stop = min 64 (start + len) in
          take_bit (stop - start) (drop_bit (64 - stop) (payload_be data))))"

lemma extractRaw_eq:
  assumes "payload_ok data" and "0 \<le> sd_start_bit sig" and "sd_start_bit sig + sd_length sig \<le> 2 ^ 31"
  shows "extractRaw data sig order =
     Inr (field_spec order (nat (sd_start_bit sig)) (nat (sd_length sig)) data)"
proof (cases "0 \<le> sd_length sig")
  case True
  with assms show ?thesis
    using extract_intel_loop [of data "nat (sd_start_bit sig)" "nat (sd_length sig)" 0 0]
      extract_motorola_loop [of data "nat (sd_start_bit sig)" "nat (sd_length sig)" 0 0]
    by (auto simp: extractRaw_def field_spec_def payload_ok_def Let_def split: byte_order.split)
next
  case False
  then show ?thesis
    by (auto simp: extractRaw_def field_spec_def Let_def split: byte_order.split)
qed

lemma field_spec_less: "unat (field_spec order start len data) < 2 ^ len"
proof -
  have "field_spec order start len data = take_bit len (field_spec order start len data)"
    by (rule bit_word_eqI) (auto simp: field_spec_def Let_def bit_simps split: byte_order.split)
  then have "unat (field_spec order start len data) = take_bit len (unat (field_spec order start len data))"
    by (metis unsigned_take_bit_eq)
  then show ?thesis by (metis take_bit_nat_less_exp)
qed

section \<open>Undefined behaviour\<close>

lemma intel_negative_start:
  assumes "s + i < 0" and "int_min \<le> s + i" and "length data = 8"
  shows "extract_intel data s [i..b - 1] v =
     (if i < b \<and> -7 \<le> s + b - 1 then Inl (UB ''negative shift'') else Inr v)"
  using assms(1,2)
proof (induction "nat (b - i)" arbitrary: i)
  case 0
  then show ?case by simp
next
  case (Suc n)
  then have ib: "i < b" by simp
  have add: "int_add s i = Inr (s + i)" using Suc.prems by (simp add: int_add_def)
  show ?case
  proof (cases "-7 \<le> s + i")
    case True
    then have z: "\<bar>s + i\<bar> div 8 = 0" using Suc.prems(1) by simp
    then have "trunc_div (s + i) 8 = 0" "trunc_mod (s + i) 8 = s + i"
      by (simp_all add: trunc_div_def trunc_mod_def)
    then show ?thesis using ib True Suc.prems(1) assms(3)
      by (simp add: upto_step [OF ib] add Let_def)
  next
    case False
    then have "1 \<le> \<bar>s + i\<bar> div 8" by simp
    then have "trunc_div (s + i) 8 < 0" using False by (simp add: trunc_div_def)
    then have "extract_intel data s [i..b - 1] v = extract_intel data s [i + 1..b - 1] v"
      by (simp add: upto_step [OF ib] add Let_def)
    also have "\<dots> = (if i + 1 < b \<and> -7 \<le> s + b - 1 then Inl (UB ''negative shift'') else Inr v)"
      using Suc.hyps(2) Suc.prems False by (intro Suc.hyps(1)) auto
    finally show ?thesis using False ib by auto
  qed
qed

lemma extract_overflow:
  assumes "i < b" and "int_max < s + b - 1" and "0 \<le> s + i"
  shows "\<exists>e. extract_intel data s [i..b - 1] v = Inl e"
    and "\<exists>e. extract_motorola data s [i..b - 1] v = Inl e"
proof -
  have "(\<exists>e. extract_intel data s [i..b - 1] v = Inl e) \<and> (\<exists>e. extract_motorola data s [i..b - 1] v = Inl e)"
    using assms
  proof (induction "nat (b - i)" arbitrary: i v)
    case (Suc n)
    note up = upto_step [OF Suc.prems(1)]
    show ?case
    proof (cases "int_max < s + i")
      case True
      then show ?thesis by (simp add: up int_add_def)
    next
      case False
      then have add: "int_add s i = Inr (s + i)" and "i + 1 < b"
        using Suc.prems by (simp_all add: int_add_def)
      then have "(\<exists>e. extract_intel data s [i + 1..b - 1] v = Inl e) \<and> (\<exists>e. extract_motorola data s [i + 1..b - 1] v = Inl e)" for v
        using Suc.hyps(2) Suc.prems by (intro Suc.hyps(1)) auto
      then show ?thesis by (simp add: up add Let_def)
    qed
  qed simp
  then show "\<exists>e. extract_intel data s [i..b - 1] v = Inl e"
    and "\<exists>e. extract_motorola data s [i..b - 1] v = Inl e" by simp_all
qed

lemma motorola_defined:
  "(\<forall>i \<in> set is. int_min \<le> s + i \<and> s + i \<le> int_max) \<Longrightarrow> \<exists>v'. extract_motorola data s is v = Inr v'"
  by (induction "is" arbitrary: v) (simp_all add: int_add_def Let_def)

text \<open>
  C38: extractRaw runs into undefined behaviour exactly when the bit position overflows an int or, for
  Intel fields only, when the field starts at a negative position and reaches the seven positions
  just before the payload (a negative shift count); in every other case it returns a value.
\<close>

theorem extractRaw_faults_iff:
  assumes "payload_ok data" and "int_min \<le> sd_start_bit sig" and "sd_start_bit sig \<le> int_max"
    and "sd_length sig \<le> int_max"
  shows "(\<exists>e. extractRaw data sig order = Inl e) \<longleftrightarrow>
     0 < sd_length sig \<and>
     (int_max < sd_start_bit sig + sd_length sig - 1 \<or>
      order = Intel \<and> sd_start_bit sig < 0 \<and> -7 \<le> sd_start_bit sig + sd_length sig - 1)"
proof -
  define s b where "s = sd_start_bit sig" and "b = sd_length sig"
  have len: "length data = 8" and s: "int_min \<le> s" "s \<le> int_max" and b: "b \<le> int_max"
    using assms by (simp_all add: payload_ok_def s_def b_def)
  consider "b \<le> 0" | "0 < b" "0 \<le> s" "int_max < s + b - 1" | "0 < b" "0 \<le> s" "s + b - 1 \<le> int_max"
    | "0 < b" "s < 0" by linarith
  then show ?thesis
  proof cases
    case 1
    then show ?thesis by (auto simp: extractRaw_def simp flip: b_def split: byte_order.split)
  next
    case 2
    then show ?thesis using extract_overflow [of 0 b s data 0]
      by (cases order) (simp_all add: extractRaw_def flip: s_def b_def)
  next
    case 3
    then show ?thesis using extractRaw_eq [OF assms(1), of sig order]
      by (simp flip: s_def b_def)
  next
    case 4
    show ?thesis
    proof (cases order)
      case Intel
      then show ?thesis using 4 s len intel_negative_start [of s 0 data b 0]
        by (simp add: extractRaw_def flip: s_def b_def)
    next
      case Motorola
      have "\<exists>v'. extract_motorola data s [0..b - 1] 0 = Inr v'"
        using s 4 b by (intro motorola_defined) auto
      with Motorola 4 b show ?thesis by (auto simp add: extractRaw_def simp flip: s_def b_def)
    qed
  qed
qed

section \<open>Signed values\<close>

lemma sign_extend:
  assumes "unat (w :: u64) < 2 ^ n" and "0 < n" and "n < 64"
  shows "(if w AND 2 ^ (n - Suc 0) = 0 then sint w else sint (w OR NOT (mask n))) =
     signed_take_bit (n - Suc 0) (uint w)"
proof -
  have test: "w AND 2 ^ (n - Suc 0) = 0 \<longleftrightarrow> \<not> bit w (n - 1)"
    by (simp add: and_exp_eq_0_iff_not_bit)
  have "take_bit n w = w" using assms(1)
    by (metis take_bit_nat_eq_self unsigned_take_bit_eq word_unat_eq_iff)
  then have low: "bit w k \<Longrightarrow> k < n" for k by (metis bit_take_bit_iff)
  show ?thesis
  proof (rule bit_eqI)
    fix k
    have out: "n \<le> j \<Longrightarrow> \<not> bit w j" for j using low [of j] by auto
    consider "k < n - 1" | "k = n - 1" | "n \<le> k" by linarith
    then show "bit (if w AND 2 ^ (n - Suc 0) = 0 then sint w else sint (w OR NOT (mask n))) k =
        bit (signed_take_bit (n - Suc 0) (uint w)) k"
      unfolding test using assms(2,3) out
      by cases (auto simp: bit_simps min_def)
  qed
qed

lemma extractSigned_eq:
  assumes "payload_ok data" and "0 \<le> sd_start_bit sig" and "sd_start_bit sig + sd_length sig \<le> 2 ^ 31"
    and "0 \<le> sd_length sig"
  shows "extractSigned data sig order =
     (let w = field_spec order (nat (sd_start_bit sig)) (nat (sd_length sig)) data in
      Inr (if sd_is_signed sig \<and> 0 < sd_length sig \<and> sd_length sig < 64
           then signed_take_bit (nat (sd_length sig) - 1) (uint w) else sint w))"
proof (cases "sd_is_signed sig \<and> 0 < sd_length sig \<and> sd_length sig < 64")
  case True
  then have "0 < nat (sd_length sig)" "nat (sd_length sig) < 64" by linarith+
  from sign_extend [OF field_spec_less this, of order "nat (sd_start_bit sig)" data] True show ?thesis
    by (simp add: extractSigned_def extractRaw_eq [OF assms(1-3)] Let_def nat_diff_distrib split: if_splits)
next
  case False
  then show ?thesis using assms(4)
    by (auto simp: extractSigned_def extractRaw_eq [OF assms(1-3)] Let_def)
qed

section \<open>Physical values\<close>

definition physical_spec :: "signal_def \<Rightarrow> int \<Rightarrow> rat" where
  "physical_spec sig raw = of_int raw * dval (sd_scale sig) + dval (sd_offset sig)"

definition raw_int :: "frame_payload \<Rightarrow> signal_def \<Rightarrow> byte_order \<Rightarrow> int result" where
  "raw_int data sig order =
     (if sd_is_signed sig then extractSigned data sig order
      else rbind (extractRaw data sig order) (\<lambda>v. Inr (uint v)))"

lemma decodePhysical_raw_int:
  "decodePhysical data sig order =
     rbind (raw_int data sig order) (\<lambda>v. Inr (dadd (dmul (of_integer v) (sd_scale sig)) (sd_offset sig)))"
  by (simp add: decodePhysical_def raw_int_def rbind_assoc)

lemma decodePhysical_exact:
  assumes "raw_int data sig order = Inr v" and "\<bar>v\<bar> < 2 ^ 53"
    and "dfinite (sd_scale sig)" and "dfinite (sd_offset sig)"
    and "representable \<bar>of_int v * dval (sd_scale sig)\<bar>"
    and "representable \<bar>physical_spec sig v\<bar>"
  shows "\<exists>x. decodePhysical data sig order = Inr x \<and> dfinite x \<and> dval x = physical_spec sig v"
proof -
  have v: "dfinite (of_integer v) \<and> dval (of_integer v) = of_int v"
    by (rule of_integer_exact [OF assms(2)])
  then have p: "dfinite (dmul (of_integer v) (sd_scale sig)) \<and>
     dval (dmul (of_integer v) (sd_scale sig)) = of_int v * dval (sd_scale sig)"
    using dmul_exact [of "of_integer v" "sd_scale sig"] assms(3,5) by simp
  then show ?thesis
    using dadd_exact [of "dmul (of_integer v) (sd_scale sig)" "sd_offset sig"] assms(1,4,6)
    by (simp add: decodePhysical_raw_int physical_spec_def)
qed

lemma dadd_zero: "dfinite x \<Longrightarrow> dval (dadd x (dzero s)) = dval x \<and> dfinite (dadd x (dzero s))"
  by (cases x) (simp_all add: dzero_def)

section \<open>The properties\<close>

fun le_number :: "frame_payload \<Rightarrow> nat" where
  "le_number [] = 0"
| "le_number (b # bs) = unat b + 256 * le_number bs"

definition be_number :: "frame_payload \<Rightarrow> nat" where
  "be_number data = foldl (\<lambda>n b. 256 * n + unat b) 0 data"

lemma be_number_rev: "be_number data = le_number (rev data)"
proof -
  have "be_number (rev bs) = le_number bs" for bs
    unfolding be_number_def by (induction bs) (simp_all add: add.commute)
  from this [of "rev data"] show ?thesis by simp
qed

lemma le_number_less: "le_number data < 256 ^ length data"
proof (induction data)
  case (Cons b bs)
  have "unat b < 256" by simp
  then have "unat b + 256 * le_number bs < 256 * (le_number bs + 1)" by simp
  also have "\<dots> \<le> 256 * 256 ^ length bs" using Cons by (intro mult_left_mono) simp_all
  finally show ?case by simp
qed simp

lemma disjoint_or_add: "x < 256 \<Longrightarrow> x OR 256 * y = x + 256 * y" for x y :: nat
proof -
  assume "x < 256"
  then have "x = take_bit 8 x" by (simp add: take_bit_nat_eq_self)
  then have "x AND push_bit 8 y = 0"
    by (intro bit_eqI) (metis bit_0_eq bit_and_iff bit_push_bit_iff bit_take_bit_iff bot_apply bot_bool_def not_le)
  then have "x OR push_bit 8 y = x + push_bit 8 y" by (simp add: disjunctive_add_eq_or)
  then show ?thesis by (simp add: push_bit_eq_mult mult.commute)
qed

lemma payload_le_number: "length data \<le> 8 \<Longrightarrow> unat (payload_le data) = le_number data"
proof (induction data)
  case (Cons b bs)
  have "le_number bs < 256 ^ length bs" by (rule le_number_less)
  also have "\<dots> \<le> 256 ^ 7" using Cons.prems by (intro power_increasing) simp_all
  finally have "256 * le_number bs < 2 ^ 64" by simp
  then have "unat (push_bit 8 (payload_le bs)) = 256 * le_number bs"
    using Cons unfolding unsigned_push_bit_eq
    by (simp add: push_bit_eq_mult take_bit_nat_eq_self mult.commute)
  moreover have "unat (ucast b :: u64) = unat b" by (simp add: unsigned_ucast_eq take_bit_nat_eq_self less_trans [OF unat_u8_less])
  ultimately show ?case by (simp add: unsigned_or_eq disjoint_or_add)
qed simp

lemma unat_field: "unat (take_bit n (drop_bit m w)) = unat w div 2 ^ m mod 2 ^ n" for w :: u64
  unfolding unsigned_take_bit_eq unat_drop_bit_eq by (simp add: take_bit_eq_mod drop_bit_eq_div)

lemma field_spec_arith:
  assumes "length data = 8" and "order = Motorola \<longrightarrow> start + len \<le> 64"
  shows "unat (field_spec order start len data) =
     (case order of Intel \<Rightarrow> le_number data div 2 ^ start mod 2 ^ len
      | Motorola \<Rightarrow> be_number data div 2 ^ (64 - start - len) mod 2 ^ len)"
  using assms
  by (cases order)
     (auto simp: field_spec_def Let_def payload_be_def be_number_rev unat_field payload_le_number min_def)

text \<open>
  C12: for every field inside the range of int, and in the Motorola order inside the 64 bits of the
  payload, extractRaw is defined and returns the number that the DBC bit numbering prescribes: the
  payload read as one number in the message's byte order, divided by the power of two below the field
  and reduced to the field's length.
\<close>

theorem extractRaw_reads_field:
  assumes "payload_ok data" and "0 \<le> sd_start_bit sig" and "sd_start_bit sig + sd_length sig \<le> 2 ^ 31"
    and "order = Motorola \<longrightarrow> nat (sd_start_bit sig) + nat (sd_length sig) \<le> 64"
  shows "\<exists>w. extractRaw data sig order = Inr w \<and> unat w < 2 ^ nat (sd_length sig) \<and>
     unat w = (case order of
         Intel \<Rightarrow> le_number data div 2 ^ nat (sd_start_bit sig)
       | Motorola \<Rightarrow> be_number data div 2 ^ (64 - nat (sd_start_bit sig) - nat (sd_length sig)))
       mod 2 ^ nat (sd_length sig)"
  using field_spec_arith [OF _ assms(4), of data] assms(1) field_spec_less
  by (cases order) (auto simp: extractRaw_eq [OF assms(1-3)] payload_ok_def)

theorem extractRaw_reads_field_witness:
  "\<exists>w. extractRaw [0xFF, 0x8B, 0xA0, 0x74, 0, 0, 0, 0]
      (default_signal\<lparr>sd_start_bit := 16, sd_length := 4\<rparr>) Motorola = Inr w \<and> unat w = 10"
  using extractRaw_reads_field [of "[0xFF, 0x8B, 0xA0, 0x74, 0, 0, 0, 0]"
      "default_signal\<lparr>sd_start_bit := 16, sd_length := 4\<rparr>" Motorola]
  by (auto simp: payload_ok_def default_signal_def be_number_def)

theorem extractRaw_faults_iff_witness:
  "\<exists>e. extractRaw (replicate 8 0) (default_signal\<lparr>sd_start_bit := -4, sd_length := 8\<rparr>) Intel = Inl e"
  using extractRaw_faults_iff [of "replicate 8 0" "default_signal\<lparr>sd_start_bit := -4, sd_length := 8\<rparr>" Intel]
  by (simp add: payload_ok_def default_signal_def)

text \<open>
  C16: a signed field of 1 to 63 bits decodes to the two's complement reading of its bits: the value
  lies in the signed range of the length and is congruent to the raw bits modulo two to the length.
\<close>

theorem extractSigned_twos_complement:
  assumes "payload_ok data" and "0 \<le> sd_start_bit sig" and "sd_start_bit sig + sd_length sig \<le> 2 ^ 31"
    and "sd_is_signed sig" and "sd_length sig = int n" and "0 < n" and "n < 64"
  shows "\<exists>v w. extractSigned data sig order = Inr v \<and> extractRaw data sig order = Inr w \<and>
     - (2 ^ (n - 1)) \<le> v \<and> v < 2 ^ (n - 1) \<and> v mod 2 ^ n = uint w"
proof -
  define w where "w = field_spec order (nat (sd_start_bit sig)) n data"
  have raw: "extractRaw data sig order = Inr w"
    unfolding w_def using extractRaw_eq [OF assms(1-3)] assms(5) by simp
  have sig: "extractSigned data sig order = Inr (signed_take_bit (n - 1) (uint w))"
    unfolding w_def using extractSigned_eq [OF assms(1-3)] assms(4-7) by (simp add: Let_def)
  have "unat w < 2 ^ n" unfolding w_def by (rule field_spec_less)
  then have w: "uint w < 2 ^ n" by (metis of_nat_less_iff of_nat_numeral of_nat_power uint_nat)
  have "take_bit n (signed_take_bit (n - 1) (uint w)) = take_bit n (uint w)"
    using take_bit_signed_take_bit [of n "n - 1" "uint w"] assms(6) by simp
  then have "signed_take_bit (n - 1) (uint w) mod 2 ^ n = uint w"
    using w by (simp add: take_bit_eq_mod)
  moreover have "- (2 ^ (n - 1)) \<le> signed_take_bit (n - 1) (uint w)" "signed_take_bit (n - 1) (uint w) < 2 ^ (n - 1)"
    by (rule signed_take_bit_int_greater_eq_minus_exp, rule signed_take_bit_int_less_exp)
  ultimately show ?thesis using raw sig by blast
qed

theorem extractSigned_twos_complement_witness:
  "\<exists>v. extractSigned [0x08, 0, 0, 0, 0, 0, 0, 0]
      (default_signal\<lparr>sd_start_bit := 0, sd_length := 4, sd_is_signed := True\<rparr>) Intel = Inr v \<and> v < 8"
  using extractSigned_twos_complement [of "[0x08, 0, 0, 0, 0, 0, 0, 0]"
      "default_signal\<lparr>sd_start_bit := 0, sd_length := 4, sd_is_signed := True\<rparr>" 4 Intel]
  by (auto simp: payload_ok_def default_signal_def)

text \<open>
  C36: whenever the scaled value and the sum are representable doubles, decodePhysical returns exactly
  raw times scale plus offset, with no rounding error.
\<close>

theorem decodePhysical_is_exact:
  assumes "raw_int data sig order = Inr v" and "\<bar>v\<bar> < 2 ^ 53"
    and "dfinite (sd_scale sig)" and "dfinite (sd_offset sig)"
    and "representable \<bar>of_int v * dval (sd_scale sig)\<bar>"
    and "representable \<bar>physical_spec sig v\<bar>"
  shows "\<exists>x. decodePhysical data sig order = Inr x \<and> dfinite x \<and> dval x = physical_spec sig v"
  using assms by (rule decodePhysical_exact)

definition rpm_signal :: signal_def where
  "rpm_signal = default_signal\<lparr>sd_name := ''rpm'', sd_start_bit := 0, sd_length := 16,
     sd_scale := ddiv (of_integer 1) (of_integer 4), sd_unit := ''rpm''\<rparr>"

lemma quarter: "ddiv (of_integer 1) (of_integer 4) = Finite False 4503599627370496 (-54)"
  by (simp add: double_eval)

lemma zero_double: "of_integer 0 = dzero False"
  by (simp add: of_integer_def round_dyadic_def round_frac_def)

lemma representable_quarter: "\<bar>v\<bar> < 2 ^ 53 \<Longrightarrow> representable \<bar>of_int v / 4\<bar>"
  unfolding representable_def
  by (rule exI [of _ "nat \<bar>v\<bar>"], rule exI [of _ "-2"]) (simp add: abs_mult)

lemma rpm_fields:
  "sd_scale rpm_signal = Finite False 4503599627370496 (-54)" "sd_offset rpm_signal = dzero False"
  by (simp_all only: rpm_signal_def default_signal_def quarter zero_double signal_def.simps)

lemma quarter_val: "dval (Finite False 4503599627370496 (-54)) = 1 / 4"
  by (simp add: power_int_def power_divide)

lemma rpm_raw: "raw_int [0x9C, 0x0C, 0, 0x90, 0, 0, 0, 0] rpm_signal Intel = Inr 3228"
  by (simp add: raw_int_def rpm_signal_def extractRaw_eq payload_ok_def default_signal_def field_spec_def)

theorem decodePhysical_is_exact_witness:
  "\<exists>x. decodePhysical [0x9C, 0x0C, 0, 0x90, 0, 0, 0, 0] rpm_signal Intel = Inr x \<and> dval x = 807"
  using decodePhysical_is_exact [OF rpm_raw] representable_quarter [of 3228]
  by (auto simp: rpm_fields quarter_val physical_spec_def dzero_def simp del: dval.simps(1))
     (auto simp: dzero_def)

text \<open>Adding a zero keeps the number, and with it the normal form and the unit in the last place.\<close>

lemma dadd_zero_normal: "normal_form x \<Longrightarrow> normal_form (dadd x (dzero s)) \<and> ulp (dadd x (dzero s)) = ulp x"
  by (cases x) (auto simp: dzero_def)

text \<open>
  C37: for a signal with offset zero, a raw value below \<open>2 ^ 53\<close> and a finite product, the decoded value
  is a double in normal form that differs from the exact product of raw value and scale by at most
  half a unit in its last place.
\<close>

theorem decodePhysical_error:
  assumes "raw_int data sig order = Inr v" and "\<bar>v\<bar> < 2 ^ 53" and "dfinite (sd_scale sig)"
    and "sd_offset sig = of_integer 0" and "dfinite (dmul (of_integer v) (sd_scale sig))"
  shows "\<exists>x. decodePhysical data sig order = Inr x \<and> normal_form x \<and>
     \<bar>dval x - of_int v * dval (sd_scale sig)\<bar> \<le> ulp x / 2"
proof -
  have v: "dfinite (of_integer v) \<and> dval (of_integer v) = of_int v"
    by (rule of_integer_exact [OF assms(2)])
  then have "normal_form (dmul (of_integer v) (sd_scale sig)) \<and>
      \<bar>dval (dmul (of_integer v) (sd_scale sig)) - of_int v * dval (sd_scale sig)\<bar>
      \<le> ulp (dmul (of_integer v) (sd_scale sig)) / 2"
    using dmul_error [of "of_integer v" "sd_scale sig"] assms(3,5) by simp
  then show ?thesis
    using dadd_zero [OF assms(5), of False] dadd_zero_normal [of "dmul (of_integer v) (sd_scale sig)" False] assms(1,4)
    by (simp add: decodePhysical_raw_int zero_double)
qed

definition steering_signal :: signal_def where
  "steering_signal = default_signal\<lparr>sd_name := ''steering_angle'', sd_start_bit := 0, sd_length := 16,
     sd_scale := ddiv (of_integer 1) (of_integer 10), sd_is_signed := True, sd_unit := ''deg''\<rparr>"

lemma steering_sample:
  "extractSigned [0xFF, 0x8B, 0, 0x74, 0, 0, 0, 0] steering_signal Motorola = Inr (-117)"
  by (simp add: extractSigned_eq steering_signal_def payload_ok_def default_signal_def field_spec_def
      payload_be_def Let_def)

lemma steering_product:
  "dmul (of_integer (-117)) (Finite False 7205759403792794 (-56)) = Finite True 6586514455029351 (-49)"
  by (simp add: double_eval)

theorem decodePhysical_error_witness:
  "\<exists>x. decodePhysical [0xFF, 0x8B, 0, 0x74, 0, 0, 0, 0] steering_signal Motorola = Inr x \<and> normal_form x \<and>
     \<bar>dval x - (-117) * dval (ddiv (of_integer 1) (of_integer 10))\<bar> \<le> ulp x / 2"
  using decodePhysical_error [of "[0xFF, 0x8B, 0, 0x74, 0, 0, 0, 0]" steering_signal Motorola "-117"]
    steering_sample steering_product
  by (simp add: raw_int_def steering_signal_def default_signal_def one_tenth)

text \<open>The sample frame of the unit tests: 807 rpm.\<close>

lemma rpm_decoded:
  "decodePhysical [0x9C, 0x0C, 0, 0x90, 0, 0, 0, 0] rpm_signal Intel = Inr (of_integer 807)"
  by (simp add: decodePhysical_def rpm_signal_def extractRaw_eq payload_ok_def default_signal_def
      field_spec_def double_eval)

end
