(* ===== verification/Diagnostics.thy ===== *)
theory Diagnostics
  imports Signal_Codec Cpp_Text
begin

text \<open>
  The diagnostics engine of \<open>task3_can_decoder/src/diagnostics.cpp\<close>: counter, checksum and timeout
  checks with the anomalies they report.
\<close>

section \<open>Anomalies and statistics\<close>

datatype anomaly_kind = CounterGap | ChecksumMismatch | Timeout | UnknownId

record anomaly =
  an_kind :: anomaly_kind
  an_can_id :: u32
  an_message_name :: string
  an_detail :: string
  an_timestamp_ms :: int

record message_stats =
  ms_frames_received :: u64
  ms_counter_faults :: u64
  ms_checksum_faults :: u64
  ms_timeout_events :: u64

definition zero_message_stats :: message_stats where
  "zero_message_stats = \<lparr>ms_frames_received = 0, ms_counter_faults = 0, ms_checksum_faults = 0,
     ms_timeout_events = 0\<rparr>"

text \<open>The members of \<open>DiagnosticsEngine\<close>; the database it refers to is an argument.\<close>

record engine =
  de_last_counter :: "u32 \<rightharpoonup> int"
  de_last_seen_ms :: "u32 \<rightharpoonup> int"
  de_currently_timed_out :: "u32 \<rightharpoonup> bool"
  de_stats :: "u32 \<rightharpoonup> message_stats"
  de_unknown_frame_count :: u64

definition new_engine :: engine where
  "new_engine = \<lparr>de_last_counter = Map.empty, de_last_seen_ms = Map.empty,
     de_currently_timed_out = Map.empty, de_stats = Map.empty, de_unknown_frame_count = 0\<rparr>"

definition kTimeoutMultiplier :: double where "kTimeoutMultiplier = of_integer 3"

text \<open>\<open>stats_[id]\<close> creates a zero entry when there is none.\<close>

definition stats_at :: "engine \<Rightarrow> u32 \<Rightarrow> message_stats" where
  "stats_at e k = (case de_stats e k of None \<Rightarrow> zero_message_stats | Some st \<Rightarrow> st)"

definition update_stats :: "u32 \<Rightarrow> (message_stats \<Rightarrow> message_stats) \<Rightarrow> engine \<Rightarrow> engine" where
  "update_stats k f e = e\<lparr>de_stats := (de_stats e)(k \<mapsto> f (stats_at e k))\<rparr>"

text \<open>\<open>static_cast<int>\<close> of a 64-bit unsigned value keeps the low 32 bits.\<close>

definition u64_to_int :: "u64 \<Rightarrow> int" where
  "u64_to_int w = sint (ucast w :: u32)"

section \<open>onKnownFrame\<close>

definition counter_check :: "message_def \<Rightarrow> raw_frame \<Rightarrow> engine \<Rightarrow> (anomaly list \<times> engine) result" where
  "counter_check msg frame e =
     (case findSignal msg ''counter'' of
        None \<Rightarrow> Inr ([], e)
      | Some counterSig \<Rightarrow>
          rbind (extractRaw (rf_data frame) counterSig (md_byte_order msg)) (\<lambda>raw.
            let counter = u64_to_int raw;
                store = (\<lambda>e. e\<lparr>de_last_counter := (de_last_counter e)(md_id msg \<mapsto> counter)\<rparr>)
            in case de_last_counter e (md_id msg) of
                None \<Rightarrow> Inr ([], store e)
              | Some prev \<Rightarrow>
                  rbind (int_add prev 1) (\<lambda>succ.
                    let expected = trunc_mod succ 16 in
                    if counter \<noteq> expected then
                      Inr ([\<lparr>an_kind = CounterGap, an_can_id = md_id msg, an_message_name = md_name msg,
                             an_detail = ''counter discontinuity: expected '' @ dec_int expected @ '', got '' @
                               dec_int counter @ '' (prev='' @ dec_int prev @ '')'',
                             an_timestamp_ms = rf_timestamp_ms frame\<rparr>],
                           store (update_stats (md_id msg)
                             (\<lambda>st. st\<lparr>ms_counter_faults := ms_counter_faults st + 1\<rparr>) e))
                    else Inr ([], store e))))"

text \<open>The loop over the eight payload bytes, which skips the checksum byte.\<close>

fun checksum_loop :: "frame_payload \<Rightarrow> int \<Rightarrow> int list \<Rightarrow> u8 \<Rightarrow> u8 result" where
  "checksum_loop data idx [] computed = Inr computed"
| "checksum_loop data idx (i # is) computed =
     (if i = idx then checksum_loop data idx is computed
      else rbind (array_get data i) (\<lambda>b. checksum_loop data idx is (computed XOR b)))"

definition checksum_check :: "message_def \<Rightarrow> raw_frame \<Rightarrow> engine \<Rightarrow> (anomaly list \<times> engine) result" where
  "checksum_check msg frame e =
     (case findSignal msg ''checksum'' of
        None \<Rightarrow> Inr ([], e)
      | Some checksumSig \<Rightarrow>
          let checksumByteIdx = trunc_div (sd_start_bit checksumSig) 8 in
          rbind (checksum_loop (rf_data frame) checksumByteIdx [0..7] 0) (\<lambda>computed.
          rbind (array_get (rf_data frame) checksumByteIdx) (\<lambda>received.
            if computed \<noteq> received then
              Inr ([\<lparr>an_kind = ChecksumMismatch, an_can_id = md_id msg, an_message_name = md_name msg,
                     an_detail = ''checksum mismatch: expected 0x'' @ hex_lower (unat computed) @
                       '', got 0x'' @ hex_lower (unat received),
                     an_timestamp_ms = rf_timestamp_ms frame\<rparr>],
                   update_stats (md_id msg) (\<lambda>st. st\<lparr>ms_checksum_faults := ms_checksum_faults st + 1\<rparr>) e)
            else Inr ([], e))))"

definition onKnownFrame :: "message_def \<Rightarrow> raw_frame \<Rightarrow> engine \<Rightarrow> (anomaly list \<times> engine) result" where
  "onKnownFrame msg frame e =
     (let e1 = update_stats (md_id msg) (\<lambda>st. st\<lparr>ms_frames_received := ms_frames_received st + 1\<rparr>) e in
      rbind (counter_check msg frame e1) (\<lambda>(a1, e2).
      rbind (checksum_check msg frame e2) (\<lambda>(a2, e3).
        Inr (a1 @ a2,
             e3\<lparr>de_last_seen_ms := (de_last_seen_ms e3)(md_id msg \<mapsto> rf_timestamp_ms frame),
                de_currently_timed_out := (de_currently_timed_out e3)(md_id msg \<mapsto> False)\<rparr>))))"

section \<open>onUnknownFrame\<close>

definition onUnknownFrame :: "raw_frame \<Rightarrow> engine \<Rightarrow> anomaly \<times> engine" where
  "onUnknownFrame frame e =
     (\<lparr>an_kind = UnknownId, an_can_id = rf_can_id frame, an_message_name = '''',
       an_detail = ''unrecognized CAN ID 0x'' @ hex_lower (unat (rf_can_id frame)) @
         '' -- no entry in DBC, frame ignored for decoding'',
       an_timestamp_ms = rf_timestamp_ms frame\<rparr>,
      e\<lparr>de_unknown_frame_count := de_unknown_frame_count e + 1\<rparr>)"

section \<open>checkTimeouts and isCurrentlyTimedOut\<close>

definition timeout_threshold :: "message_def \<Rightarrow> double" where
  "timeout_threshold msg = dmul (of_integer (md_period_ms msg)) kTimeoutMultiplier"

definition check_timeout :: "int \<Rightarrow> u32 \<Rightarrow> message_def \<Rightarrow> engine \<Rightarrow> (anomaly list \<times> engine) result" where
  "check_timeout now_ms k msg e =
     (let threshold = timeout_threshold msg in
      rbind (case de_last_seen_ms e k of
               None \<Rightarrow> Inr (of_integer (10 ^ 18))
             | Some seen \<Rightarrow> rbind (long_sub now_ms seen) (\<lambda>d. Inr (of_integer d))) (\<lambda>sinceLast.
        let isTimedOut = dless threshold sinceLast;
            wasTimedOut = (case de_currently_timed_out e k of None \<Rightarrow> False | Some b \<Rightarrow> b);
            store = (\<lambda>e. e\<lparr>de_currently_timed_out := (de_currently_timed_out e)(k \<mapsto> isTimedOut)\<rparr>)
        in if isTimedOut \<and> \<not> wasTimedOut then
             rbind (cast_long sinceLast) (\<lambda>since.
             rbind (cast_long threshold) (\<lambda>thr.
               Inr ([\<lparr>an_kind = Timeout, an_can_id = k, an_message_name = md_name msg,
                      an_detail = ''no frame for '' @ dec_int since @ ''ms (period='' @
                        dec_int (md_period_ms msg) @ ''ms, threshold='' @ dec_int thr @ ''ms)'',
                      an_timestamp_ms = now_ms\<rparr>],
                    store (update_stats k (\<lambda>st. st\<lparr>ms_timeout_events := ms_timeout_events st + 1\<rparr>) e))))
           else Inr ([], store e)))"

fun checkTimeouts :: "int \<Rightarrow> dbc_database \<Rightarrow> engine \<Rightarrow> (anomaly list \<times> engine) result" where
  "checkTimeouts now_ms [] e = Inr ([], e)"
| "checkTimeouts now_ms ((k, msg) # db) e =
     rbind (check_timeout now_ms k msg e) (\<lambda>(a1, e1).
     rbind (checkTimeouts now_ms db e1) (\<lambda>(a2, e2). Inr (a1 @ a2, e2)))"

definition isCurrentlyTimedOut :: "dbc_database \<Rightarrow> u32 \<Rightarrow> int \<Rightarrow> engine \<Rightarrow> bool result" where
  "isCurrentlyTimedOut db k now_ms e =
     (case db_find db k of
        None \<Rightarrow> Inr False
      | Some msg \<Rightarrow>
          (case de_last_seen_ms e k of
             None \<Rightarrow> Inr True
           | Some seen \<Rightarrow>
               rbind (long_sub now_ms seen) (\<lambda>d. Inr (dless (timeout_threshold msg) (of_integer d)))))"

end
