(* ===== verification/Diagnostics_Spec.thy ===== *)
theory Diagnostics_Spec
  imports Diagnostics
begin

text \<open>
  What the diagnostics engine promises: one monitor per message, with integer arithmetic and without
  the shared maps, and the proof that the engine of \<open>diagnostics.cpp\<close> implements all monitors at
  once on every interleaving of frames and timeout polls.
\<close>

section \<open>Well-formed databases and events\<close>

definition counter_layout_ok :: "signal_def \<Rightarrow> bool" where
  "counter_layout_ok s \<longleftrightarrow> 0 \<le> sd_start_bit s \<and> 0 \<le> sd_length s \<and> sd_length s \<le> 30 \<and>
     sd_start_bit s \<le> 2 ^ 30"

definition checksum_layout_ok :: "signal_def \<Rightarrow> bool" where
  "checksum_layout_ok s \<longleftrightarrow> 0 \<le> sd_start_bit s \<and> sd_start_bit s < 64"

definition msg_ok :: "message_def \<Rightarrow> bool" where
  "msg_ok msg \<longleftrightarrow>
     (case findSignal msg ''counter'' of None \<Rightarrow> True | Some s \<Rightarrow> counter_layout_ok s) \<and>
     (case findSignal msg ''checksum'' of None \<Rightarrow> True | Some s \<Rightarrow> checksum_layout_ok s) \<and>
     int_min \<le> md_period_ms msg \<and> md_period_ms msg \<le> int_max"

definition db_ok :: "dbc_database \<Rightarrow> bool" where
  "db_ok db \<longleftrightarrow> std_ordered db \<and> (\<forall>(k, m) \<in> set db. md_id m = k \<and> msg_ok m)"

definition time_ok :: "int \<Rightarrow> bool" where
  "time_ok t \<longleftrightarrow> 0 \<le> t \<and> t < 2 ^ 52"

datatype diag_event = Frame raw_frame | Poll int

fun ev_ok :: "diag_event \<Rightarrow> bool" where
  "ev_ok (Frame f) = (payload_ok (rf_data f) \<and> time_ok (rf_timestamp_ms f))"
| "ev_ok (Poll t) = time_ok t"

fun diag_step :: "dbc_database \<Rightarrow> diag_event \<Rightarrow> engine \<Rightarrow> (anomaly list \<times> engine) result" where
  "diag_step db (Frame f) e =
     (case db_find db (rf_can_id f) of
        None \<Rightarrow> (let (a, e') = onUnknownFrame f e in Inr ([a], e'))
      | Some msg \<Rightarrow> onKnownFrame msg f e)"
| "diag_step db (Poll now) e = checkTimeouts now db e"

fun diag_run :: "dbc_database \<Rightarrow> diag_event list \<Rightarrow> engine \<Rightarrow> (anomaly list \<times> engine) result" where
  "diag_run db [] e = Inr ([], e)"
| "diag_run db (ev # evs) e =
     rbind (diag_step db ev e) (\<lambda>(a1, e1). rbind (diag_run db evs e1) (\<lambda>(a2, e2). Inr (a1 @ a2, e2)))"

section \<open>The monitor of one message\<close>

record monitor =
  mo_counter :: "int option"
  mo_seen :: "int option"
  mo_late :: bool
  mo_frames :: nat
  mo_gaps :: nat
  mo_bad :: nat
  mo_timeouts :: nat

definition idle_monitor :: monitor where
  "idle_monitor = \<lparr>mo_counter = None, mo_seen = None, mo_late = False, mo_frames = 0, mo_gaps = 0,
     mo_bad = 0, mo_timeouts = 0\<rparr>"

definition counter_of :: "message_def \<Rightarrow> raw_frame \<Rightarrow> int option" where
  "counter_of msg f =
     map_option (\<lambda>s. uint (field_spec (md_byte_order msg) (nat (sd_start_bit s)) (nat (sd_length s)) (rf_data f)))
       (findSignal msg ''counter'')"

definition xor_bytes :: "u8 list \<Rightarrow> u8" where
  "xor_bytes bs = foldr (XOR) bs 0"

text \<open>The exclusive or of the whole payload, checksum byte included, is zero.\<close>

definition checksum_fine :: "message_def \<Rightarrow> raw_frame \<Rightarrow> bool" where
  "checksum_fine msg f \<longleftrightarrow> findSignal msg ''checksum'' = None \<or> xor_bytes (rf_data f) = 0"

definition counter_gap :: "message_def \<Rightarrow> raw_frame \<Rightarrow> int option \<Rightarrow> bool" where
  "counter_gap msg f prev =
     (case (counter_of msg f, prev) of (Some c, Some p) \<Rightarrow> c \<noteq> (p + 1) mod 16 | _ \<Rightarrow> False)"

definition mon_frame :: "message_def \<Rightarrow> raw_frame \<Rightarrow> monitor \<Rightarrow> anomaly_kind list \<times> monitor" where
  "mon_frame msg f mo =
     (let gap = counter_gap msg f (mo_counter mo); bad = \<not> checksum_fine msg f in
      ((if gap then [CounterGap] else []) @ (if bad then [ChecksumMismatch] else []),
       mo\<lparr>mo_counter := (case counter_of msg f of None \<Rightarrow> mo_counter mo | Some c \<Rightarrow> Some c),
          mo_seen := Some (rf_timestamp_ms f), mo_late := False, mo_frames := mo_frames mo + 1,
          mo_gaps := mo_gaps mo + of_bool gap, mo_bad := mo_bad mo + of_bool bad\<rparr>))"

definition is_late :: "message_def \<Rightarrow> int \<Rightarrow> int option \<Rightarrow> bool" where
  "is_late msg now seen = (case seen of None \<Rightarrow> True | Some t \<Rightarrow> 3 * md_period_ms msg < now - t)"

definition mon_poll :: "message_def \<Rightarrow> int \<Rightarrow> monitor \<Rightarrow> anomaly_kind list \<times> monitor" where
  "mon_poll msg now mo =
     (let late = is_late msg now (mo_seen mo); fresh = late \<and> \<not> mo_late mo in
      (if fresh then [Timeout] else [],
       mo\<lparr>mo_late := late, mo_timeouts := mo_timeouts mo + of_bool fresh\<rparr>))"

fun mon_step :: "message_def \<Rightarrow> u32 \<Rightarrow> diag_event \<Rightarrow> monitor \<Rightarrow> anomaly_kind list \<times> monitor" where
  "mon_step msg k (Frame f) mo = (if rf_can_id f = k then mon_frame msg f mo else ([], mo))"
| "mon_step msg k (Poll now) mo = mon_poll msg now mo"

fun mon_run :: "message_def \<Rightarrow> u32 \<Rightarrow> diag_event list \<Rightarrow> monitor \<Rightarrow> anomaly_kind list \<times> monitor" where
  "mon_run msg k [] mo = ([], mo)"
| "mon_run msg k (ev # evs) mo =
     (let (a1, mo1) = mon_step msg k ev mo; (a2, mo2) = mon_run msg k evs mo1 in (a1 @ a2, mo2))"

section \<open>The simulation relation\<close>

definition mon_rel :: "engine \<Rightarrow> u32 \<Rightarrow> monitor \<Rightarrow> bool" where
  "mon_rel e k mo \<longleftrightarrow>
     de_last_counter e k = mo_counter mo \<and> de_last_seen_ms e k = mo_seen mo \<and>
     (case de_currently_timed_out e k of None \<Rightarrow> False | Some b \<Rightarrow> b) = mo_late mo \<and>
     stats_at e k = \<lparr>ms_frames_received = of_nat (mo_frames mo), ms_counter_faults = of_nat (mo_gaps mo),
       ms_checksum_faults = of_nat (mo_bad mo), ms_timeout_events = of_nat (mo_timeouts mo)\<rparr>"

definition mon_ok :: "monitor \<Rightarrow> bool" where
  "mon_ok mo \<longleftrightarrow>
     (case mo_counter mo of None \<Rightarrow> True | Some c \<Rightarrow> 0 \<le> c \<and> c < 2 ^ 30) \<and>
     (case mo_seen mo of None \<Rightarrow> True | Some t \<Rightarrow> time_ok t)"

text \<open>Everything the engine stores about other identifiers stays as it is.\<close>

definition same_at :: "u32 \<Rightarrow> engine \<Rightarrow> engine \<Rightarrow> bool" where
  "same_at k e e' \<longleftrightarrow>
     de_last_counter e' k = de_last_counter e k \<and> de_last_seen_ms e' k = de_last_seen_ms e k \<and>
     de_currently_timed_out e' k = de_currently_timed_out e k \<and> stats_at e' k = stats_at e k"

lemma same_at_rel: "same_at k e e' \<Longrightarrow> mon_rel e k mo \<Longrightarrow> mon_rel e' k mo"
  by (simp add: same_at_def mon_rel_def)

lemma same_at_refl: "same_at k e e"
  by (simp add: same_at_def)

lemma same_at_trans: "same_at k e e' \<Longrightarrow> same_at k e' e'' \<Longrightarrow> same_at k e e''"
  by (simp add: same_at_def)

lemma stats_at_update [simp]:
  "stats_at (update_stats k f e) k' = (if k' = k then f (stats_at e k) else stats_at e k')"
  "de_last_counter (update_stats k f e) = de_last_counter e"
  "de_last_seen_ms (update_stats k f e) = de_last_seen_ms e"
  "de_currently_timed_out (update_stats k f e) = de_currently_timed_out e"
  by (simp_all add: update_stats_def stats_at_def)

lemma stats_at_others [simp]:
  "stats_at (e\<lparr>de_last_counter := m1\<rparr>) = stats_at e"
  "stats_at (e\<lparr>de_last_seen_ms := m2\<rparr>) = stats_at e"
  "stats_at (e\<lparr>de_currently_timed_out := m3\<rparr>) = stats_at e"
  "stats_at (e\<lparr>de_unknown_frame_count := n\<rparr>) = stats_at e"
  by (simp_all add: stats_at_def fun_eq_iff)

section \<open>The counter check\<close>

lemma u64_to_int_small: "uint (w :: u64) < 2 ^ 31 \<Longrightarrow> u64_to_int w = uint w"
proof -
  assume b: "uint w < 2 ^ 31"
  have u: "uint (ucast w :: u32) = uint w"
    using b by (subst unsigned_ucast_eq) (simp add: take_bit_int_eq_self)
  show ?thesis unfolding u64_to_int_def sint_uint u
    using b by (intro signed_take_bit_int_eq_self) (simp_all add: order_trans [OF _ uint_ge_0])
qed

lemma field_small:
  assumes "n \<le> 30"
  shows "uint (field_spec order s n data) < 2 ^ 30" "u64_to_int (field_spec order s n data) = uint (field_spec order s n data)"
proof -
  define w where "w = field_spec order s n data"
  have "unat w < 2 ^ n" unfolding w_def by (rule field_spec_less)
  also have "(2::nat) ^ n \<le> 2 ^ 30" using assms by (intro power_increasing) simp_all
  finally have u: "unat w < 2 ^ 30" .
  then have "int (unat w) < int (2 ^ 30)" by (simp only: of_nat_less_iff)
  then show b: "uint w < 2 ^ 30" by simp
  then show "u64_to_int w = uint w" by (intro u64_to_int_small) simp
qed

lemma counter_check_step:
  assumes "msg_ok msg" and "payload_ok (rf_data f)" and "mon_rel e (md_id msg) mo" and "mon_ok mo"
  shows "\<exists>as e'. counter_check msg f e = Inr (as, e') \<and>
     map an_kind as = (if counter_gap msg f (mo_counter mo) then [CounterGap] else []) \<and>
     (\<forall>a \<in> set as. an_can_id a = md_id msg) \<and>
     mon_rel e' (md_id msg) (mo\<lparr>mo_counter := (case counter_of msg f of None \<Rightarrow> mo_counter mo | Some c \<Rightarrow> Some c),
       mo_gaps := mo_gaps mo + of_bool (counter_gap msg f (mo_counter mo))\<rparr>) \<and>
     (\<forall>k. k \<noteq> md_id msg \<longrightarrow> same_at k e e')"
proof (cases "findSignal msg ''counter''")
  case None
  then show ?thesis using assms(3)
    by (simp add: counter_check_def counter_gap_def counter_of_def same_at_refl)
next
  case (Some s)
  then have s: "0 \<le> sd_start_bit s" "sd_start_bit s + sd_length s \<le> 2 ^ 31" "nat (sd_length s) \<le> 30"
    using assms(1) by (auto simp: msg_ok_def counter_layout_ok_def)
  define w where "w = field_spec (md_byte_order msg) (nat (sd_start_bit s)) (nat (sd_length s)) (rf_data f)"
  have raw: "extractRaw (rf_data f) s (md_byte_order msg) = Inr w"
    unfolding w_def by (rule extractRaw_eq [OF assms(2) s(1,2)])
  have conv: "u64_to_int w = uint w" unfolding w_def by (rule field_small [OF s(3)])
  have c: "counter_of msg f = Some (uint w)" by (simp add: counter_of_def Some w_def)
  show ?thesis
  proof (cases "mo_counter mo")
    case None
    then show ?thesis using assms(3)
      by (simp add: counter_check_def Some raw conv c counter_gap_def mon_rel_def Let_def same_at_def)
  next
    case (Some p)
    then have p: "0 \<le> p" "p < 2 ^ 30" using assms(4) by (simp_all add: mon_ok_def)
    then have add: "int_add p 1 = Inr (p + 1)" and mod: "trunc_mod (p + 1) 16 = (p + 1) mod 16"
      by (simp_all add: int_add_def trunc_mod_nonneg)
    show ?thesis using assms(3) Some
      by (auto simp: counter_check_def \<open>findSignal msg ''counter'' = Some s\<close> raw conv c counter_gap_def
          mon_rel_def Let_def same_at_def add mod)
  qed
qed

section \<open>The checksum check\<close>

lemma checksum_loop_eq:
  assumes "length data = 8" and "0 \<le> idx" and "idx < 8"
  shows "\<exists>c. checksum_loop data idx [0..7] 0 = Inr c \<and> (c \<noteq> data ! nat idx \<longleftrightarrow> xor_bytes data \<noteq> 0)"
proof -
  obtain b0 b1 b2 b3 b4 b5 b6 b7 where d: "data = [b0, b1, b2, b3, b4, b5, b6, b7]"
    using assms(1) by (auto simp: numeral_eq_Suc length_Suc_conv)
  have up: "[0..7] = [0, 1, 2, 3, 4, 5, 6, 7 :: int]" by (simp add: upto.simps)
  consider "idx = 0" | "idx = 1" | "idx = 2" | "idx = 3" | "idx = 4" | "idx = 5" | "idx = 6" | "idx = 7"
    using assms(2,3) by linarith
  then have "\<exists>c. checksum_loop data idx [0..7] 0 = Inr c \<and> c XOR data ! nat idx = xor_bytes data"
    unfolding up d xor_bytes_def by cases (simp_all add: array_get_def ac_simps)
  then obtain c where "checksum_loop data idx [0..7] 0 = Inr c" "c XOR data ! nat idx = xor_bytes data" by blast
  then show ?thesis by (metis xor_eq_0_word)
qed

lemma checksum_check_step:
  assumes "msg_ok msg" and "payload_ok (rf_data f)" and "mon_rel e (md_id msg) mo"
  shows "\<exists>as e'. checksum_check msg f e = Inr (as, e') \<and>
     map an_kind as = (if checksum_fine msg f then [] else [ChecksumMismatch]) \<and>
     (\<forall>a \<in> set as. an_can_id a = md_id msg) \<and>
     mon_rel e' (md_id msg) (mo\<lparr>mo_bad := mo_bad mo + of_bool (\<not> checksum_fine msg f)\<rparr>) \<and>
     (\<forall>k. k \<noteq> md_id msg \<longrightarrow> same_at k e e')"
proof (cases "findSignal msg ''checksum''")
  case None
  then show ?thesis using assms(3) by (simp add: checksum_check_def checksum_fine_def same_at_refl)
next
  case (Some s)
  define idx where "idx = sd_start_bit s div 8"
  have s: "0 \<le> idx" "idx < 8" "trunc_div (sd_start_bit s) 8 = idx"
    using assms(1) Some by (auto simp: msg_ok_def checksum_layout_ok_def idx_def trunc_div_nonneg)
  have len: "length (rf_data f) = 8" using assms(2) by (simp add: payload_ok_def)
  obtain c where c: "checksum_loop (rf_data f) idx [0..7] 0 = Inr c"
      "c \<noteq> rf_data f ! nat idx \<longleftrightarrow> xor_bytes (rf_data f) \<noteq> 0"
    using checksum_loop_eq [OF len s(1,2)] by blast
  have get: "array_get (rf_data f) idx = Inr (rf_data f ! nat idx)" using s len by (simp add: array_get_def)
  show ?thesis
  proof (cases "xor_bytes (rf_data f) = 0")
    case True
    then show ?thesis using c assms(3)
      by (simp add: checksum_check_def checksum_fine_def Some s(3) get Let_def same_at_refl)
  next
    case False
    then show ?thesis using c assms(3)
      by (simp add: checksum_check_def checksum_fine_def Some s(3) get Let_def same_at_def mon_rel_def)
  qed
qed

lemma known_frame_step:
  assumes "msg_ok msg" and "payload_ok (rf_data f)" and "mon_rel e (md_id msg) mo" and "mon_ok mo"
  shows "\<exists>as e'. onKnownFrame msg f e = Inr (as, e') \<and>
     map an_kind as = fst (mon_frame msg f mo) \<and>
     (\<forall>a \<in> set as. an_can_id a = md_id msg) \<and>
     mon_rel e' (md_id msg) (snd (mon_frame msg f mo)) \<and>
     (\<forall>k. k \<noteq> md_id msg \<longrightarrow> same_at k e e')"
proof -
  let ?k = "md_id msg"
  define e1 where "e1 = update_stats ?k (\<lambda>st. st\<lparr>ms_frames_received := ms_frames_received st + 1\<rparr>) e"
  define mo1 where "mo1 = mo\<lparr>mo_frames := mo_frames mo + 1\<rparr>"
  have r1: "mon_rel e1 ?k mo1" "mon_ok mo1" and s1: "\<And>k. k \<noteq> ?k \<Longrightarrow> same_at k e e1"
    using assms(3,4) by (simp_all add: mon_rel_def mon_ok_def e1_def mo1_def same_at_def)
  obtain as2 e2 where 2: "counter_check msg f e1 = Inr (as2, e2)"
      "map an_kind as2 = (if counter_gap msg f (mo_counter mo1) then [CounterGap] else [])"
      "\<forall>a \<in> set as2. an_can_id a = ?k" "\<forall>k. k \<noteq> ?k \<longrightarrow> same_at k e1 e2"
    and r2: "mon_rel e2 ?k (mo1\<lparr>mo_counter := (case counter_of msg f of None \<Rightarrow> mo_counter mo1 | Some c \<Rightarrow> Some c),
       mo_gaps := mo_gaps mo1 + of_bool (counter_gap msg f (mo_counter mo1))\<rparr>)" (is "mon_rel e2 ?k ?mo2")
    using counter_check_step [OF assms(1,2) r1] by blast
  obtain as3 e3 where 3: "checksum_check msg f e2 = Inr (as3, e3)"
      "map an_kind as3 = (if checksum_fine msg f then [] else [ChecksumMismatch])"
      "\<forall>a \<in> set as3. an_can_id a = ?k" "\<forall>k. k \<noteq> ?k \<longrightarrow> same_at k e2 e3"
    and r3: "mon_rel e3 ?k (?mo2\<lparr>mo_bad := mo_bad ?mo2 + of_bool (\<not> checksum_fine msg f)\<rparr>)"
    using checksum_check_step [OF assms(1,2) r2] by blast
  define e4 where "e4 = e3\<lparr>de_last_seen_ms := (de_last_seen_ms e3)(?k \<mapsto> rf_timestamp_ms f),
                de_currently_timed_out := (de_currently_timed_out e3)(?k \<mapsto> False)\<rparr>"
  have run: "onKnownFrame msg f e = Inr (as2 @ as3, e4)"
    by (simp add: onKnownFrame_def Let_def 2(1) 3(1) e4_def flip: e1_def)
  have kinds: "map an_kind (as2 @ as3) = fst (mon_frame msg f mo)"
    by (simp add: 2(2) 3(2) mon_frame_def Let_def mo1_def)
  have rel: "mon_rel e4 ?k (snd (mon_frame msg f mo))"
    using r3 by (cases "counter_of msg f") (simp_all add: mon_rel_def e4_def mon_frame_def Let_def mo1_def)
  have "same_at k e e4" if "k \<noteq> ?k" for k
    using s1 [OF that] 2(4) 3(4) that by (simp add: same_at_def e4_def)
  with run kinds rel 2(3) 3(3) show ?thesis by (auto simp del: map_append)
qed

section \<open>Timeout polls\<close>

lemma threshold_exact:
  assumes "msg_ok msg"
  shows "dfinite (timeout_threshold msg) \<and> dval (timeout_threshold msg) = of_int (3 * md_period_ms msg)"
proof -
  have p: "\<bar>md_period_ms msg\<bar> \<le> 2 ^ 31" using assms by (auto simp: msg_ok_def)
  then have "dfinite (of_integer (md_period_ms msg)) \<and> dval (of_integer (md_period_ms msg)) = of_int (md_period_ms msg)"
    by (intro of_integer_exact) simp
  moreover have "dfinite kTimeoutMultiplier \<and> dval kTimeoutMultiplier = of_int 3"
    unfolding kTimeoutMultiplier_def by (rule of_integer_exact) simp
  moreover have "representable \<bar>of_int (md_period_ms msg * 3)\<bar>" using p by (intro representable_of_int) simp
  ultimately show ?thesis
    using dmul_exact [of "of_integer (md_period_ms msg)" kTimeoutMultiplier]
    by (simp add: timeout_threshold_def mult.commute)
qed

lemma late_exact:
  assumes "msg_ok msg" and "\<bar>d\<bar> < 2 ^ 64"
  shows "dless (timeout_threshold msg) (of_integer d) \<longleftrightarrow> 3 * md_period_ms msg < d"
proof -
  have p: "\<bar>3 * md_period_ms msg\<bar> < 2 ^ 53" using assms by (auto simp: msg_ok_def)
  from of_integer_finite [OF assms(2)] have "dless (timeout_threshold msg) (of_integer d) \<longleftrightarrow> dless (of_integer (3 * md_period_ms msg)) (of_integer d)"
    using threshold_exact [OF assms(1)] of_integer_exact [OF p] by (simp add: dless_dval)
  then show ?thesis using dless_of_integer [OF p assms(2)] by simp
qed

text \<open>The time since the last frame, as the engine computes it: a value for never seen messages too.\<close>

definition since_last :: "int \<Rightarrow> int option \<Rightarrow> int" where
  "since_last now seen = (case seen of None \<Rightarrow> 10 ^ 18 | Some t \<Rightarrow> now - t)"

lemma since_last_range:
  assumes "time_ok now" and "case seen of None \<Rightarrow> True | Some t \<Rightarrow> time_ok t"
  shows "\<bar>since_last now seen\<bar> < 2 ^ 62"
    and "cast_long (of_integer (since_last now seen)) = Inr (since_last now seen)"
proof -
  have d: "\<bar>now - t\<bar> < 2 ^ 53" if "time_ok t" for t
    using assms(1) that by (auto simp: time_ok_def abs_less_iff)
  show "\<bar>since_last now seen\<bar> < 2 ^ 62"
    using assms(2) d by (cases seen) (fastforce simp: since_last_def)+
  show "cast_long (of_integer (since_last now seen)) = Inr (since_last now seen)"
  proof (cases seen)
    case None
    have "dval (of_integer (10 ^ 18)) = of_int (10 ^ 18)" unfolding never_seen by (simp add: power_int_def)
    then show ?thesis unfolding since_last_def None option.case
      using of_integer_finite [of "10 ^ 18"] by (intro cast_long_exact) simp_all
  next
    case (Some t)
    then have "\<bar>now - t\<bar> < 2 ^ 53" using assms(2) d by simp
    then show ?thesis unfolding since_last_def Some option.case
      using of_integer_exact [of "now - t"] by (intro cast_long_exact) auto
  qed
qed

lemma is_late_since: "msg_ok msg \<Longrightarrow> is_late msg now seen \<longleftrightarrow> 3 * md_period_ms msg < since_last now seen"
  by (cases seen) (auto simp: is_late_def since_last_def msg_ok_def)

lemma check_timeout_step:
  assumes "msg_ok msg" and "mon_rel e k mo" and "mon_ok mo" and "time_ok now"
  shows "\<exists>as e'. check_timeout now k msg e = Inr (as, e') \<and>
     map an_kind as = fst (mon_poll msg now mo) \<and> (\<forall>a \<in> set as. an_can_id a = k) \<and>
     mon_rel e' k (snd (mon_poll msg now mo)) \<and> (\<forall>k'. k' \<noteq> k \<longrightarrow> same_at k' e e')"
proof -
  define d where "d = since_last now (mo_seen mo)"
  have seen: "case mo_seen mo of None \<Rightarrow> True | Some t \<Rightarrow> time_ok t" using assms(3) by (simp add: mon_ok_def)
  note range = since_last_range [OF assms(4) seen, folded d_def]
  have since: "(case de_last_seen_ms e k of None \<Rightarrow> Inr (of_integer (10 ^ 18))
      | Some t \<Rightarrow> rbind (long_sub now t) (\<lambda>x. Inr (of_integer x))) = Inr (of_integer d)"
    using assms(2) range(1) by (cases "mo_seen mo") (auto simp: mon_rel_def d_def since_last_def long_sub_def long_check_def)
  have late: "dless (timeout_threshold msg) (of_integer d) = is_late msg now (mo_seen mo)"
    using late_exact [OF assms(1), of d] range(1) by (simp add: is_late_since [OF assms(1)] d_def)
  have thr: "cast_long (timeout_threshold msg) = Inr (3 * md_period_ms msg)"
    using threshold_exact [OF assms(1)] assms(1) by (intro cast_long_exact) (auto simp: msg_ok_def)
  show ?thesis
  proof (cases "is_late msg now (mo_seen mo) \<and> \<not> mo_late mo")
    case True
    then show ?thesis using assms(2)
      unfolding check_timeout_def since by (simp add: late Let_def range(2) thr mon_rel_def mon_poll_def same_at_def)
  next
    case False
    then show ?thesis using assms(2)
      unfolding check_timeout_def since by (auto simp: late Let_def mon_rel_def mon_poll_def same_at_def)
  qed
qed

lemma check_timeouts_step:
  assumes "distinct (map fst db)" and "time_ok now"
    and "\<forall>(k, m) \<in> set db. msg_ok m \<and> mon_rel e k (mo k) \<and> mon_ok (mo k)"
  shows "\<exists>as e'. checkTimeouts now db e = Inr (as, e') \<and>
     (\<forall>(k, m) \<in> set db. map an_kind (filter (\<lambda>a. an_can_id a = k) as) = fst (mon_poll m now (mo k)) \<and>
        mon_rel e' k (snd (mon_poll m now (mo k)))) \<and>
     (\<forall>a \<in> set as. an_can_id a \<in> fst ` set db) \<and>
     (\<forall>k. k \<notin> fst ` set db \<longrightarrow> same_at k e e')"
  using assms
proof (induction db arbitrary: e)
  case Nil
  then show ?case by (simp add: same_at_refl)
next
  case (Cons p db)
  obtain k m where p: "p = (k, m)" by (cases p)
  from Cons.prems p have m: "msg_ok m" "mon_rel e k (mo k)" "mon_ok (mo k)" and nk: "k \<notin> fst ` set db" by auto
  obtain as1 e1 where 1: "check_timeout now k m e = Inr (as1, e1)" "map an_kind as1 = fst (mon_poll m now (mo k))"
      "\<forall>a \<in> set as1. an_can_id a = k" "mon_rel e1 k (snd (mon_poll m now (mo k)))"
      "\<forall>k'. k' \<noteq> k \<longrightarrow> same_at k' e e1"
    using check_timeout_step [OF m Cons.prems(2)] by blast
  have keys: "k' \<noteq> k" if "(k', m') \<in> set db" for k' m' using nk that by force
  have "\<forall>(k', m') \<in> set db. msg_ok m' \<and> mon_rel e1 k' (mo k') \<and> mon_ok (mo k')"
    using Cons.prems(3) 1(5) keys same_at_rel by (fastforce simp: p)
  then obtain as2 e2 where 2: "checkTimeouts now db e1 = Inr (as2, e2)"
      "\<forall>(k, m) \<in> set db. map an_kind (filter (\<lambda>a. an_can_id a = k) as2) = fst (mon_poll m now (mo k)) \<and>
        mon_rel e2 k (snd (mon_poll m now (mo k)))"
      "\<forall>a \<in> set as2. an_can_id a \<in> fst ` set db" "\<forall>k. k \<notin> fst ` set db \<longrightarrow> same_at k e1 e2"
    using Cons.IH [of e1] Cons.prems(1,2) by auto
  have run: "checkTimeouts now (p # db) e = Inr (as1 @ as2, e2)" by (simp add: p 1(1) 2(1))
  have f1: "filter (\<lambda>a. an_can_id a = k) as1 = as1" "filter (\<lambda>a. an_can_id a = k) as2 = []"
    using 1(3) 2(3) nk by (auto simp: filter_id_conv filter_empty_conv)
  have f2: "filter (\<lambda>a. an_can_id a = k') as1 = []" if "k' \<noteq> k" for k'
    using 1(3) that by (auto simp: filter_empty_conv)
  have "mon_rel e2 k (snd (mon_poll m now (mo k)))" using 2(4) nk 1(4) same_at_rel by blast
  moreover have "same_at k' e e2" if "k' \<notin> fst ` set (p # db)" for k'
    using that 1(5) 2(4) p by (auto intro: same_at_trans)
  ultimately show ?case
    unfolding run using 1(2) 2(2,3) 1(3) f1 f2 keys by (fastforce simp: p)
qed

section \<open>The whole run\<close>

lemma counter_of_range: "msg_ok m \<Longrightarrow> counter_of m f = Some c \<Longrightarrow> 0 \<le> c \<and> c < 2 ^ 30"
  using field_small(1) by (auto simp: counter_of_def msg_ok_def counter_layout_ok_def)

lemma mon_ok_step: "msg_ok m \<Longrightarrow> ev_ok ev \<Longrightarrow> mon_ok mo \<Longrightarrow> mon_ok (snd (mon_step m k ev mo))"
proof (cases ev)
  case (Frame f)
  assume "msg_ok m" "ev_ok ev" "mon_ok mo"
  then show ?thesis using counter_of_range [of m f]
    by (cases "counter_of m f") (auto simp: Frame mon_frame_def mon_ok_def Let_def)
qed (auto simp: mon_poll_def mon_ok_def Let_def)

lemma db_okD:
  assumes "db_ok db"
  shows "distinct (map fst db)" and "(k, m) \<in> set db \<Longrightarrow> md_id m = k" and "(k, m) \<in> set db \<Longrightarrow> msg_ok m"
    and "db_find db k = Some m \<longleftrightarrow> (k, m) \<in> set db" and "(k, m) \<in> set db \<Longrightarrow> (k, m') \<in> set db \<Longrightarrow> m' = m"
proof -
  show d: "distinct (map fst db)"
    using assms by (simp add: db_ok_def std_ordered_def strict_sorted_iff)
  show "(k, m) \<in> set db \<Longrightarrow> md_id m = k" "(k, m) \<in> set db \<Longrightarrow> msg_ok m"
    using assms by (auto simp: db_ok_def)
  show "db_find db k = Some m \<longleftrightarrow> (k, m) \<in> set db"
    unfolding db_find_def by (rule std_find_iff) (use assms in \<open>simp add: db_ok_def\<close>)
  show "(k, m) \<in> set db \<Longrightarrow> (k, m') \<in> set db \<Longrightarrow> m' = m"
    using d by (metis map_of_is_SomeI option.inject)
qed

definition all_related :: "dbc_database \<Rightarrow> engine \<Rightarrow> (u32 \<Rightarrow> monitor) \<Rightarrow> bool" where
  "all_related db e mo \<longleftrightarrow> (\<forall>(k, m) \<in> set db. mon_rel e k (mo k) \<and> mon_ok (mo k))"

definition is_unknown :: "dbc_database \<Rightarrow> diag_event \<Rightarrow> bool" where
  "is_unknown db ev = (case ev of Frame f \<Rightarrow> db_find db (rf_can_id f) = None | Poll _ \<Rightarrow> False)"

lemma engine_step:
  assumes "db_ok db" and "ev_ok ev" and "all_related db e mo"
  shows "\<exists>as e'. diag_step db ev e = Inr (as, e') \<and>
     (\<forall>(k, m) \<in> set db. map an_kind (filter (\<lambda>a. an_can_id a = k) as) = fst (mon_step m k ev (mo k)) \<and>
        mon_rel e' k (snd (mon_step m k ev (mo k))))"
proof (cases ev)
  case (Poll now)
  have "\<forall>(k, m) \<in> set db. msg_ok m \<and> mon_rel e k (mo k) \<and> mon_ok (mo k)"
    using assms(3) db_okD(3) [OF assms(1)] by (auto simp: all_related_def)
  from check_timeouts_step [OF db_okD(1) [OF assms(1)] _ this, of now] assms(2)
  show ?thesis by (auto simp: Poll)
next
  case (Frame f)
  show ?thesis
  proof (cases "db_find db (rf_can_id f)")
    case None
    define e' where "e' = snd (onUnknownFrame f e)"
    have nk: "(rf_can_id f, m) \<notin> set db" for m
      using None db_okD(4) [OF assms(1), of "rf_can_id f" m] by simp
    have "same_at k e e'" for k by (simp add: e'_def onUnknownFrame_def same_at_def)
    then have "mon_rel e' k (mo k)" if "(k, m) \<in> set db" for k m
      using that assms(3) same_at_rel by (fastforce simp: all_related_def)
    moreover have "an_can_id (fst (onUnknownFrame f e)) = rf_can_id f" by (simp add: onUnknownFrame_def)
    moreover have "diag_step db ev e = Inr ([fst (onUnknownFrame f e)], e')"
      by (simp add: Frame None e'_def case_prod_unfold Let_def)
    moreover have "k \<noteq> rf_can_id f" if "(k, m) \<in> set db" for k m using that nk by blast
    ultimately show ?thesis by (auto simp: Frame)
  next
    case (Some msg)
    then have mem: "(rf_can_id f, msg) \<in> set db" using db_okD(4) [OF assms(1)] by blast
    then have id: "md_id msg = rf_can_id f" and ok: "msg_ok msg" using db_okD [OF assms(1)] by auto
    have rel: "mon_rel e (md_id msg) (mo (rf_can_id f))" "mon_ok (mo (rf_can_id f))"
      using mem assms(3) by (auto simp: all_related_def id)
    have pl: "payload_ok (rf_data f)" using assms(2) by (simp add: Frame)
    obtain as e' where r: "onKnownFrame msg f e = Inr (as, e')"
        "map an_kind as = fst (mon_frame msg f (mo (rf_can_id f)))"
        "\<forall>a \<in> set as. an_can_id a = rf_can_id f"
        "mon_rel e' (rf_can_id f) (snd (mon_frame msg f (mo (rf_can_id f))))"
        "\<forall>k. k \<noteq> rf_can_id f \<longrightarrow> same_at k e e'"
      using known_frame_step [OF ok pl rel] unfolding id by blast
    have own: "filter (\<lambda>a. an_can_id a = rf_can_id f) as = as" using r(3) by (simp add: filter_id_conv)
    have other: "filter (\<lambda>a. an_can_id a = k) as = []" if "k \<noteq> rf_can_id f" for k
      using r(3) that by (auto simp: filter_empty_conv)
    have "map an_kind (filter (\<lambda>a. an_can_id a = k) as) = fst (mon_step m k ev (mo k)) \<and>
        mon_rel e' k (snd (mon_step m k ev (mo k)))" if "(k, m) \<in> set db" for k m
    proof (cases "k = rf_can_id f")
      case True
      then have "m = msg" using that mem db_okD(5) [OF assms(1)] by blast
      then show ?thesis using True r own by (simp add: Frame)
    next
      case False
      then have "mon_rel e' k (mo k)" using r(5) that assms(3) same_at_rel by (fastforce simp: all_related_def)
      then show ?thesis using False other by (auto simp: Frame)
    qed
    moreover have "diag_step db ev e = Inr (as, e')" by (simp add: Frame Some r(1))
    ultimately show ?thesis by blast
  qed
qed

lemma engine_run:
  assumes "db_ok db" and "\<forall>ev \<in> set evs. ev_ok ev" and "all_related db e mo"
  shows "\<exists>as e'. diag_run db evs e = Inr (as, e') \<and>
     (\<forall>(k, m) \<in> set db. map an_kind (filter (\<lambda>a. an_can_id a = k) as) = fst (mon_run m k evs (mo k)) \<and>
        mon_rel e' k (snd (mon_run m k evs (mo k))) \<and> mon_ok (snd (mon_run m k evs (mo k))))"
  using assms(2,3)
proof (induction evs arbitrary: e mo)
  case Nil
  then show ?case by (simp add: all_related_def)
next
  case (Cons ev evs)
  obtain as1 e1 where 1: "diag_step db ev e = Inr (as1, e1)"
      "\<forall>(k, m) \<in> set db. map an_kind (filter (\<lambda>a. an_can_id a = k) as1) = fst (mon_step m k ev (mo k)) \<and>
        mon_rel e1 k (snd (mon_step m k ev (mo k)))"
    using engine_step [OF assms(1) _ Cons.prems(2), of ev] Cons.prems(1) by auto
  define mo1 where "mo1 k = snd (mon_step (the (db_find db k)) k ev (mo k))" for k
  have find: "the (db_find db k) = m" if "(k, m) \<in> set db" for k m
    using that db_okD(4) [OF assms(1)] by (metis option.sel)
  have "all_related db e1 mo1"
    using 1(2) mon_ok_step [of _ ev] db_okD(3) [OF assms(1)] Cons.prems find
    by (fastforce simp: all_related_def mo1_def)
  then obtain as2 e2 where 2: "diag_run db evs e1 = Inr (as2, e2)"
     "\<forall>(k, m) \<in> set db. map an_kind (filter (\<lambda>a. an_can_id a = k) as2) = fst (mon_run m k evs (mo1 k)) \<and>
        mon_rel e2 k (snd (mon_run m k evs (mo1 k))) \<and> mon_ok (snd (mon_run m k evs (mo1 k)))"
    using Cons.IH [of e1 mo1] Cons.prems(1) by auto
  have "map an_kind (filter (\<lambda>a. an_can_id a = k) (as1 @ as2)) = fst (mon_run m k (ev # evs) (mo k)) \<and>
        mon_rel e2 k (snd (mon_run m k (ev # evs) (mo k))) \<and> mon_ok (snd (mon_run m k (ev # evs) (mo k)))"
    if km: "(k, m) \<in> set db" for k m
  proof -
    have "mo1 k = snd (mon_step m k ev (mo k))" by (simp add: mo1_def find [OF km])
    then show ?thesis using bspec [OF 1(2) km] bspec [OF 2(2) km] by (simp add: case_prod_unfold Let_def)
  qed
  moreover have "diag_run db (ev # evs) e = Inr (as1 @ as2, e2)" by (simp add: 1(1) 2(1))
  ultimately show ?case by blast
qed

lemma new_engine_related: "all_related db new_engine (\<lambda>_. idle_monitor)"
  by (auto simp: all_related_def mon_rel_def mon_ok_def new_engine_def idle_monitor_def stats_at_def
      zero_message_stats_def)

end
