(* ===== verification/Diagnostics_Props.thy ===== *)
theory Diagnostics_Props
  imports Diagnostics_Spec
begin

text \<open>
  The properties of the diagnostics engine, read off the per-message monitors: closed forms of the
  fault counters, one timeout report per silence, detection of every corrupted byte, the answer of
  the live query, and the unchecked checksum index. A small database and trace serve as examples.
\<close>

section \<open>Closed forms of the monitor\<close>

fun frames_of :: "u32 \<Rightarrow> diag_event list \<Rightarrow> raw_frame list" where
  "frames_of k [] = []"
| "frames_of k (Frame f # evs) = (if rf_can_id f = k then f # frames_of k evs else frames_of k evs)"
| "frames_of k (Poll _ # evs) = frames_of k evs"

fun polls :: "diag_event list \<Rightarrow> int list" where
  "polls [] = []"
| "polls (Frame _ # evs) = polls evs"
| "polls (Poll t # evs) = t # polls evs"

text \<open>The number of neighbours in a counter sequence that do not follow each other modulo 16.\<close>

fun gaps :: "int list \<Rightarrow> nat" where
  "gaps (p # c # cs) = of_bool (c \<noteq> (p + 1) mod 16) + gaps (c # cs)"
| "gaps _ = 0"

definition counters :: "message_def \<Rightarrow> raw_frame list \<Rightarrow> int list" where
  "counters m fs = List.map_filter (counter_of m) fs"

lemma counters_simps [simp]:
  "counters m [] = []"
  "counters m (f # fs) = (case counter_of m f of None \<Rightarrow> counters m fs | Some c \<Rightarrow> c # counters m fs)"
  by (simp_all add: counters_def map_filter_def split: option.split)

lemma mon_run_Cons [simp]:
  "fst (mon_run m k (ev # evs) mo) = fst (mon_step m k ev mo) @ fst (mon_run m k evs (snd (mon_step m k ev mo)))"
  "snd (mon_run m k (ev # evs) mo) = snd (mon_run m k evs (snd (mon_step m k ev mo)))"
  by (simp_all add: case_prod_unfold Let_def)

lemmas mon_defs = mon_frame_def mon_poll_def Let_def

lemma mon_run_frames:
  "mo_frames (snd (mon_run m k evs mo)) = mo_frames mo + length (frames_of k evs) \<and>
   mo_bad (snd (mon_run m k evs mo)) = mo_bad mo + length (filter (\<lambda>f. \<not> checksum_fine m f) (frames_of k evs))"
  by (induction k evs arbitrary: mo rule: frames_of.induct) (simp_all add: mon_defs del: mon_run.simps(2))

lemma mon_run_gaps:
  "mo_gaps (snd (mon_run m k evs mo)) =
     mo_gaps mo + gaps ((case mo_counter mo of None \<Rightarrow> [] | Some p \<Rightarrow> [p]) @ counters m (frames_of k evs))"
proof (induction k evs arbitrary: mo rule: frames_of.induct)
  case (2 k f evs)
  then show ?case
    by (cases "counter_of m f"; cases "mo_counter mo")
       (simp_all add: mon_defs counter_gap_def del: mon_run.simps(2))
qed (simp_all add: mon_defs del: mon_run.simps(2) split: option.split)

lemma mon_run_silence:
  assumes "frames_of k evs = []" and "sorted (lo # polls evs)" and "mo_seen mo = Some t"
    and "mo_late mo \<Longrightarrow> 3 * md_period_ms m < lo - t"
  shows "fst (mon_run m k evs mo) =
     (if \<not> mo_late mo \<and> (\<exists>now \<in> set (polls evs). 3 * md_period_ms m < now - t) then [Timeout] else [])"
  using assms
proof (induction k evs arbitrary: mo lo rule: frames_of.induct)
  case (2 k f evs)
  then have k: "rf_can_id f \<noteq> k" by (auto split: if_splits)
  with 2 have "fst (mon_run m k evs mo) =
     (if \<not> mo_late mo \<and> (\<exists>now \<in> set (polls evs). 3 * md_period_ms m < now - t) then [Timeout] else [])"
    by (intro "2.IH" [of lo]) simp_all
  then show ?case using k by (simp del: mon_run.simps(2))
next
  case (3 k now evs)
  define mo' where "mo' = snd (mon_poll m now mo)"
  have mo': "mo_seen mo' = Some t" "mo_late mo' \<longleftrightarrow> 3 * md_period_ms m < now - t"
    using "3.prems"(3) by (simp_all add: mo'_def mon_defs is_late_def)
  have IH: "fst (mon_run m k evs mo') =
     (if \<not> mo_late mo' \<and> (\<exists>now \<in> set (polls evs). 3 * md_period_ms m < now - t) then [Timeout] else [])"
    using "3.prems" mo' by (intro "3.IH" [of now]) auto
  have mono: "3 * md_period_ms m < now' - t" if "3 * md_period_ms m < now - t" "now' \<in> set (polls evs)" for now'
    using that "3.prems"(2) by fastforce
  have lo: "mo_late mo \<Longrightarrow> 3 * md_period_ms m < now - t" using "3.prems"(2,4) by fastforce
  have run: "fst (mon_run m k (Poll now # evs) mo) = fst (mon_poll m now mo) @ fst (mon_run m k evs mo')"
    by (simp add: mo'_def del: mon_run.simps(2))
  have poll: "fst (mon_poll m now mo) = (if 3 * md_period_ms m < now - t \<and> \<not> mo_late mo then [Timeout] else [])"
    using "3.prems"(3) by (simp add: mon_defs is_late_def)
  show ?case unfolding run poll IH mo'(2) using mono lo by auto
qed simp

section \<open>A sample database\<close>

definition sample_signal :: "string \<Rightarrow> int \<Rightarrow> int \<Rightarrow> signal_def" where
  "sample_signal name start len = default_signal\<lparr>sd_name := name, sd_start_bit := start, sd_length := len\<rparr>"

definition engine_data :: message_def where
  "engine_data = \<lparr>md_id = 0x180, md_name = ''EngineData'', md_period_ms = 20, md_byte_order = Intel,
     md_signals = [sample_signal ''checksum'' 24 8, sample_signal ''counter'' 16 4]\<rparr>"

definition sample_db :: dbc_database where "sample_db = [(0x180, engine_data)]"

definition engine_frame :: "int \<Rightarrow> u8 \<Rightarrow> u8 \<Rightarrow> raw_frame" where
  "engine_frame t c k = \<lparr>rf_timestamp_ms = t, rf_can_id = 0x180,
     rf_data = [0x9C, 0x0C, c, k, 0, 0, 0, 0], rf_dlc = 8\<rparr>"

lemma sample_db_ok: "db_ok sample_db"
  by (simp add: db_ok_def sample_db_def engine_data_def msg_ok_def findSignal_def sample_signal_def
      default_signal_def counter_layout_ok_def checksum_layout_ok_def)

lemma engine_frame_ok: "0 \<le> t \<Longrightarrow> t < 2 ^ 52 \<Longrightarrow> ev_ok (Frame (engine_frame t c k))"
  by (simp add: engine_frame_def payload_ok_def time_ok_def)

lemma engine_frame_simps [simp]:
  "rf_can_id (engine_frame t c k) = 0x180" "rf_timestamp_ms (engine_frame t c k) = t"
  by (simp_all add: engine_frame_def)

lemma engine_data_signals:
  "findSignal engine_data ''counter'' = Some (sample_signal ''counter'' 16 4)"
  "findSignal engine_data ''checksum'' = Some (sample_signal ''checksum'' 24 8)"
  "md_byte_order engine_data = Intel" "md_period_ms engine_data = 20" "md_id engine_data = 0x180"
  by (simp_all add: engine_data_def findSignal_def sample_signal_def)

lemma sample_signal_layout [simp]:
  "sd_start_bit (sample_signal n s l) = s" "sd_length (sample_signal n s l) = l"
  by (simp_all add: sample_signal_def default_signal_def)

definition sample_trace :: "diag_event list" where
  "sample_trace = [Poll 0, Frame (engine_frame 5 0 0x90), Frame (engine_frame 25 2 0x92),
     Frame (engine_frame 45 3 0x55), Poll 100, Poll 106, Poll 200]"

lemma sample_trace_ok: "\<forall>ev \<in> set sample_trace. ev_ok ev"
  by (simp add: sample_trace_def engine_frame_def payload_ok_def time_ok_def)

lemma sample_counters:
  "counter_of engine_data (engine_frame t 0 k) = Some 0"
  "counter_of engine_data (engine_frame t 2 k) = Some 2"
  "counter_of engine_data (engine_frame t 3 k) = Some 3"
proof -
  have f: "field_spec Intel 16 4 (rf_data (engine_frame t c k)) = take_bit 4 (ucast c)" for c
    by (rule bit_word_eqI) (auto simp: field_spec_def engine_frame_def bit_simps simp del: push_bit_Suc)
  show "counter_of engine_data (engine_frame t 0 k) = Some 0"
    "counter_of engine_data (engine_frame t 2 k) = Some 2"
    "counter_of engine_data (engine_frame t 3 k) = Some 3"
    by (simp_all add: counter_of_def engine_data_signals f)
qed

lemma sample_checksums:
  "checksum_fine engine_data (engine_frame t c k) \<longleftrightarrow> 0x90 XOR c XOR k = 0"
  by (simp add: checksum_fine_def engine_data_signals engine_frame_def xor_bytes_def xor.assoc [symmetric])

lemma sample_monitor:
  "fst (mon_run engine_data 0x180 sample_trace idle_monitor) = [Timeout, CounterGap, ChecksumMismatch, Timeout]"
  by (simp add: sample_trace_def mon_defs idle_monitor_def is_late_def sample_counters sample_checksums
      counter_gap_def engine_data_signals)

section \<open>The properties\<close>

text \<open>
  C4: on every interleaving of frames and timeout polls the engine neither faults nor mixes messages:
  for each message of the database, the anomalies it reports and the statistics, last counter, last
  time and timeout flag it ends with are those of the monitor of that message alone.
\<close>

theorem engine_refines_monitors:
  assumes "db_ok db" and "\<forall>ev \<in> set evs. ev_ok ev"
  shows "\<exists>as e. diag_run db evs new_engine = Inr (as, e) \<and>
     (\<forall>(k, m) \<in> set db. map an_kind (filter (\<lambda>a. an_can_id a = k) as) = fst (mon_run m k evs idle_monitor) \<and>
        mon_rel e k (snd (mon_run m k evs idle_monitor)))"
  using engine_run [OF assms new_engine_related [of db]] by (auto simp: case_prod_unfold)

theorem engine_refines_monitors_witness:
  "\<exists>as e. diag_run sample_db sample_trace new_engine = Inr (as, e) \<and>
     map an_kind (filter (\<lambda>a. an_can_id a = 0x180) as) = [Timeout, CounterGap, ChecksumMismatch, Timeout]"
proof -
  obtain as e where run: "diag_run sample_db sample_trace new_engine = Inr (as, e)"
    and all: "\<forall>(k, m) \<in> set sample_db. map an_kind (filter (\<lambda>a. an_can_id a = k) as) =
        fst (mon_run m k sample_trace idle_monitor) \<and> mon_rel e k (snd (mon_run m k sample_trace idle_monitor))"
    using engine_refines_monitors [OF sample_db_ok sample_trace_ok] by blast
  have "(0x180, engine_data) \<in> set sample_db" by (simp add: sample_db_def)
  from run bspec [OF all this] show ?thesis by (simp add: sample_monitor)
qed

lemma run_counters:
  assumes "db_ok db" and "\<forall>ev \<in> set evs. ev_ok ev" and "(k, m) \<in> set db"
    and "diag_run db evs new_engine = Inr (as, e)"
  shows "ms_frames_received (stats_at e k) = of_nat (length (frames_of k evs)) \<and>
     ms_counter_faults (stats_at e k) = of_nat (gaps (counters m (frames_of k evs))) \<and>
     ms_checksum_faults (stats_at e k) =
       of_nat (length (filter (\<lambda>f. \<not> checksum_fine m f) (frames_of k evs)))"
proof -
  have "\<forall>(k, m) \<in> set db. mon_rel e k (snd (mon_run m k evs idle_monitor))"
    using engine_run [OF assms(1,2) new_engine_related [of db]] assms(4) by auto
  then have "mon_rel e k (snd (mon_run m k evs idle_monitor))" using assms(3) by blast
  with mon_run_frames [of m k evs idle_monitor] mon_run_gaps [of m k evs idle_monitor]
  show ?thesis by (simp add: mon_rel_def idle_monitor_def)
qed

text \<open>
  C26: the fault counters of a message count exactly its frames, the places where its counter sequence
  does not advance by one modulo 16, and its frames whose eight bytes do not cancel under exclusive or.
\<close>

theorem fault_counters_total:
  assumes "db_ok db" and "\<forall>ev \<in> set evs. ev_ok ev" and "db_find db k = Some m"
  shows "\<exists>as e. diag_run db evs new_engine = Inr (as, e) \<and>
     ms_frames_received (stats_at e k) = of_nat (length (frames_of k evs)) \<and>
     ms_counter_faults (stats_at e k) = of_nat (gaps (counters m (frames_of k evs))) \<and>
     ms_checksum_faults (stats_at e k) =
       of_nat (length (filter (\<lambda>f. \<not> checksum_fine m f) (frames_of k evs)))"
proof -
  obtain as e where run: "diag_run db evs new_engine = Inr (as, e)"
    using engine_run [OF assms(1,2) new_engine_related [of db]] by blast
  have "(k, m) \<in> set db" using assms(3) db_okD(4) [OF assms(1), of k m] by simp
  from run_counters [OF assms(1,2) this run] run show ?thesis by blast
qed

theorem fault_counters_total_witness:
  "\<exists>as e. diag_run sample_db sample_trace new_engine = Inr (as, e) \<and>
     ms_frames_received (stats_at e 0x180) = 3 \<and> ms_counter_faults (stats_at e 0x180) = 1 \<and>
     ms_checksum_faults (stats_at e 0x180) = 1"
proof -
  have find: "db_find sample_db 0x180 = Some engine_data"
    by (simp add: db_find_def std_find_def sample_db_def)
  have fs: "frames_of 0x180 sample_trace = [engine_frame 5 0 0x90, engine_frame 25 2 0x92, engine_frame 45 3 0x55]"
    by (simp add: sample_trace_def)
  show ?thesis using fault_counters_total [OF sample_db_ok sample_trace_ok find]
    by (simp add: fs sample_counters sample_checksums)
qed

text \<open>
  C15: silence is reported once. After a frame of a message, while no further frame of it arrives and
  the poll times do not go back, the polls report exactly one timeout for it if one of them is more
  than three periods after the frame, and none otherwise.
\<close>

theorem timeout_once_per_gap:
  assumes "db_ok db" and "db_find db k = Some m" and "rf_can_id f = k"
    and "\<forall>ev \<in> set (before @ Frame f # silence). ev_ok ev"
    and "frames_of k silence = []" and "sorted (polls silence)"
  shows "\<exists>as1 e1 as2 e2. diag_run db (before @ [Frame f]) new_engine = Inr (as1, e1) \<and>
     diag_run db silence e1 = Inr (as2, e2) \<and>
     map an_kind (filter (\<lambda>a. an_can_id a = k) as2) =
       (if \<exists>now \<in> set (polls silence). 3 * md_period_ms m < now - rf_timestamp_ms f then [Timeout] else [])"
proof -
  define mo where "mo k = snd (mon_run (the (db_find db k)) k (before @ [Frame f]) idle_monitor)" for k
  have mem: "(k, m) \<in> set db" using assms(2) db_okD(4) [OF assms(1), of k m] by simp
  have find: "the (db_find db k') = m'" if "(k', m') \<in> set db" for k' m'
    using that db_okD(4) [OF assms(1)] by (metis option.sel)
  obtain as1 e1 where 1: "diag_run db (before @ [Frame f]) new_engine = Inr (as1, e1)" "all_related db e1 mo"
    using engine_run [OF assms(1) _ new_engine_related [of db], of "before @ [Frame f]"] assms(4) find
    by (fastforce simp: all_related_def mo_def)
  obtain as2 e2 where 2: "diag_run db silence e1 = Inr (as2, e2)"
     "map an_kind (filter (\<lambda>a. an_can_id a = k) as2) = fst (mon_run m k silence (mo k))"
    using engine_run [OF assms(1) _ 1(2), of silence] assms(4) mem by fastforce
  have last: "mo_seen (snd (mon_run m k (evs @ [Frame f]) mo)) = Some (rf_timestamp_ms f) \<and>
      \<not> mo_late (snd (mon_run m k (evs @ [Frame f]) mo))" for evs mo
    using assms(3) by (induction evs arbitrary: mo) (simp_all add: mon_defs del: mon_run.simps(2))
  then have mo: "mo_seen (mo k) = Some (rf_timestamp_ms f)" "\<not> mo_late (mo k)"
    by (simp_all add: mo_def assms(2))
  have "fst (mon_run m k silence (mo k)) =
     (if \<exists>now \<in> set (polls silence). 3 * md_period_ms m < now - rf_timestamp_ms f then [Timeout] else [])"
  proof (cases "polls silence")
    case Nil
    then show ?thesis using mon_run_silence [OF assms(5), of 0 "mo k"] mo by simp
  next
    case (Cons p ps)
    then have "sorted (p # polls silence)" using assms(6) by simp
    from mon_run_silence [OF assms(5) this, of "mo k"] mo show ?thesis by simp
  qed
  with 1(1) 2 show ?thesis by auto
qed

theorem timeout_once_per_gap_witness:
  "\<exists>as1 e1 as2 e2. diag_run sample_db ([] @ [Frame (engine_frame 5 0 0x90)]) new_engine = Inr (as1, e1) \<and>
     diag_run sample_db [Poll 60, Poll 66, Poll 80] e1 = Inr (as2, e2) \<and>
     map an_kind (filter (\<lambda>a. an_can_id a = 0x180) as2) = [Timeout]"
proof -
  have find: "db_find sample_db 0x180 = Some engine_data"
    by (simp add: db_find_def std_find_def sample_db_def)
  have ok: "\<forall>ev \<in> set ([] @ Frame (engine_frame 5 0 0x90) # [Poll 60, Poll 66, Poll 80]). ev_ok ev"
    by (simp add: engine_frame_def payload_ok_def time_ok_def)
  show ?thesis using timeout_once_per_gap [OF sample_db_ok find _ ok]
    by (simp add: engine_data_signals del: diag_run.simps)
qed

lemma xor_bytes_update:
  "i < length xs \<Longrightarrow> xor_bytes (xs[i := y]) = xor_bytes xs XOR xs ! i XOR y"
  unfolding xor_bytes_def
proof (induction xs arbitrary: i)
  case (Cons x xs)
  then show ?case by (cases i) (simp_all add: ac_simps)
qed simp

text \<open>The answer of the engine to a frame of a known message, after any run.\<close>

lemma frame_after_run:
  assumes "db_ok db" and "db_find db k = Some msg" and "\<forall>ev \<in> set evs. ev_ok ev"
    and "diag_run db evs new_engine = Inr (as0, e)" and "payload_ok (rf_data f)"
  obtains as e' gap where "onKnownFrame msg f e = Inr (as, e')"
    and "map an_kind as = (if gap then [CounterGap] else []) @ (if checksum_fine msg f then [] else [ChecksumMismatch])"
    and "\<forall>a \<in> set as. an_can_id a = k"
    and "ms_checksum_faults (stats_at e' k) = ms_checksum_faults (stats_at e k) + of_bool (\<not> checksum_fine msg f)"
proof -
  have mem: "(k, msg) \<in> set db" using assms(2) db_okD(4) [OF assms(1)] by blast
  then have m: "md_id msg = k" "msg_ok msg" using db_okD [OF assms(1)] by auto
  obtain mo where mo: "mon_rel e k mo" "mon_ok mo"
    using engine_run [OF assms(1,3) new_engine_related] assms(4) mem by fastforce
  obtain as e' where r: "onKnownFrame msg f e = Inr (as, e')" "map an_kind as = fst (mon_frame msg f mo)"
      "\<forall>a \<in> set as. an_can_id a = k" "mon_rel e' k (snd (mon_frame msg f mo))"
    using known_frame_step [OF m(2) assms(5), of e mo] mo unfolding m(1) by blast
  have "ms_checksum_faults (stats_at e' k) = ms_checksum_faults (stats_at e k) + of_bool (\<not> checksum_fine msg f)"
    using r(4) mo(1) by (simp add: mon_rel_def mon_frame_def Let_def)
  then show ?thesis using that [OF r(1) _ r(3), of "counter_gap msg f (mo_counter mo)"] r(2)
    by (simp add: mon_frame_def Let_def split: if_splits)
qed

text \<open>
  C25: detection of a corrupted byte. After any run of the engine, a frame of a known message with a
  checksum signal, whose checksum is right, is not reported for its checksum; once any single byte of
  it is changed, whichever byte that is, it is reported with exactly one checksum mismatch (next to a
  counter gap, if there is one), which is counted.
\<close>

theorem byte_corruption_reported:
  assumes "db_ok db" and "db_find db k = Some msg" and "findSignal msg ''checksum'' = Some s"
    and "\<forall>ev \<in> set evs. ev_ok ev" and "diag_run db evs new_engine = Inr (as0, e)"
    and "payload_ok (rf_data f)" and "xor_bytes (rf_data f) = 0" and "i < 8" and "b \<noteq> rf_data f ! i"
  shows "(\<exists>as e'. onKnownFrame msg f e = Inr (as, e') \<and> ChecksumMismatch \<notin> an_kind ` set as) \<and>
     (\<exists>as e'. onKnownFrame msg (f\<lparr>rf_data := (rf_data f)[i := b]\<rparr>) e = Inr (as, e') \<and>
        map an_kind as \<in> {[ChecksumMismatch], [CounterGap, ChecksumMismatch]} \<and> (\<forall>a \<in> set as. an_can_id a = k) \<and>
        ms_checksum_faults (stats_at e' k) = ms_checksum_faults (stats_at e k) + 1)"
proof
  let ?f = "f\<lparr>rf_data := (rf_data f)[i := b]\<rparr>"
  have "checksum_fine msg f" using assms(7) by (simp add: checksum_fine_def)
  then show "\<exists>as e'. onKnownFrame msg f e = Inr (as, e') \<and> ChecksumMismatch \<notin> an_kind ` set as"
    by (auto intro: frame_after_run [OF assms(1,2,4-6)] split: if_splits simp flip: set_map)
  have "xor_bytes (rf_data ?f) = rf_data f ! i XOR b"
    using assms(6-8) xor_bytes_update [of i "rf_data f" b] by (simp add: payload_ok_def)
  then have bad: "\<not> checksum_fine msg ?f" using assms(3,9) by (simp add: checksum_fine_def) (metis xor_eq_0_word)
  have "payload_ok (rf_data ?f)" using assms(6) by (simp add: payload_ok_def)
  then obtain as e' gap where "onKnownFrame msg ?f e = Inr (as, e')"
      "map an_kind as = (if gap then [CounterGap] else []) @ (if checksum_fine msg ?f then [] else [ChecksumMismatch])"
      "\<forall>a \<in> set as. an_can_id a = k"
      "ms_checksum_faults (stats_at e' k) = ms_checksum_faults (stats_at e k) + of_bool (\<not> checksum_fine msg ?f)"
    by (rule frame_after_run [OF assms(1,2,4,5)])
  then show "\<exists>as e'. onKnownFrame msg ?f e = Inr (as, e') \<and>
      map an_kind as \<in> {[ChecksumMismatch], [CounterGap, ChecksumMismatch]} \<and> (\<forall>a \<in> set as. an_can_id a = k) \<and>
      ms_checksum_faults (stats_at e' k) = ms_checksum_faults (stats_at e k) + 1"
    using bad by (cases gap) auto
qed

text \<open>The message has a counter too; the second frame repeats the counter of the first.\<close>

theorem byte_corruption_reported_witness:
  "\<exists>as1 e1 as e'. diag_run sample_db [Frame (engine_frame 0 0 0x90)] new_engine = Inr (as1, e1) \<and>
     onKnownFrame engine_data ((engine_frame 20 0 0x90)\<lparr>rf_data := (rf_data (engine_frame 20 0 0x90))[1 := 0x0D]\<rparr>) e1 =
       Inr (as, e') \<and> ChecksumMismatch \<in> an_kind ` set as"
proof -
  have find: "db_find sample_db 0x180 = Some engine_data"
    by (simp add: db_find_def std_find_def sample_db_def)
  have ev: "\<forall>ev \<in> set [Frame (engine_frame 0 0 0x90)]. ev_ok ev" by (simp add: engine_frame_def payload_ok_def time_ok_def)
  obtain as1 e1 where run: "diag_run sample_db [Frame (engine_frame 0 0 0x90)] new_engine = Inr (as1, e1)"
    using engine_run [OF sample_db_ok ev new_engine_related] by blast
  have f: "payload_ok (rf_data (engine_frame 20 0 0x90))" "xor_bytes (rf_data (engine_frame 20 0 0x90)) = 0"
      "0x0D \<noteq> rf_data (engine_frame 20 0 0x90) ! 1"
    by (simp_all add: engine_frame_def payload_ok_def xor_bytes_def)
  from byte_corruption_reported [OF sample_db_ok find engine_data_signals(2) ev run f(1,2) _ f(3)] obtain as e' where
    r: "onKnownFrame engine_data ((engine_frame 20 0 0x90)\<lparr>rf_data := (rf_data (engine_frame 20 0 0x90))[1 := 0x0D]\<rparr>) e1 =
       Inr (as, e')" "map an_kind as \<in> {[ChecksumMismatch], [CounterGap, ChecksumMismatch]}" by auto
  have "ChecksumMismatch \<in> set (map an_kind as)" using r(2) by auto
  then show ?thesis using run r(1) by auto
qed

text \<open>
  The checksum byte is fetched without a bounds check: for a database whose checksum signal starts
  at bit 64 or later, every frame of the message is an out-of-bounds array access, although the bit
  extraction of the same signal is defined.
\<close>

lemma checksum_index_unchecked:
  assumes "findSignal msg ''checksum'' = Some s" and "findSignal msg ''counter'' = None"
    and "64 \<le> sd_start_bit s" and "sd_start_bit s + sd_length s \<le> 2 ^ 31" and "payload_ok (rf_data f)"
  shows "onKnownFrame msg f e = Inl (UB ''array index'') \<and>
     (\<exists>w. extractRaw (rf_data f) s (md_byte_order msg) = Inr w)"
proof -
  have len: "length (rf_data f) = 8" using assms(5) by (simp add: payload_ok_def)
  have idx: "8 \<le> sd_start_bit s div 8" "trunc_div (sd_start_bit s) 8 = sd_start_bit s div 8"
    using assms(3) by (simp_all add: trunc_div_nonneg)
  have loop: "\<exists>c. checksum_loop (rf_data f) (sd_start_bit s div 8) is c0 = Inr c" if "set is \<subseteq> {0..7}" for "is" c0
    using that by (induction "is" arbitrary: c0) (auto simp: array_get_def len)
  obtain c where c: "checksum_loop (rf_data f) (sd_start_bit s div 8) [0..7] 0 = Inr c"
    using loop [of "[0..7]" 0] by auto
  have "array_get (rf_data f) (sd_start_bit s div 8) = Inl (UB ''array index'')"
    using idx(1) by (simp add: array_get_def len)
  then have "onKnownFrame msg f e = Inl (UB ''array index'')"
    by (simp add: onKnownFrame_def counter_check_def checksum_check_def assms(1,2) idx(2) c Let_def)
  then show ?thesis using extractRaw_eq [OF assms(5) _ assms(4)] assms(3) by simp
qed

lemma checksum_index_unchecked_witness:
  "onKnownFrame (engine_data\<lparr>md_signals := [sample_signal ''checksum'' 64 8]\<rparr>) (engine_frame 0 0 0) new_engine =
     Inl (UB ''array index'')"
proof -
  let ?m = "engine_data\<lparr>md_signals := [sample_signal ''checksum'' 64 8]\<rparr>"
  have m: "findSignal ?m ''checksum'' = Some (sample_signal ''checksum'' 64 8)" "findSignal ?m ''counter'' = None"
    by (simp_all add: engine_data_def findSignal_def sample_signal_def)
  show ?thesis
    by (rule checksum_index_unchecked [OF m, THEN conjunct1]) (simp_all add: engine_frame_def payload_ok_def)
qed

lemma mon_run_seen:
  "mo_seen (snd (mon_run m k evs mo)) =
     (if frames_of k evs = [] then mo_seen mo else Some (rf_timestamp_ms (last (frames_of k evs))))"
  by (induction k evs arbitrary: mo rule: frames_of.induct) (simp_all add: mon_defs del: mon_run.simps(2))

lemma query_exact:
  assumes "db_ok db" and "db_find db k = Some m" and "mon_rel e k mo" and "mon_ok mo" and "time_ok now"
  shows "isCurrentlyTimedOut db k now e =
     Inr (case mo_seen mo of None \<Rightarrow> True | Some t \<Rightarrow> 3 * md_period_ms m < now - t)"
proof (cases "mo_seen mo")
  case None
  then show ?thesis using assms(2,3) by (simp add: isCurrentlyTimedOut_def mon_rel_def)
next
  case (Some t)
  have t: "case mo_seen mo of None \<Rightarrow> True | Some t \<Rightarrow> time_ok t" using assms(4) by (simp add: mon_ok_def)
  have ok: "msg_ok m" using db_okD [OF assms(1)] assms(2) by blast
  have d: "\<bar>now - t\<bar> < 2 ^ 62" using since_last_range(1) [OF assms(5) t] by (simp add: since_last_def Some)
  then have "long_sub now t = Inr (now - t)" by (auto simp: long_sub_def long_check_def)
  moreover have "dless (timeout_threshold m) (of_integer (now - t)) \<longleftrightarrow> 3 * md_period_ms m < now - t"
    using d by (intro late_exact [OF ok]) simp
  ultimately show ?thesis using assms(2,3) by (simp add: isCurrentlyTimedOut_def mon_rel_def Some)
qed

text \<open>
  C27: the live query agrees with the specification: after any run it answers, for a message of the
  database, whether more than three periods have passed since its last frame (true when there was
  none), and false for an identifier that is not in the database.
\<close>

theorem live_query_exact:
  assumes "db_ok db" and "\<forall>ev \<in> set evs. ev_ok ev" and "time_ok now"
  shows "\<exists>as e. diag_run db evs new_engine = Inr (as, e) \<and>
     isCurrentlyTimedOut db k now e = Inr (case db_find db k of None \<Rightarrow> False
       | Some m \<Rightarrow> frames_of k evs = [] \<or>
           3 * md_period_ms m < now - rf_timestamp_ms (last (frames_of k evs)))"
proof -
  obtain as e where run: "diag_run db evs new_engine = Inr (as, e)"
    and all: "\<forall>(k, m) \<in> set db. map an_kind (filter (\<lambda>a. an_can_id a = k) as) = fst (mon_run m k evs idle_monitor) \<and>
        mon_rel e k (snd (mon_run m k evs idle_monitor)) \<and> mon_ok (snd (mon_run m k evs idle_monitor))"
    using engine_run [OF assms(1,2) new_engine_related [of db]] by blast
  show ?thesis
  proof (cases "db_find db k")
    case None
    then show ?thesis using run by (simp add: isCurrentlyTimedOut_def)
  next
    case (Some m)
    then have mem: "(k, m) \<in> set db" and ok: "msg_ok m" using db_okD [OF assms(1)] by blast+
    define mo where "mo = snd (mon_run m k evs idle_monitor)"
    have rel: "mon_rel e k mo" "mon_ok mo" using all mem by (auto simp: mo_def)
    have seen: "mo_seen mo = (if frames_of k evs = [] then None else Some (rf_timestamp_ms (last (frames_of k evs))))"
      by (simp add: mo_def mon_run_seen idle_monitor_def)
    show ?thesis using run seen Some query_exact [OF assms(1) Some rel assms(3)] by (auto split: if_splits)
  qed
qed

theorem live_query_exact_witness:
  "\<exists>as e. diag_run sample_db sample_trace new_engine = Inr (as, e) \<and>
     isCurrentlyTimedOut sample_db 0x180 105 e = Inr False"
proof -
  have find: "db_find sample_db 0x180 = Some engine_data"
    by (simp add: db_find_def std_find_def sample_db_def)
  have fs: "frames_of 0x180 sample_trace = [engine_frame 5 0 0x90, engine_frame 25 2 0x92, engine_frame 45 3 0x55]"
    by (simp add: sample_trace_def)
  show ?thesis using live_query_exact [OF sample_db_ok sample_trace_ok, where now = 105 and k = "0x180"]
    by (simp add: find fs time_ok_def engine_data_signals)
qed

end
