(* ===== verification/Can_Vehicle_State.thy ===== *)
theory Can_Vehicle_State
  imports Diagnostics_Props
begin

text \<open>
  The live vehicle state of \<open>task3_can_decoder/src/vehicle_state.cpp\<close>: which fields a decoded frame
  updates, and the independence of the fields from each other.
\<close>

section \<open>State and update\<close>

record can_vehicle_state =
  cv_rpm :: "double option"
  cv_speed_kmh :: "double option"
  cv_gear :: "string option"
  cv_brake_pressed :: "bool option"
  cv_steering_angle_deg :: "double option"

definition unknown_vehicle :: can_vehicle_state where
  "unknown_vehicle = \<lparr>cv_rpm = None, cv_speed_kmh = None, cv_gear = None, cv_brake_pressed = None,
     cv_steering_angle_deg = None\<rparr>"

definition gear_text :: "signal_def \<Rightarrow> int \<Rightarrow> string" where
  "gear_text s raw =
     (case std_find (sd_enum_values s) raw of
        Some name \<Rightarrow> name
      | None \<Rightarrow> ''UNKNOWN('' @ dec_int raw @ '')'')"

definition apply_frame :: "message_def \<Rightarrow> raw_frame \<Rightarrow> can_vehicle_state \<Rightarrow> can_vehicle_state result" where
  "apply_frame msg frame state =
     (if md_name msg = ''EngineData'' then
        (case findSignal msg ''rpm'' of
           None \<Rightarrow> Inr state
         | Some s \<Rightarrow>
             rbind (decodePhysical (rf_data frame) s (md_byte_order msg)) (\<lambda>x. Inr (state\<lparr>cv_rpm := Some x\<rparr>)))
      else if md_name msg = ''VehicleSpeed'' then
        rbind (case findSignal msg ''speed'' of
                 None \<Rightarrow> Inr state
               | Some s \<Rightarrow>
                   rbind (decodePhysical (rf_data frame) s (md_byte_order msg)) (\<lambda>x.
                     Inr (state\<lparr>cv_speed_kmh := Some x\<rparr>))) (\<lambda>state.
        case findSignal msg ''gear'' of
          None \<Rightarrow> Inr state
        | Some s \<Rightarrow>
            rbind (extractRaw (rf_data frame) s (md_byte_order msg)) (\<lambda>w.
              Inr (state\<lparr>cv_gear := Some (gear_text s (u64_to_int w))\<rparr>)))
      else if md_name msg = ''BrakeStatus'' then
        (case findSignal msg ''brake_pressed'' of
           None \<Rightarrow> Inr state
         | Some s \<Rightarrow>
             rbind (extractRaw (rf_data frame) s (md_byte_order msg)) (\<lambda>w.
               Inr (state\<lparr>cv_brake_pressed := Some (w \<noteq> 0)\<rparr>)))
      else if md_name msg = ''SteeringData'' then
        (case findSignal msg ''steering_angle'' of
           None \<Rightarrow> Inr state
         | Some s \<Rightarrow>
             rbind (decodePhysical (rf_data frame) s (md_byte_order msg)) (\<lambda>x.
               Inr (state\<lparr>cv_steering_angle_deg := Some x\<rparr>)))
      else Inr state)"

section \<open>Every frame of a well-formed message is applied\<close>

definition signal_ok :: "signal_def \<Rightarrow> bool" where
  "signal_ok s \<longleftrightarrow> 0 \<le> sd_start_bit s \<and> 0 \<le> sd_length s \<and> sd_start_bit s + sd_length s \<le> 2 ^ 31"

definition signals_ok :: "message_def \<Rightarrow> bool" where
  "signals_ok msg \<longleftrightarrow> (\<forall>s \<in> set (md_signals msg). signal_ok s)"

lemma found_signal_ok: "signals_ok msg \<Longrightarrow> findSignal msg n = Some s \<Longrightarrow> signal_ok s"
  using findSignal_Some by (auto simp: signals_ok_def)

lemma extractRaw_defined:
  "signal_ok s \<Longrightarrow> payload_ok data \<Longrightarrow> \<exists>w. extractRaw data s order = Inr w"
  using extractRaw_eq [of data s order] by (simp add: signal_ok_def)

lemma decodePhysical_defined:
  assumes "signal_ok s" and "payload_ok data"
  shows "\<exists>x. decodePhysical data s order = Inr x"
  using extractRaw_defined [OF assms, of order] extractSigned_eq [OF assms(2), of s order] assms(1)
  by (auto simp: decodePhysical_def signal_ok_def Let_def)

text \<open>The new value of each field, when the message owns it.\<close>

definition physical_field :: "message_def \<Rightarrow> raw_frame \<Rightarrow> string \<Rightarrow> double option \<Rightarrow> double option" where
  "physical_field msg f n old =
     (case findSignal msg n of
        None \<Rightarrow> old
      | Some s \<Rightarrow> (case decodePhysical (rf_data f) s (md_byte_order msg) of Inl _ \<Rightarrow> old | Inr x \<Rightarrow> Some x))"

definition raw_field :: "message_def \<Rightarrow> raw_frame \<Rightarrow> string \<Rightarrow> (signal_def \<Rightarrow> u64 \<Rightarrow> 'a) \<Rightarrow> 'a option \<Rightarrow> 'a option" where
  "raw_field msg f n g old =
     (case findSignal msg n of
        None \<Rightarrow> old
      | Some s \<Rightarrow> (case extractRaw (rf_data f) s (md_byte_order msg) of Inl _ \<Rightarrow> old | Inr w \<Rightarrow> Some (g s w)))"

definition owned_update :: "message_def \<Rightarrow> raw_frame \<Rightarrow> can_vehicle_state \<Rightarrow> can_vehicle_state" where
  "owned_update msg f st =
     \<lparr>cv_rpm = (if md_name msg = ''EngineData'' then physical_field msg f ''rpm'' (cv_rpm st) else cv_rpm st),
      cv_speed_kmh = (if md_name msg = ''VehicleSpeed'' then physical_field msg f ''speed'' (cv_speed_kmh st)
        else cv_speed_kmh st),
      cv_gear = (if md_name msg = ''VehicleSpeed''
        then raw_field msg f ''gear'' (\<lambda>s w. gear_text s (u64_to_int w)) (cv_gear st) else cv_gear st),
      cv_brake_pressed = (if md_name msg = ''BrakeStatus''
        then raw_field msg f ''brake_pressed'' (\<lambda>_ w. w \<noteq> 0) (cv_brake_pressed st) else cv_brake_pressed st),
      cv_steering_angle_deg = (if md_name msg = ''SteeringData''
        then physical_field msg f ''steering_angle'' (cv_steering_angle_deg st) else cv_steering_angle_deg st)\<rparr>"

lemma physical_step:
  assumes "signals_ok msg" and "payload_ok (rf_data f)" and "findSignal msg n = Some s"
  obtains x where "decodePhysical (rf_data f) s (md_byte_order msg) = Inr x"
  using decodePhysical_defined [OF found_signal_ok [OF assms(1,3)] assms(2)] by blast

lemma raw_step:
  assumes "signals_ok msg" and "payload_ok (rf_data f)" and "findSignal msg n = Some s"
  obtains w where "extractRaw (rf_data f) s (md_byte_order msg) = Inr w"
  using extractRaw_defined [OF found_signal_ok [OF assms(1,3)] assms(2)] by blast

lemma apply_frame_eq:
  assumes "signals_ok msg" and "payload_ok (rf_data f)"
  shows "apply_frame msg f st = Inr (owned_update msg f st)"
proof -
  note defined = physical_step [OF assms] raw_step [OF assms]
  consider "md_name msg = ''EngineData''" | "md_name msg = ''VehicleSpeed''" | "md_name msg = ''BrakeStatus''"
    | "md_name msg = ''SteeringData''"
    | "md_name msg \<notin> {''EngineData'', ''VehicleSpeed'', ''BrakeStatus'', ''SteeringData''}" by auto
  then show ?thesis
  proof cases
    case 1
    then show ?thesis
      by (cases "findSignal msg ''rpm''")
         (auto simp: apply_frame_def owned_update_def physical_field_def elim: defined)
  next
    case 2
    have "\<exists>x. decodePhysical (rf_data f) s (md_byte_order msg) = Inr x" if "findSignal msg n = Some s" for n s
      using decodePhysical_defined [OF found_signal_ok [OF assms(1) that] assms(2)] .
    moreover have "\<exists>w. extractRaw (rf_data f) s (md_byte_order msg) = Inr w" if "findSignal msg n = Some s" for n s
      using extractRaw_defined [OF found_signal_ok [OF assms(1) that] assms(2)] .
    ultimately show ?thesis using 2
      by (cases "findSignal msg ''speed''"; cases "findSignal msg ''gear''")
         (fastforce simp: apply_frame_def owned_update_def physical_field_def raw_field_def)+
  next
    case 3
    then show ?thesis
      by (cases "findSignal msg ''brake_pressed''")
         (auto simp: apply_frame_def owned_update_def raw_field_def elim: defined)
  next
    case 4
    then show ?thesis
      by (cases "findSignal msg ''steering_angle''")
         (auto simp: apply_frame_def owned_update_def physical_field_def elim: defined)
  next
    case 5
    then show ?thesis by (simp add: apply_frame_def owned_update_def)
  qed
qed

fun apply_frames :: "(message_def \<times> raw_frame) list \<Rightarrow> can_vehicle_state \<Rightarrow> can_vehicle_state result" where
  "apply_frames [] st = Inr st"
| "apply_frames ((m, f) # fs) st = rbind (apply_frame m f st) (apply_frames fs)"

definition frames_ok :: "(message_def \<times> raw_frame) list \<Rightarrow> bool" where
  "frames_ok fs \<longleftrightarrow> (\<forall>(m, f) \<in> set fs. signals_ok m \<and> payload_ok (rf_data f))"

definition physical_of :: "string \<Rightarrow> string \<Rightarrow> message_def \<times> raw_frame \<Rightarrow> double option" where
  "physical_of mn n = (\<lambda>(m, f). if md_name m = mn then physical_field m f n None else None)"

definition raw_of :: "string \<Rightarrow> string \<Rightarrow> (signal_def \<Rightarrow> u64 \<Rightarrow> 'a) \<Rightarrow> message_def \<times> raw_frame \<Rightarrow> 'a option" where
  "raw_of mn n g = (\<lambda>(m, f). if md_name m = mn then raw_field m f n g None else None)"

lemma physical_field_split: "physical_field m f n old = (case physical_field m f n None of None \<Rightarrow> old | Some x \<Rightarrow> Some x)"
  by (auto simp: physical_field_def split: option.splits sum.splits)

lemma raw_field_split: "raw_field m f n g old = (case raw_field m f n g None of None \<Rightarrow> old | Some x \<Rightarrow> Some x)"
  by (auto simp: raw_field_def split: option.splits sum.splits)

lemma owned_update_fields:
  "cv_rpm (owned_update m f st) = (case physical_of ''EngineData'' ''rpm'' (m, f) of None \<Rightarrow> cv_rpm st | Some x \<Rightarrow> Some x)"
  "cv_speed_kmh (owned_update m f st) =
     (case physical_of ''VehicleSpeed'' ''speed'' (m, f) of None \<Rightarrow> cv_speed_kmh st | Some x \<Rightarrow> Some x)"
  "cv_gear (owned_update m f st) =
     (case raw_of ''VehicleSpeed'' ''gear'' (\<lambda>s w. gear_text s (u64_to_int w)) (m, f) of
        None \<Rightarrow> cv_gear st | Some x \<Rightarrow> Some x)"
  "cv_brake_pressed (owned_update m f st) =
     (case raw_of ''BrakeStatus'' ''brake_pressed'' (\<lambda>_ w. w \<noteq> 0) (m, f) of
        None \<Rightarrow> cv_brake_pressed st | Some x \<Rightarrow> Some x)"
  "cv_steering_angle_deg (owned_update m f st) =
     (case physical_of ''SteeringData'' ''steering_angle'' (m, f) of
        None \<Rightarrow> cv_steering_angle_deg st | Some x \<Rightarrow> Some x)"
  using physical_field_split [of m f _ "cv_rpm st"] physical_field_split [of m f _ "cv_speed_kmh st"]
    raw_field_split [of m f _ _ "cv_gear st"] raw_field_split [of m f _ _ "cv_brake_pressed st"]
    physical_field_split [of m f _ "cv_steering_angle_deg st"]
  by (simp_all add: owned_update_def physical_of_def raw_of_def)

lemma apply_frames_latest:
  "frames_ok fs \<Longrightarrow> \<exists>st'. apply_frames fs st = Inr st' \<and>
     cv_rpm st' = latest (physical_of ''EngineData'' ''rpm'') fs (cv_rpm st) \<and>
     cv_speed_kmh st' = latest (physical_of ''VehicleSpeed'' ''speed'') fs (cv_speed_kmh st) \<and>
     cv_gear st' = latest (raw_of ''VehicleSpeed'' ''gear'' (\<lambda>s w. gear_text s (u64_to_int w))) fs (cv_gear st) \<and>
     cv_brake_pressed st' = latest (raw_of ''BrakeStatus'' ''brake_pressed'' (\<lambda>_ w. w \<noteq> 0)) fs (cv_brake_pressed st) \<and>
     cv_steering_angle_deg st' =
       latest (physical_of ''SteeringData'' ''steering_angle'') fs (cv_steering_angle_deg st)"
proof (induction fs arbitrary: st)
  case (Cons p fs)
  obtain m f where p: "p = (m, f)" by (cases p)
  have ok: "signals_ok m" "payload_ok (rf_data f)" "frames_ok fs" using Cons.prems by (simp_all add: frames_ok_def p)
  from Cons.IH [OF ok(3), of "owned_update m f st"] show ?case
    by (simp add: p apply_frame_eq [OF ok(1,2)] owned_update_fields)
qed simp

section \<open>The properties\<close>

text \<open>
  C28: whatever frames arrive, each field of the live state is the value decoded from the last frame of
  the message that carries it, and is unknown exactly as long as no such frame has arrived.
\<close>

theorem vehicle_state_is_latest:
  assumes "frames_ok fs"
  shows "\<exists>st. apply_frames fs unknown_vehicle = Inr st \<and>
     cv_rpm st = latest (physical_of ''EngineData'' ''rpm'') fs None \<and>
     cv_speed_kmh st = latest (physical_of ''VehicleSpeed'' ''speed'') fs None \<and>
     cv_gear st = latest (raw_of ''VehicleSpeed'' ''gear'' (\<lambda>s w. gear_text s (u64_to_int w))) fs None \<and>
     cv_brake_pressed st = latest (raw_of ''BrakeStatus'' ''brake_pressed'' (\<lambda>_ w. w \<noteq> 0)) fs None \<and>
     cv_steering_angle_deg st = latest (physical_of ''SteeringData'' ''steering_angle'') fs None"
  using apply_frames_latest [OF assms, of unknown_vehicle] by (simp add: unknown_vehicle_def)

definition rpm_message :: message_def where
  "rpm_message = engine_data\<lparr>md_signals := [rpm_signal]\<rparr>"

lemma rpm_message_ok: "signals_ok rpm_message" "findSignal rpm_message ''rpm'' = Some rpm_signal"
    "md_name rpm_message = ''EngineData''" "md_byte_order rpm_message = Intel"
  by (simp_all add: signals_ok_def rpm_message_def engine_data_def signal_ok_def rpm_signal_def default_signal_def
      findSignal_def)

theorem vehicle_state_is_latest_witness:
  "\<exists>st. apply_frames [(rpm_message, engine_frame 0 0 0x90)] unknown_vehicle = Inr st \<and>
     cv_rpm st = Some (of_integer 807) \<and> cv_gear st = None"
proof -
  have ok: "frames_ok [(rpm_message, engine_frame 0 0 0x90)]"
    by (simp add: frames_ok_def rpm_message_ok engine_frame_def payload_ok_def)
  have "physical_field rpm_message (engine_frame 0 0 0x90) ''rpm'' None = Some (of_integer 807)"
    by (simp add: physical_field_def rpm_message_ok engine_frame_def rpm_decoded)
  then show ?thesis using vehicle_state_is_latest [OF ok]
    by (auto simp: physical_of_def raw_of_def rpm_message_ok)
qed

text \<open>
  Frames of messages with different names commute: the order in which the replay delivers two
  such frames does not affect the state.
\<close>

lemma different_messages_commute:
  assumes "frames_ok [(m1, f1), (m2, f2)]" and "md_name m1 \<noteq> md_name m2"
  shows "apply_frames [(m1, f1), (m2, f2)] st = apply_frames [(m2, f2), (m1, f1)] st"
proof -
  have ok: "signals_ok m1" "payload_ok (rf_data f1)" "signals_ok m2" "payload_ok (rf_data f2)"
    using assms(1) by (simp_all add: frames_ok_def)
  have "owned_update m2 f2 (owned_update m1 f1 st) = owned_update m1 f1 (owned_update m2 f2 st)"
    using assms(2) by (auto simp: owned_update_def)
  then show ?thesis by (simp add: apply_frame_eq ok)
qed

lemma different_messages_commute_witness:
  "apply_frames [(rpm_message, engine_frame 0 0 0x90), (rpm_message\<lparr>md_name := ''Other''\<rparr>, engine_frame 0 0 0)] unknown_vehicle =
   apply_frames [(rpm_message\<lparr>md_name := ''Other''\<rparr>, engine_frame 0 0 0), (rpm_message, engine_frame 0 0 0x90)] unknown_vehicle"
proof (rule different_messages_commute)
  have "signals_ok (rpm_message\<lparr>md_name := ''Other''\<rparr>)"
    using rpm_message_ok(1) by (simp add: signals_ok_def)
  then show "frames_ok [(rpm_message, engine_frame 0 0 0x90), (rpm_message\<lparr>md_name := ''Other''\<rparr>, engine_frame 0 0 0)]"
    by (simp add: frames_ok_def rpm_message_ok engine_frame_def payload_ok_def)
qed (simp add: rpm_message_ok)

end
