(* ===== verification/Diagnostics_Totals.thy ===== *)
theory Diagnostics_Totals
  imports Diagnostics_Props
begin

text \<open>
  The polls of \<open>checkTimeouts\<close> fall at times the clock decides. Everything else the diagnostics engine
  reports and counts depends on the frames alone: removing the polls from a run keeps it.
\<close>

section \<open>The totals do not depend on the polls\<close>

text \<open>What a poll never touches: the last counters, the unknown frames and three of the four totals.\<close>

definition totals :: "engine \<Rightarrow> u32 \<Rightarrow> u64 \<times> u64 \<times> u64" where
  "totals e k = (let st = stats_at e k in (ms_frames_received st, ms_counter_faults st, ms_checksum_faults st))"

definition same_totals :: "engine \<Rightarrow> engine \<Rightarrow> bool" where
  "same_totals e f \<longleftrightarrow> de_last_counter e = de_last_counter f \<and> totals e = totals f \<and>
     de_unknown_frame_count e = de_unknown_frame_count f"

lemma same_totals_refl [simp]: "same_totals e e"
  by (simp add: same_totals_def)

lemma same_totals_trans: "same_totals e f \<Longrightarrow> same_totals f g \<Longrightarrow> same_totals e g"
  by (simp add: same_totals_def)

lemma stats_at_update_stats: "stats_at (update_stats k f e) k' = (if k' = k then f (stats_at e k) else stats_at e k')"
  by (simp add: stats_at_def update_stats_def)

lemma stats_at_cong [simp]:
  "stats_at (e\<lparr>de_last_counter := a\<rparr>) = stats_at e"
  "stats_at (e\<lparr>de_last_seen_ms := b\<rparr>) = stats_at e"
  "stats_at (e\<lparr>de_currently_timed_out := c\<rparr>) = stats_at e"
  "stats_at (e\<lparr>de_unknown_frame_count := n\<rparr>) = stats_at e"
  by (simp_all add: stats_at_def fun_eq_iff)

lemma update_stats_simps [simp]:
  "de_last_counter (update_stats k f e) = de_last_counter e"
  "de_unknown_frame_count (update_stats k f e) = de_unknown_frame_count e"
  by (simp_all add: update_stats_def)

lemma totals_update_stats:
  "totals (update_stats k f e) = (totals e)(k := (let st = f (stats_at e k) in
     (ms_frames_received st, ms_counter_faults st, ms_checksum_faults st)))"
  by (auto simp: totals_def stats_at_update_stats fun_eq_iff Let_def)

lemma totals_cong [simp]:
  "totals (e\<lparr>de_last_counter := a\<rparr>) = totals e"
  "totals (e\<lparr>de_last_seen_ms := b\<rparr>) = totals e"
  "totals (e\<lparr>de_currently_timed_out := c\<rparr>) = totals e"
  "totals (e\<lparr>de_unknown_frame_count := n\<rparr>) = totals e"
  by (simp_all add: totals_def fun_eq_iff)

lemma totals_bump [simp]:
  "totals (update_stats k (\<lambda>st. st\<lparr>ms_frames_received := ms_frames_received st + 1\<rparr>) e) =
     (totals e)(k := map_prod (\<lambda>n. n + 1) id (totals e k))"
  "totals (update_stats k (\<lambda>st. st\<lparr>ms_counter_faults := ms_counter_faults st + 1\<rparr>) e) =
     (totals e)(k := map_prod id (map_prod (\<lambda>n. n + 1) id) (totals e k))"
  "totals (update_stats k (\<lambda>st. st\<lparr>ms_checksum_faults := ms_checksum_faults st + 1\<rparr>) e) =
     (totals e)(k := map_prod id (map_prod id (\<lambda>n. n + 1)) (totals e k))"
  "totals (update_stats k (\<lambda>st. st\<lparr>ms_timeout_events := ms_timeout_events st + 1\<rparr>) e) = totals e"
  by (simp_all add: totals_update_stats) (simp_all add: totals_def fun_eq_iff Let_def)

lemma counter_check_totals:
  "counter_check msg fr e = Inr (as, e') \<Longrightarrow> same_totals e f \<Longrightarrow>
     \<exists>f'. counter_check msg fr f = Inr (as, f') \<and> same_totals e' f'"
  by (auto simp: counter_check_def same_totals_def rbind_def Let_def
      split: option.splits sum.splits if_splits)

lemma checksum_check_totals:
  "checksum_check msg fr e = Inr (as, e') \<Longrightarrow> same_totals e f \<Longrightarrow>
     \<exists>f'. checksum_check msg fr f = Inr (as, f') \<and> same_totals e' f'"
  by (auto simp: checksum_check_def same_totals_def rbind_def Let_def
      split: option.splits sum.splits if_splits)

lemma onKnownFrame_totals:
  assumes "onKnownFrame msg fr e = Inr (as, e')" and "same_totals e f"
  shows "\<exists>f'. onKnownFrame msg fr f = Inr (as, f') \<and> same_totals e' f'"
proof -
  define start where "start = update_stats (md_id msg) (\<lambda>st. st\<lparr>ms_frames_received := ms_frames_received st + 1\<rparr>)"
  have s: "same_totals (start e) (start f)"
    using assms(2) by (simp add: same_totals_def start_def)
  obtain a1 e1 a2 e2 where c: "counter_check msg fr (start e) = Inr (a1, e1)" "checksum_check msg fr e1 = Inr (a2, e2)"
      "as = a1 @ a2" "e' = e2\<lparr>de_last_seen_ms := (de_last_seen_ms e2)(md_id msg \<mapsto> rf_timestamp_ms fr),
                de_currently_timed_out := (de_currently_timed_out e2)(md_id msg \<mapsto> False)\<rparr>"
    using assms(1) by (auto simp: onKnownFrame_def rbind_Inr_iff start_def)
  obtain f1 where 1: "counter_check msg fr (start f) = Inr (a1, f1)" "same_totals e1 f1"
    using counter_check_totals [OF c(1) s] by blast
  obtain f2 where 2: "checksum_check msg fr f1 = Inr (a2, f2)" "same_totals e2 f2"
    using checksum_check_totals [OF c(2) 1(2)] by blast
  show ?thesis using 1(1) 2 c(3,4) by (simp add: onKnownFrame_def start_def same_totals_def)
qed

lemma check_timeout_totals: "check_timeout now k msg e = Inr (as, e') \<Longrightarrow> same_totals e' e"
  by (auto simp: check_timeout_def same_totals_def rbind_Inr_iff Let_def split: option.splits if_splits)

lemma checkTimeouts_totals: "checkTimeouts now db e = Inr (as, e') \<Longrightarrow> same_totals e' e"
proof (induction now db e arbitrary: as e' rule: checkTimeouts.induct)
  case (2 now k msg db e)
  obtain a1 e1 a2 where s: "check_timeout now k msg e = Inr (a1, e1)" "checkTimeouts now db e1 = Inr (a2, e')"
    using "2.prems" by (auto simp: rbind_Inr_iff)
  from "2.IH" [OF s(1) refl s(2)] check_timeout_totals [OF s(1)] show ?case by (rule same_totals_trans)
qed simp

section \<open>Runs without polls\<close>

text \<open>The frames of a run, whatever their identifier.\<close>

fun all_frames :: "diag_event list \<Rightarrow> raw_frame list" where
  "all_frames [] = []"
| "all_frames (Frame f # evs) = f # all_frames evs"
| "all_frames (Poll _ # evs) = all_frames evs"

lemma all_frames_append [simp]: "all_frames (xs @ ys) = all_frames xs @ all_frames ys"
  by (induction xs rule: all_frames.induct) simp_all

lemma all_frames_Frame [simp]: "all_frames (map Frame fs) = fs"
  by (induction fs) simp_all

lemma frames_of_all: "frames_of k evs = filter (\<lambda>f. rf_can_id f = k) (all_frames evs)"
  by (induction k evs rule: frames_of.induct) simp_all

text \<open>The anomalies a frame reports, as against those a poll reports.\<close>

abbreviation frame_reports :: "anomaly list \<Rightarrow> anomaly list" where
  "frame_reports as \<equiv> filter (\<lambda>a. an_kind a \<noteq> Timeout) as"

lemma onKnownFrame_kinds: "onKnownFrame msg fr e = Inr (as, e') \<Longrightarrow> frame_reports as = as"
  by (auto simp: onKnownFrame_def counter_check_def checksum_check_def rbind_def Let_def
      split: option.splits sum.splits if_splits)

lemma check_timeout_kinds: "check_timeout now k msg e = Inr (as, e') \<Longrightarrow> frame_reports as = []"
  by (auto simp: check_timeout_def rbind_def Let_def split: option.splits sum.splits if_splits)

lemma checkTimeouts_kinds: "checkTimeouts now db e = Inr (as, e') \<Longrightarrow> frame_reports as = []"
proof (induction now db e arbitrary: as e' rule: checkTimeouts.induct)
  case (2 now k msg db e)
  obtain a1 e1 a2 where s: "check_timeout now k msg e = Inr (a1, e1)" "checkTimeouts now db e1 = Inr (a2, e')"
      "as = a1 @ a2"
    using "2.prems" by (auto simp: rbind_Inr_iff)
  from "2.IH" [OF s(1) refl s(2)] check_timeout_kinds [OF s(1)] show ?case by (simp add: s(3))
qed simp

lemma frame_step_totals:
  assumes "diag_step db (Frame f) e = Inr (as, e')" and "same_totals e g"
  shows "frame_reports as = as \<and> (\<exists>g'. diag_step db (Frame f) g = Inr (as, g') \<and> same_totals e' g')"
proof (cases "db_find db (rf_can_id f)")
  case None
  then show ?thesis using assms by (auto simp: onUnknownFrame_def same_totals_def)
next
  case (Some msg)
  then show ?thesis using assms onKnownFrame_totals [of msg f e as e' g] onKnownFrame_kinds [of msg f e as e'] by simp
qed

lemma run_without_polls:
  assumes "diag_run db evs e = Inr (as, e')" and "same_totals e g"
  shows "\<exists>g'. diag_run db (map Frame (all_frames evs)) g = Inr (frame_reports as, g') \<and> same_totals e' g'"
  using assms
proof (induction evs arbitrary: e g as)
  case (Cons ev evs)
  then obtain a1 e1 a2 where s: "diag_step db ev e = Inr (a1, e1)" "diag_run db evs e1 = Inr (a2, e')" "as = a1 @ a2"
    by (auto simp: rbind_Inr_iff)
  show ?case
  proof (cases ev)
    case (Frame f)
    then obtain g1 where g: "frame_reports a1 = a1" "diag_step db (Frame f) g = Inr (a1, g1)" "same_totals e1 g1"
      using frame_step_totals [of db f e a1 e1 g] s(1) Cons.prems(2) by blast
    from Cons.IH [OF s(2) g(3)] show ?thesis by (auto simp: Frame g(1,2) s(3) simp del: diag_step.simps)
  next
    case (Poll now)
    then have "same_totals e1 e" "frame_reports a1 = []"
      using s(1) checkTimeouts_totals checkTimeouts_kinds by simp_all
    with Cons.IH [OF s(2), of g] Cons.prems(2) show ?thesis
      by (auto simp: Poll s(3) intro: same_totals_trans)
  qed
qed simp

lemma run_unknown_count:
  "diag_run db (map Frame fs) e = Inr (as, e') \<Longrightarrow> de_unknown_frame_count e' =
     de_unknown_frame_count e + of_nat (length (filter (\<lambda>f. db_find db (rf_can_id f) = None) fs))"
proof (induction fs arbitrary: e as)
  case (Cons f fs)
  then obtain a1 e1 a2 where s: "diag_step db (Frame f) e = Inr (a1, e1)" "diag_run db (map Frame fs) e1 = Inr (a2, e')"
    by (auto simp: rbind_Inr_iff)
  have known: "onKnownFrame msg f e = Inr (a1, e1) \<Longrightarrow> de_unknown_frame_count e1 = de_unknown_frame_count e" for msg
    by (auto simp: onKnownFrame_def counter_check_def checksum_check_def rbind_def Let_def
        split: option.splits sum.splits if_splits)
  show ?case using Cons.IH [OF s(2)] s(1) known
    by (auto simp: onUnknownFrame_def split: option.splits)
qed simp

text \<open>The totals of a run that ended, with polls at whatever times.\<close>

lemma run_totals:
  assumes "db_ok db" and "\<forall>f \<in> set (all_frames evs). ev_ok (Frame f)" and "diag_run db evs new_engine = Inr (as, e)"
  shows "de_unknown_frame_count e =
       of_nat (length (filter (\<lambda>f. db_find db (rf_can_id f) = None) (all_frames evs)))"
    and "(k, m) \<in> set db \<Longrightarrow> fs = filter (\<lambda>f. rf_can_id f = k) (all_frames evs) \<Longrightarrow>
       totals e k = (of_nat (length fs), of_nat (gaps (counters m fs)),
         of_nat (length (filter (\<lambda>f. \<not> checksum_fine m f) fs)))"
proof -
  obtain g where g: "diag_run db (map Frame (all_frames evs)) new_engine = Inr (frame_reports as, g)" "same_totals e g"
    using run_without_polls [OF assms(3) same_totals_refl] by blast
  show "de_unknown_frame_count e = of_nat (length (filter (\<lambda>f. db_find db (rf_can_id f) = None) (all_frames evs)))"
    using run_unknown_count [OF g(1)] g(2) by (simp add: same_totals_def new_engine_def)
  assume k: "(k, m) \<in> set db" and fs: "fs = filter (\<lambda>f. rf_can_id f = k) (all_frames evs)"
  have "\<forall>ev \<in> set (map Frame (all_frames evs)). ev_ok ev" using assms(2) by (simp del: ev_ok.simps)
  from run_counters [OF assms(1) this k g(1)] g(2)
  show "totals e k = (of_nat (length fs), of_nat (gaps (counters m fs)),
         of_nat (length (filter (\<lambda>f. \<not> checksum_fine m f) fs)))"
    by (simp add: same_totals_def frames_of_all fs) (simp add: totals_def)
qed

end
