(* ===== verification/Cpp_Stod.thy ===== *)
theory Cpp_Stod
  imports Cpp_Text
begin

text \<open>
  \<open>std::stod\<close>: the syntax of \<open>strtod\<close> in the C locale (decimal and hexadecimal floating
  constants, infinities and NaN) with correct rounding, and the two exceptions \<open>std::stod\<close> adds.
\<close>

section \<open>Scanning\<close>

text \<open>The digits of a mantissa, the number of them after the point, and the rest of the input.\<close>

definition scan_mantissa :: "nat \<Rightarrow> string \<Rightarrow> (string \<times> nat \<times> string) option" where
  "scan_mantissa b t =
     (let ip = takeWhile (is_digit b) t; r = dropWhile (is_digit b) t in
      case r of
        [] \<Rightarrow> if ip = [] then None else Some (ip, 0, r)
      | c # r' \<Rightarrow>
          if c = CHR ''.'' then
            (let fp = takeWhile (is_digit b) r' in
             if ip = [] \<and> fp = [] then None else Some (ip @ fp, length fp, dropWhile (is_digit b) r'))
          else if ip = [] then None else Some (ip, 0, r))"

definition scan_exponent :: "char set \<Rightarrow> string \<Rightarrow> int" where
  "scan_exponent marks r =
     (case r of
        [] \<Rightarrow> 0
      | c # r' \<Rightarrow>
          if c \<in> marks then
            (let (neg, t) = read_sign r' in
             if starts_with_digit 10 t
             then (let n = int (fst (read_digits 10 0 t)) in if neg then - n else n) else 0)
          else 0)"

text \<open>
  The nearest double of a fraction. \<open>stod\<close> reports an overflow, and an underflow (a subnormal
  result that is not exact), as \<open>out_of_range\<close>.
\<close>

definition to_double :: "bool \<Rightarrow> nat \<Rightarrow> nat \<Rightarrow> double result" where
  "to_double neg num den =
     (if num = 0 then Inr (dzero neg)
      else case round_frac neg num den of
          Finite s m e \<Rightarrow>
            if m < 2 ^ 52 \<and> m * den \<noteq> num * 2 ^ 1074 then Inl (Out_Of_Range ''stod'') else Inr (Finite s m e)
        | _ \<Rightarrow> Inl (Out_Of_Range ''stod''))"

definition scaled_double :: "bool \<Rightarrow> nat \<Rightarrow> nat \<Rightarrow> int \<Rightarrow> double result" where
  "scaled_double neg n base e =
     to_double neg (n * base ^ nat e) (base ^ nat (- e))"

definition lower :: "char \<Rightarrow> char" where
  "lower c = (let n = (of_char c :: nat) in if 65 \<le> n \<and> n \<le> 90 then char_of (n + 32) else c)"

definition has_prefix :: "string \<Rightarrow> string \<Rightarrow> bool" where
  "has_prefix p s \<longleftrightarrow> map lower (take (length p) s) = p"

definition stod :: "string \<Rightarrow> double result" where
  "stod s =
     (let (neg, t) = read_sign (dropWhile is_space s);
          hex = (if has_prefix ''0x'' t then scan_mantissa 16 (drop 2 t) else None)
      in case hex of
          Some (digits, fraclen, r) \<Rightarrow>
            scaled_double neg (fst (read_digits 16 0 digits)) 2
              (scan_exponent {CHR ''p'', CHR ''P''} r - 4 * int fraclen)
        | None \<Rightarrow>
            (case scan_mantissa 10 t of
               Some (digits, fraclen, r) \<Rightarrow>
                 scaled_double neg (fst (read_digits 10 0 digits)) 10
                   (scan_exponent {CHR ''e'', CHR ''E''} r - int fraclen)
             | None \<Rightarrow>
                 if has_prefix ''inf'' t then Inr (Infinite neg)
                 else if has_prefix ''nan'' t then Inr NaN
                 else Inl (Invalid_Argument ''stod'')))"

text \<open>Scanning and rounding are evaluated one after the other.\<close>

lemmas [text_eval] = scan_mantissa_def scan_exponent_def has_prefix_def lower_def stod_def

lemmas rounding_eval = scaled_double_def to_double_def double_eval

section \<open>Integers\<close>

lemma to_double_integer:
  assumes "n < 2 ^ 53"
  shows "to_double neg n 1 = Inr (round_frac neg n 1)"
proof (cases "n = 0")
  case True
  then show ?thesis by (simp add: to_double_def round_frac_def)
next
  case False
  have "representable ((of_nat n :: rat) / of_nat 1)" using assms by (simp add: representable_of_nat)
  then obtain m e where r: "round_frac neg n 1 = Finite neg m e" and v: "of_nat m * 2 powi e = (of_nat n :: rat)"
    using round_frac_exact [of 1 n neg] by (metis div_by_1 of_nat_1 zero_neq_one)
  obtain m' e' where r': "round_frac neg n 1 = (if 971 < e' then Infinite neg else Finite neg m' e')"
    and e': "2 ^ 52 \<le> m' \<or> e' = -1074"
    by (rule round_frac_spec [OF False, of 1 neg]) auto
  with r have same: "m' = m" "e' = e" by (auto split: if_splits)
  have "m < 2 ^ 52 \<Longrightarrow> m * 1 = n * 2 ^ 1074"
  proof -
    assume "m < 2 ^ 52"
    with e' same have "e = -1074" by simp
    with v have "(of_nat m :: rat) = of_nat (n * 2 ^ 1074)" by (simp add: power_int_def field_simps)
    then show ?thesis by (simp only: of_nat_eq_iff mult_1_right)
  qed
  with False r show ?thesis by (auto simp: to_double_def)
qed

lemma lower_x: "lower c = CHR ''x'' \<Longrightarrow> c = CHR ''x'' \<or> c = CHR ''X''"
proof -
  assume l: "lower c = CHR ''x''"
  define n where "n = (of_char c :: nat)"
  show ?thesis
  proof (cases "65 \<le> n \<and> n \<le> 90")
    case True
    then have "char_of (n + 32) = CHR ''x''" using l by (simp add: lower_def n_def)
    then have "(of_char (char_of (n + 32)) :: nat) = of_char CHR ''x''" by (rule arg_cong)
    then have "(n + 32) mod 256 = 120" by simp
    then have "n = 88" using True by (simp add: mod_less)
    then have "(of_char c :: nat) = of_char CHR ''X''" by (simp add: n_def)
    then have "c = CHR ''X''" by (simp only: of_char_eq_iff)
    then show ?thesis ..
  next
    case False
    then show ?thesis using l by (simp add: lower_def n_def Let_def split: if_splits)
  qed
qed

lemma has_prefix_0x: "has_prefix ''0x'' t \<Longrightarrow> \<exists>a b cs. t = a # b # cs \<and> lower b = CHR ''x''"
  by (cases t; cases "tl t") (auto simp: has_prefix_def)

definition number_end :: "string \<Rightarrow> bool" where
  "number_end rest \<longleftrightarrow> \<not> starts_with_digit 10 rest \<and>
     (case rest of [] \<Rightarrow> True | c # _ \<Rightarrow> c \<notin> {CHR ''.'', CHR ''e'', CHR ''E'', CHR ''x'', CHR ''X''})"

lemma dec_nat_all_digits: "c \<in> set (dec_nat n) \<Longrightarrow> is_digit 10 c \<and> c \<noteq> CHR ''x'' \<and> c \<noteq> CHR ''X''"
proof -
  assume "c \<in> set (dec_nat n)"
  then obtain k where "k < 10" "c = digit_char k"
    using to_base_digits [of 10 c digit_char n] unfolding dec_nat_def by auto
  then show ?thesis using digits_ok_lower by (auto simp: is_digit_d digits_ok_def)
qed

lemma scan_dec_nat:
  assumes "number_end rest"
  shows "scan_mantissa 10 (dec_nat n @ rest) = Some (dec_nat n, 0, rest)"
    and "\<not> has_prefix ''0x'' (dec_nat n @ rest)"
    and "scan_exponent {CHR ''e'', CHR ''E''} rest = 0"
proof -
  have tw: "takeWhile (is_digit 10) (dec_nat n @ rest) = dec_nat n" "dropWhile (is_digit 10) (dec_nat n @ rest) = rest"
    using assms dec_nat_all_digits
    by (cases rest; auto simp: number_end_def starts_with_digit_def takeWhile_append dropWhile_append)+
  have ne: "dec_nat n \<noteq> []" by (simp add: dec_nat_def)
  show "scan_mantissa 10 (dec_nat n @ rest) = Some (dec_nat n, 0, rest)"
    using assms ne by (auto simp: scan_mantissa_def tw number_end_def Let_def split: list.splits)
  show "scan_exponent {CHR ''e'', CHR ''E''} rest = 0"
    using assms by (auto simp: scan_exponent_def number_end_def split: list.split)
  show "\<not> has_prefix ''0x'' (dec_nat n @ rest)"
  proof
    assume "has_prefix ''0x'' (dec_nat n @ rest)"
    then obtain a b cs where t: "dec_nat n @ rest = a # b # cs" and "lower b = CHR ''x''"
      using has_prefix_0x by blast
    then have len: "length (dec_nat n @ rest) \<ge> 2" and "lower ((dec_nat n @ rest) ! 1) = CHR ''x''"
      by (simp_all only: t) simp_all
    then have "(dec_nat n @ rest) ! 1 \<in> {CHR ''x'', CHR ''X''}" using lower_x by blast
    moreover have "(dec_nat n @ rest) ! 1 \<notin> {CHR ''x'', CHR ''X''}"
    proof (cases "1 < length (dec_nat n)")
      case True
      then show ?thesis using dec_nat_all_digits [of "dec_nat n ! 1" n] by (auto simp: nth_append)
    next
      case False
      then have l: "length (dec_nat n) = 1" using ne by (cases "dec_nat n") auto
      then show ?thesis using assms len by (cases rest) (auto simp: nth_append number_end_def)
    qed
    ultimately show False by blast
  qed
qed

lemma read_dec_nat: "read_digits 10 0 (dec_nat n) = (n, [])"
  using read_dec [of "[]" n] by (simp add: starts_with_digit_def)

lemma stod_dec_int:
  assumes "\<bar>i\<bar> < 2 ^ 53" and "number_end rest"
  shows "stod (dec_int i @ rest) = Inr (of_integer i)"
proof -
  define n where "n = nat \<bar>i\<bar>"
  have sign: "read_sign (dropWhile is_space (dec_int i @ rest)) = (i < 0, dec_nat n @ rest)"
  proof (cases "i < 0")
    case True
    then show ?thesis by (simp add: dec_int_def n_def read_sign_def is_space_def)
  next
    case False
    then show ?thesis by (simp add: dec_int_def n_def dec_nat_start)
  qed
  have "stod (dec_int i @ rest) = scaled_double (i < 0) n 10 0"
    by (simp add: stod_def sign scan_dec_nat [OF assms(2)] read_dec_nat)
  also have "\<dots> = to_double (i < 0) n 1" by (simp add: scaled_double_def)
  also have "\<dots> = Inr (round_frac (i < 0) n 1)" using assms(1) by (intro to_double_integer) (simp add: n_def)
  also have "round_frac (i < 0) n 1 = of_integer i" by (simp add: of_integer_def round_dyadic_def n_def)
  finally show ?thesis .
qed

lemma stod_quarter: "stod ''0.25'' = Inr (Finite False 4503599627370496 (-54))"
proof -
  have "stod ''0.25'' = scaled_double False 25 10 (-2)" by (simp add: text_eval)
  then show ?thesis by (simp add: rounding_eval)
qed

lemma stod_tenth: "stod ''0.1'' = Inr (Finite False 7205759403792794 (-56))"
proof -
  have "stod ''0.1'' = scaled_double False 1 10 (-1)" by (simp add: text_eval)
  then show ?thesis by (simp add: rounding_eval)
qed

end
