(* ===== verification/Json_Value.thy ===== *)
theory Json_Value
  imports Cpp_Stod Std_Map
begin

text \<open>
  The JSON reader of \<open>task3_can_decoder/src/json_value.cpp\<close>: the value class and the recursive
  descent parser, on the unread rest of the text. The parser is proved total: the fuel that bounds
  its recursion is never exhausted.
\<close>

section \<open>Values\<close>

text \<open>
  The class keeps a type tag and one member per type; only the member of the tag is ever set, so the
  accessors of another type return the member's default.
\<close>

datatype json =
    Json_Null
  | Json_Object "(string, json) std_map"
  | Json_String string
  | Json_Number double
  | Json_Bool bool

definition isObject :: "json \<Rightarrow> bool" where
  "isObject v = (case v of Json_Object _ \<Rightarrow> True | _ \<Rightarrow> False)"

definition members :: "json \<Rightarrow> (string, json) std_map" where
  "members v = (case v of Json_Object m \<Rightarrow> m | _ \<Rightarrow> [])"

definition asString :: "json \<Rightarrow> string" where
  "asString v = (case v of Json_String s \<Rightarrow> s | _ \<Rightarrow> '''')"

definition asDouble :: "json \<Rightarrow> double" where
  "asDouble v = (case v of Json_Number x \<Rightarrow> x | _ \<Rightarrow> dzero False)"

definition asLong :: "json \<Rightarrow> int result" where
  "asLong v = cast_long (asDouble v)"

definition asBool :: "json \<Rightarrow> bool" where
  "asBool v = (case v of Json_Bool b \<Rightarrow> b | _ \<Rightarrow> False)"

definition has_key :: "json \<Rightarrow> string \<Rightarrow> bool" where
  "has_key v key = (std_find (members v) key \<noteq> None)"

definition at_key :: "json \<Rightarrow> string \<Rightarrow> json result" where
  "at_key v key =
     (case std_find (members v) key of
        None \<Rightarrow> Inl (Runtime_Error (''Missing JSON key: '' @ key))
      | Some x \<Rightarrow> Inr x)"

section \<open>The parser\<close>

abbreviation quote :: char where "quote \<equiv> CHR 0x22"

definition skipWhitespace :: "string \<Rightarrow> string" where
  "skipWhitespace r = dropWhile is_space r"

text \<open>\<open>peek\<close> skips white space and compares the next character.\<close>

definition next_is :: "char \<Rightarrow> string \<Rightarrow> bool" where
  "next_is c r = (case r of [] \<Rightarrow> False | d # _ \<Rightarrow> d = c)"

definition expect :: "char \<Rightarrow> string \<Rightarrow> string result" where
  "expect c r =
     (let r1 = skipWhitespace r in
      if next_is c r1 then Inr (tl r1)
      else Inl (Runtime_Error (''Expected '' @ [CHR 0x27, c, CHR 0x27] @ '' in JSON'')))"

definition unescape :: "char \<Rightarrow> char" where
  "unescape esc = (if esc = CHR ''n'' then CHR 0x0A else if esc = CHR ''t'' then CHR 0x09 else esc)"

text \<open>The characters up to the closing quote, in reverse in the accumulator.\<close>

fun string_body :: "string \<Rightarrow> string \<Rightarrow> string \<times> string" where
  "string_body out [] = (rev out, [])"
| "string_body out [c] = (if c = quote then (rev out, [c]) else (rev (c # out), []))"
| "string_body out (c # esc # r) =
     (if c = quote then (rev out, c # esc # r)
      else if c = CHR 0x5C then string_body (unescape esc # out) r
      else string_body (c # out) (esc # r))"

definition parse_string :: "string \<Rightarrow> (string \<times> string) result" where
  "parse_string r =
     rbind (expect quote r) (\<lambda>r1.
       let (out, r2) = string_body [] r1 in
       rbind (expect quote r2) (\<lambda>r3. Inr (out, r3)))"

definition number_char :: "char \<Rightarrow> bool" where
  "number_char c \<longleftrightarrow> is_digit 10 c \<or> c \<in> {CHR ''.'', CHR ''e'', CHR ''E'', CHR ''-'', CHR ''+''}"

definition parse_number :: "string \<Rightarrow> (json \<times> string) result" where
  "parse_number r =
     (let sign = (if next_is CHR ''-'' r \<or> next_is CHR ''+'' r then take 1 r else []);
          r1 = drop (length sign) r;
          consumed = sign @ takeWhile number_char r1
      in if consumed = [] then Inl (Runtime_Error ''Invalid number in JSON'')
         else rbind (stod consumed) (\<lambda>x. Inr (Json_Number x, dropWhile number_char r1)))"

definition parse_bool :: "string \<Rightarrow> (json \<times> string) result" where
  "parse_bool r =
     (if take 4 r = ''true'' then Inr (Json_Bool True, drop 4 r)
      else if take 5 r = ''false'' then Inr (Json_Bool False, drop 5 r)
      else Inl (Runtime_Error ''Invalid literal in JSON''))"

text \<open>Sequencing of computations that may also run out of fuel (\<open>None\<close>).\<close>

definition fbind :: "'a result option \<Rightarrow> ('a \<Rightarrow> 'b result option) \<Rightarrow> 'b result option" where
  "fbind m f = (case m of None \<Rightarrow> None | Some (Inl e) \<Rightarrow> Some (Inl e) | Some (Inr x) \<Rightarrow> f x)"

lemma fbind_simps [simp]:
  "fbind None f = None" "fbind (Some (Inl e)) f = Some (Inl e)" "fbind (Some (Inr x)) f = f x"
  by (simp_all add: fbind_def)

lemma fbind_cong [fundef_cong]:
  "m = m' \<Longrightarrow> (\<And>x. m' = Some (Inr x) \<Longrightarrow> f x = f' x) \<Longrightarrow> fbind m f = fbind m' f'"
  by (auto simp: fbind_def split: option.split sum.split)

text \<open>
  \<open>parse_value\<close> and the member loop of \<open>parseObject\<close>. The literal \<open>null\<close> is recognised by its first
  letter: four characters are skipped whatever they are (or up to the end of the text).
\<close>

fun parse_value :: "nat \<Rightarrow> string \<Rightarrow> (json \<times> string) result option"
  and parse_members :: "nat \<Rightarrow> (string, json) std_map \<Rightarrow> string \<Rightarrow> ((string, json) std_map \<times> string) result option"
where
  "parse_value 0 r = None"
| "parse_value (Suc n) r =
     (case skipWhitespace r of
        [] \<Rightarrow> Some (Inl (Runtime_Error ''Unexpected end of JSON''))
      | c # r1 \<Rightarrow>
          if c = CHR 0x7B then
            (let r2 = skipWhitespace r1 in
             if next_is CHR 0x7D r2 then Some (Inr (Json_Object [], tl r2))
             else fbind (parse_members n [] r2) (\<lambda>(m, r3). Some (Inr (Json_Object m, r3))))
          else if c = quote then Some (rbind (parse_string (c # r1)) (\<lambda>(s, r2). Inr (Json_String s, r2)))
          else if c = CHR ''t'' \<or> c = CHR ''f'' then Some (parse_bool (c # r1))
          else if c = CHR ''n'' then Some (Inr (Json_Null, drop 3 r1))
          else Some (parse_number (c # r1)))"
| "parse_members 0 m r = None"
| "parse_members (Suc n) m r =
     fbind (Some (parse_string (skipWhitespace r))) (\<lambda>(key, r1).
     fbind (Some (expect CHR '':'' r1)) (\<lambda>r2.
     fbind (parse_value n r2) (\<lambda>(val, r3).
       let m' = std_emplace key val m; r4 = skipWhitespace r3 in
       if next_is CHR '','' r4 then parse_members n m' (tl r4)
       else fbind (Some (expect CHR 0x7D r4)) (\<lambda>r5. Some (Inr (m', r5))))))"

definition json_parse :: "string \<Rightarrow> json result option" where
  "json_parse input =
     fbind (parse_value (Suc (length input)) input) (\<lambda>(v, rest). Some (Inr v))"

section \<open>Every parser consumes input\<close>

lemma skipWhitespace_length: "length (skipWhitespace r) \<le> length r"
  by (simp add: skipWhitespace_def length_dropWhile_le)

lemma expect_length: "expect c r = Inr r' \<Longrightarrow> length r' < length r"
proof -
  assume e: "expect c r = Inr r'"
  then have "skipWhitespace r \<noteq> []" "r' = tl (skipWhitespace r)"
    by (auto simp: expect_def next_is_def Let_def split: if_splits)
  then show ?thesis using skipWhitespace_length [of r] by (cases "skipWhitespace r") auto
qed

lemma string_body_length: "string_body out r = (s, r') \<Longrightarrow> length r' \<le> length r"
  by (induction out r rule: string_body.induct) (fastforce split: if_splits)+

lemma parse_string_length: "parse_string r = Inr (s, r') \<Longrightarrow> length r' < length r"
proof -
  assume p: "parse_string r = Inr (s, r')"
  then obtain r1 where 1: "expect quote r = Inr r1" by (auto simp: parse_string_def rbind_Inr_iff)
  obtain out r2 where 2: "string_body [] r1 = (out, r2)" by (cases "string_body [] r1")
  have 3: "expect quote r2 = Inr r'" using p by (auto simp: parse_string_def 1 2 rbind_Inr_iff)
  show ?thesis using expect_length [OF 1] string_body_length [OF 2] expect_length [OF 3] by simp
qed

lemma parse_number_length: "parse_number r = Inr (v, r') \<Longrightarrow> length r' < length r"
proof -
  assume p: "parse_number r = Inr (v, r')"
  show ?thesis
  proof (cases "next_is CHR ''-'' r \<or> next_is CHR ''+'' r")
    case True
    then obtain c r1 where "r = c # r1" by (cases r) (auto simp: next_is_def)
    then show ?thesis using p True length_dropWhile_le [of number_char r1]
      by (auto simp: parse_number_def Let_def rbind_Inr_iff)
  next
    case False
    then have "takeWhile number_char r \<noteq> []" "r' = dropWhile number_char r"
      using p by (auto simp: parse_number_def Let_def rbind_Inr_iff split: if_splits)
    then show ?thesis by (cases r) (auto split: if_splits simp: length_dropWhile_le less_Suc_eq_le)
  qed
qed

lemma parse_bool_length: "parse_bool r = Inr (v, r') \<Longrightarrow> length r' < length r"
  by (cases r) (auto simp: parse_bool_def split: if_splits)

lemma fbind_eq: "fbind m f = Some (Inr y) \<longleftrightarrow> (\<exists>x. m = Some (Inr x) \<and> f x = Some (Inr y))"
  by (auto simp: fbind_def split: option.splits sum.splits)

lemma fbind_None: "fbind m f = None \<longleftrightarrow> m = None \<or> (\<exists>x. m = Some (Inr x) \<and> f x = None)"
  by (auto simp: fbind_def split: option.splits sum.splits)

lemma parse_length:
  "parse_value n r = Some (Inr (v, r')) \<Longrightarrow> length r' < length r"
  "parse_members n m r = Some (Inr (m', r')) \<Longrightarrow> length r' < length r"
proof (induction n r and n m r arbitrary: v r' and m' r' rule: parse_value_parse_members.induct)
  case (2 n r)
  obtain c r1 where r: "skipWhitespace r = c # r1"
    using "2.prems" by (cases "skipWhitespace r") auto
  then have len: "Suc (length r1) \<le> length r" using skipWhitespace_length [of r] by simp
  define r2 where "r2 = skipWhitespace r1"
  have r2: "length r2 \<le> length r1" unfolding r2_def by (rule skipWhitespace_length)
  consider "c = CHR 0x7B" "next_is CHR 0x7D r2" | "c = CHR 0x7B" "\<not> next_is CHR 0x7D r2" | "c = quote"
    | "c = CHR ''t'' \<or> c = CHR ''f''" | "c = CHR ''n''"
    | "c \<notin> {CHR 0x7B, quote, CHR ''t'', CHR ''f'', CHR ''n''}" by auto
  then show ?case
  proof cases
    case 1
    then have "r' = tl r2" using "2.prems" r by (simp flip: r2_def)
    then show ?thesis using len r2 by simp
  next
    case 2
    then obtain m where "parse_members n [] r2 = Some (Inr (m, r'))"
      using "2.prems" r by (auto simp: fbind_eq simp flip: r2_def)
    then have "length r' < length r2" using "2.IH" [OF r _ r2_def] 2 by blast
    then show ?thesis using len r2 by simp
  next
    case 3
    then obtain s where "parse_string (c # r1) = Inr (s, r')" using "2.prems" r by (auto simp: rbind_Inr_iff)
    from parse_string_length [OF this] show ?thesis using len by simp
  next
    case 4
    then have "parse_bool (c # r1) = Inr (v, r')" using "2.prems" r by auto
    from parse_bool_length [OF this] show ?thesis using len by simp
  next
    case 5
    then have "r' = drop 3 r1" using "2.prems" r by simp
    then show ?thesis using len by simp
  next
    case 6
    then have "parse_number (c # r1) = Inr (v, r')" using "2.prems" r by simp
    from parse_number_length [OF this] show ?thesis using len by simp
  qed
next
  case (4 n m r)
  from "4.prems" obtain key r1 r2 val r3 where
    k: "parse_string (skipWhitespace r) = Inr (key, r1)" and c: "expect CHR '':'' r1 = Inr r2"
    and v: "parse_value n r2 = Some (Inr (val, r3))"
    and rest: "(let m' = std_emplace key val m; r4 = skipWhitespace r3 in
       if next_is CHR '','' r4 then parse_members n m' (tl r4)
       else fbind (Some (expect CHR 0x7D r4)) (\<lambda>r5. Some (Inr (m', r5)))) = Some (Inr (m', r'))"
    by (auto simp: fbind_eq)
  have len: "length r2 < length r"
    using parse_string_length [OF k] expect_length [OF c] skipWhitespace_length [of r] by linarith
  have r3: "length r3 < length r2" using "4.IH"(1) [of "(key, r1)" key r1 r2 val r3] k c v by simp
  define r4 where "r4 = skipWhitespace r3"
  have r4: "length r4 \<le> length r3" unfolding r4_def by (rule skipWhitespace_length)
  show ?case
  proof (cases "next_is CHR '','' r4")
    case True
    then have "parse_members n (std_emplace key val m) (tl r4) = Some (Inr (m', r'))"
      using rest by (simp add: Let_def flip: r4_def)
    then have "length r' < length (tl r4)"
      using "4.IH"(2) [of "(key, r1)" key r1 r2 "(val, r3)" val r3 "std_emplace key val m" r4] k c v True
      by (simp add: r4_def)
    then show ?thesis using len r3 r4 by simp
  next
    case False
    then have "expect CHR 0x7D r4 = Inr r'" using rest by (auto simp: Let_def fbind_eq simp flip: r4_def)
    from expect_length [OF this] show ?thesis using len r3 r4 by simp
  qed
qed simp_all

section \<open>The fuel is never exhausted\<close>

lemma parse_total:
  "length r < n \<Longrightarrow> parse_value n r \<noteq> None"
  "length r < n \<Longrightarrow> parse_members n m r \<noteq> None"
proof (induction n r and n m r rule: parse_value_parse_members.induct)
  case (2 n r)
  show ?case
  proof (cases "skipWhitespace r")
    case (Cons c r1)
    then have len: "length r1 < n" using skipWhitespace_length [of r] "2.prems" by simp
    define r2 where "r2 = skipWhitespace r1"
    have r2: "length r2 < n" unfolding r2_def using len skipWhitespace_length [of r1] by simp
    then have "c = CHR 0x7B \<Longrightarrow> \<not> next_is CHR 0x7D r2 \<Longrightarrow> parse_members n [] r2 \<noteq> None"
      using "2.IH" [OF Cons _ r2_def] by blast
    then show ?thesis using Cons by (auto simp: fbind_None simp flip: r2_def)
  qed simp
next
  case (4 n m r)
  show ?case
  proof
    assume "parse_members (Suc n) m r = None"
    then obtain key r1 r2 where k: "parse_string (skipWhitespace r) = Inr (key, r1)"
      and c: "expect CHR '':'' r1 = Inr r2"
      and rest: "fbind (parse_value n r2) (\<lambda>(val, r3).
       let m' = std_emplace key val m; r4 = skipWhitespace r3 in
       if next_is CHR '','' r4 then parse_members n m' (tl r4)
       else fbind (Some (expect CHR 0x7D r4)) (\<lambda>r5. Some (Inr (m', r5)))) = None"
      by (auto simp: fbind_None)
    have len: "length r2 < n"
      using parse_string_length [OF k] expect_length [OF c] skipWhitespace_length [of r] "4.prems" by linarith
    then have "parse_value n r2 \<noteq> None" using "4.IH"(1) [of "(key, r1)" key r1 r2] k c by simp
    with rest obtain val r3 where v: "parse_value n r2 = Some (Inr (val, r3))"
      and rest': "(let m' = std_emplace key val m; r4 = skipWhitespace r3 in
       if next_is CHR '','' r4 then parse_members n m' (tl r4)
       else fbind (Some (expect CHR 0x7D r4)) (\<lambda>r5. Some (Inr (m', r5)))) = None"
      by (auto simp: fbind_None)
    define r4 where "r4 = skipWhitespace r3"
    have r4: "length r4 < n" unfolding r4_def
      using parse_length(1) [OF v] skipWhitespace_length [of r3] len by linarith
    have "next_is CHR '','' r4 \<Longrightarrow> parse_members n (std_emplace key val m) (tl r4) \<noteq> None"
      using "4.IH"(2) [of "(key, r1)" key r1 r2 "(val, r3)" val r3 "std_emplace key val m" r4] k c v r4
      by (simp add: r4_def)
    then show False using rest' by (auto simp: Let_def fbind_None simp flip: r4_def split: if_splits)
  qed
qed simp_all

lemma json_parse_not_None: "json_parse input \<noteq> None"
  using parse_total(1) [of input "Suc (length input)"] by (auto simp: json_parse_def fbind_None)

text \<open>
  C39: the parser returns for every text: a value or an exception, with the fuel json_parse supplies
  (one more than the number of characters).
\<close>

theorem json_parse_total: "json_parse input \<noteq> None"
  by (rule json_parse_not_None)

section \<open>White space and literals\<close>

lemma skip_stop: "\<not> is_space c \<Longrightarrow> skipWhitespace (c # r) = c # r"
  by (simp add: skipWhitespace_def)

lemma not_spaces [simp]:
  "\<not> is_space quote" "\<not> is_space CHR '':''" "\<not> is_space CHR '',''" "\<not> is_space CHR 0x7B" "\<not> is_space CHR 0x7D"
  "\<not> is_space CHR ''n''" "\<not> is_space CHR ''t''" "\<not> is_space CHR ''f''" "\<not> is_space CHR ''-''"
  by (simp_all add: is_space_def)

lemma expect_here: "\<not> is_space c \<Longrightarrow> expect c (c # r) = Inr r"
  by (simp add: expect_def skip_stop next_is_def)

text \<open>
  Every text that starts with the letter n is read as null: the parser does not look at the three
  characters it skips after it.
\<close>

lemma null_by_first_letter: "json_parse (CHR ''n'' # rest) = Some (Inr Json_Null)"
  by (simp add: json_parse_def skip_stop)

end
