(* ===== verification/Json_Layout.thy ===== *)
theory Json_Layout
  imports Json_Value
begin

text \<open>
  What the JSON reader accepts, as a grammar: the texts that denote a value, with white space between
  any two tokens, escapes in strings, decimal numbers, and keys that occur several times. The parser of
  \<open>json_value.cpp\<close> reads each of them as the value it denotes. A printer is one way to write such a
  text, the indented layout below another.
\<close>

section \<open>The grammar\<close>

text \<open>
  The grammar refers to characters, decimal numbers and finite maps only, not to the functions of the
  reader. It is the one of JSON without arrays, with five of the escapes, the ones whose meaning the
  reader knows.
\<close>

definition white :: "string \<Rightarrow> bool" where
  "white w \<longleftrightarrow> (\<forall>c \<in> set w. c \<in> {CHR 0x09, CHR 0x0A, CHR 0x0B, CHR 0x0C, CHR 0x0D, CHR 0x20})"

text \<open>The characters between the quotes and the string they denote.\<close>

inductive string_text :: "string \<Rightarrow> string \<Rightarrow> bool" where
  string_end: "string_text [] []"
| string_plain: "c \<noteq> quote \<Longrightarrow> c \<noteq> CHR 0x5C \<Longrightarrow> string_text t s \<Longrightarrow> string_text (c # t) (c # s)"
| string_quote: "string_text t s \<Longrightarrow> string_text (CHR 0x5C # quote # t) (quote # s)"
| string_backslash: "string_text t s \<Longrightarrow> string_text (CHR 0x5C # CHR 0x5C # t) (CHR 0x5C # s)"
| string_slash: "string_text t s \<Longrightarrow> string_text (CHR 0x5C # CHR ''/'' # t) (CHR ''/'' # s)"
| string_newline: "string_text t s \<Longrightarrow> string_text (CHR 0x5C # CHR ''n'' # t) (CHR 0x0A # s)"
| string_tab: "string_text t s \<Longrightarrow> string_text (CHR 0x5C # CHR ''t'' # t) (CHR 0x09 # s)"

text \<open>Decimal digits and the natural number they denote.\<close>

definition decimal_digits :: "string \<Rightarrow> bool" where
  "decimal_digits ds \<longleftrightarrow> set ds \<subseteq> set ''0123456789''"

definition decimal :: "string \<Rightarrow> nat" where
  "decimal ds = foldl (\<lambda>n c. 10 * n + (of_char c - 48)) 0 ds"

text \<open>
  The double nearest to a fraction, in the range where it is one: no overflow, and no loss of digits
  below the normal numbers.
\<close>

definition nearest_double :: "bool \<Rightarrow> nat \<Rightarrow> nat \<Rightarrow> double \<Rightarrow> bool" where
  "nearest_double neg num den x \<longleftrightarrow> x = round_frac neg num den \<and>
     (case x of Finite s m e \<Rightarrow> 2 ^ 52 \<le> m \<or> (of_nat m :: rat) * 2 powi e = of_nat num / of_nat den | _ \<Rightarrow> False)"

definition exponent_text :: "string \<Rightarrow> int \<Rightarrow> bool" where
  "exponent_text u e \<longleftrightarrow> u = [] \<and> e = 0 \<or>
     (\<exists>c ds. c \<in> {CHR ''e'', CHR ''E''} \<and> ds \<noteq> [] \<and> decimal_digits ds \<and>
        (u \<in> {c # ds, c # CHR ''+'' # ds} \<and> e = int (decimal ds) \<or> u = c # CHR ''-'' # ds \<and> e = - int (decimal ds)))"

text \<open>An optional minus sign, the integer part, an optional fraction, an optional exponent.\<close>

definition number_text :: "string \<Rightarrow> double \<Rightarrow> bool" where
  "number_text t x \<longleftrightarrow>
     (\<exists>neg ip ds u e. ip \<noteq> [] \<and> decimal_digits ip \<and> decimal_digits ds \<and> exponent_text u e \<and>
        t = (if neg then ''-'' else []) @ ip @ (if ds = [] then [] else CHR ''.'' # ds) @ u \<and>
        (let k = e - int (length ds) in nearest_double neg (decimal (ip @ ds) * 10 ^ nat k) (10 ^ nat (- k)) x))"

text \<open>
  White space is the one in front of a token. The members of an object are listed as they are
  written; the object is the map, in the order of the keys, that gives each key its first value.
\<close>

inductive denotes :: "string \<Rightarrow> json \<Rightarrow> bool"
  and denote_members :: "string \<Rightarrow> (string \<times> json) list \<Rightarrow> bool"
where
  den_null: "white w \<Longrightarrow> denotes (w @ ''null'') Json_Null"
| den_true: "white w \<Longrightarrow> denotes (w @ ''true'') (Json_Bool True)"
| den_false: "white w \<Longrightarrow> denotes (w @ ''false'') (Json_Bool False)"
| den_number: "white w \<Longrightarrow> number_text t x \<Longrightarrow> denotes (w @ t) (Json_Number x)"
| den_string: "white w \<Longrightarrow> string_text t s \<Longrightarrow> denotes (w @ quote # t @ [quote]) (Json_String s)"
| den_empty: "white w \<Longrightarrow> white w' \<Longrightarrow> denotes (w @ CHR 0x7B # w' @ [CHR 0x7D]) (Json_Object [])"
| den_object: "white w \<Longrightarrow> white w' \<Longrightarrow> denote_members t ms \<Longrightarrow> std_ordered m \<Longrightarrow> map_of m = map_of ms \<Longrightarrow>
    denotes (w @ CHR 0x7B # t @ w' @ [CHR 0x7D]) (Json_Object m)"
| den_last: "white w \<Longrightarrow> white w' \<Longrightarrow> string_text t k \<Longrightarrow> denotes u v \<Longrightarrow>
    denote_members (w @ quote # t @ [quote] @ w' @ CHR '':'' # u) [(k, v)]"
| den_more: "white w \<Longrightarrow> white w' \<Longrightarrow> white w'' \<Longrightarrow> string_text t k \<Longrightarrow> denotes u v \<Longrightarrow> denote_members r ms \<Longrightarrow>
    denote_members (w @ quote # t @ [quote] @ w' @ CHR '':'' # u @ w'' @ CHR '','' # r) ((k, v) # ms)"

section \<open>Characters and numbers\<close>

lemma char_code: "c \<in> A \<longleftrightarrow> (of_char c :: nat) \<in> of_char ` A"
  by auto

lemma white_is_space: "white w \<longleftrightarrow> (\<forall>c \<in> set w. is_space c)"
proof -
  have "is_space c \<longleftrightarrow> c \<in> {CHR 0x09, CHR 0x0A, CHR 0x0B, CHR 0x0C, CHR 0x0D, CHR 0x20}" for c
    unfolding char_code [of c] by (simp add: is_space_def Let_def) presburger
  then show ?thesis by (simp add: white_def)
qed

lemma digit_char_iff: "is_digit 10 c \<longleftrightarrow> c \<in> set ''0123456789''"
proof -
  define n where "n = (of_char c :: nat)"
  have "is_digit 10 c \<longleftrightarrow> 48 \<le> n \<and> n \<le> 57"
    by (auto simp: is_digit_def digit_val_def n_def Let_def)
  also have "\<dots> \<longleftrightarrow> n \<in> of_char ` set ''0123456789''" by simp presburger
  finally show ?thesis unfolding n_def char_code [of c] .
qed

lemma digits_iff: "decimal_digits ds \<longleftrightarrow> (\<forall>c \<in> set ds. is_digit 10 c)"
  by (simp only: decimal_digits_def digit_char_iff subset_eq)

lemma digit_value: "is_digit 10 c \<Longrightarrow> digit_val c = Some (of_char c - 48)"
  unfolding digit_char_iff by (auto simp: digit_val_def)

lemma read_decimal:
  assumes "decimal_digits ds" and "\<not> starts_with_digit 10 r"
  shows "read_digits 10 0 (ds @ r) = (decimal ds, r)"
proof -
  have "read_digits 10 n (ds @ r) = (foldl (\<lambda>n c. 10 * n + (of_char c - 48)) n ds, r)" for n
    using assms by (induction ds arbitrary: n) (simp_all add: read_digits_stop digits_iff digit_value mult.commute)
  then show ?thesis by (simp add: decimal_def)
qed

lemma exponent_start: "exponent_text u e \<Longrightarrow> u = [] \<or> (\<exists>c v. u = c # v \<and> c \<in> {CHR ''e'', CHR ''E''})"
  by (auto simp: exponent_text_def)

lemma scan_exponent_text:
  assumes "exponent_text u e"
  shows "scan_exponent {CHR ''e'', CHR ''E''} u = e"
proof -
  have dig: "starts_with_digit 10 ds" "read_sign ds = (False, ds)" "read_digits 10 0 ds = (decimal ds, [])"
    if ne: "ds \<noteq> []" and dd: "decimal_digits ds" for ds
  proof -
    obtain c cs where ds: "ds = c # cs" using ne by (cases ds) auto
    then have c: "is_digit 10 c" using dd by (simp add: digits_iff)
    then show "starts_with_digit 10 ds" by (simp add: ds starts_with_digit_def)
    have "c \<noteq> CHR ''-''" "c \<noteq> CHR ''+''" using c by (auto simp: is_digit_def digit_val_def)
    then show "read_sign ds = (False, ds)" by (simp add: ds read_sign_def)
    show "read_digits 10 0 ds = (decimal ds, [])"
      using read_decimal [OF dd, of "[]"] by (simp add: starts_with_digit_def)
  qed
  have sg: "read_sign (CHR ''+'' # ds) = (False, ds)" "read_sign (CHR ''-'' # ds) = (True, ds)" for ds
    by (simp_all add: read_sign_def)
  show ?thesis using assms by (auto simp: exponent_text_def scan_exponent_def dig sg)
qed

lemma scan_decimal:
  assumes "ip \<noteq> []" and "decimal_digits ip" and "decimal_digits ds" and "exponent_text u e"
  shows "scan_mantissa 10 (ip @ (if ds = [] then [] else CHR ''.'' # ds) @ u) = Some (ip @ ds, length ds, u)"
proof -
  have cut: "takeWhile (is_digit 10) (xs @ r) = xs" "dropWhile (is_digit 10) (xs @ r) = r"
    if "decimal_digits xs" "case r of [] \<Rightarrow> True | c # _ \<Rightarrow> \<not> is_digit 10 c" for xs r
    using that by (cases r; auto simp: digits_iff takeWhile_append dropWhile_append)+
  have u: "case u of [] \<Rightarrow> True | c # _ \<Rightarrow> \<not> is_digit 10 c \<and> c \<noteq> CHR ''.''"
    using exponent_start [OF assms(4)] by (auto simp: is_digit_def digit_val_def)
  then have u': "case u of [] \<Rightarrow> True | c # _ \<Rightarrow> \<not> is_digit 10 c" by (simp split: list.splits)
  have dot: "\<not> is_digit 10 CHR ''.''" by (simp add: is_digit_def digit_val_def)
  show ?thesis
  proof (cases "ds = []")
    case True
    then have e: "ip @ (if ds = [] then [] else CHR ''.'' # ds) @ u = ip @ u" by simp
    show ?thesis unfolding e scan_mantissa_def Let_def cut [OF assms(2) u']
      using u assms(1) True by (cases u) auto
  next
    case False
    then show ?thesis using cut [OF assms(2), of "CHR ''.'' # ds @ u"] cut [OF assms(3) u'] dot assms(1)
      by (simp add: scan_mantissa_def Let_def)
  qed
qed

lemma to_double_nearest:
  assumes "den \<noteq> 0" and "nearest_double neg num den x"
  shows "to_double neg num den = Inr x"
proof (cases "num = 0")
  case True
  then show ?thesis using assms(2) by (simp add: nearest_double_def to_double_def round_frac_def)
next
  case False
  obtain s m e where x: "x = Finite s m e" "round_frac neg num den = Finite s m e"
    and v: "2 ^ 52 \<le> m \<or> (of_nat m :: rat) * 2 powi e = of_nat num / of_nat den"
    using assms(2) by (auto simp: nearest_double_def split: double.splits)
  have "m * den = num * 2 ^ 1074" if "m < 2 ^ 52"
  proof -
    have "e = -1074" by (rule round_frac_spec [OF False assms(1), of neg]) (use x(2) that in \<open>auto split: if_splits\<close>)
    with v that have "(of_nat m :: rat) / 2 ^ 1074 = of_nat num / of_nat den" by (simp add: power_int_def power_inverse field_simps)
    then have "(of_nat (m * den) :: rat) = of_nat (num * 2 ^ 1074)" using assms(1) by (simp add: field_simps)
    then show ?thesis by (simp only: of_nat_eq_iff)
  qed
  with False x show ?thesis by (auto simp: to_double_def)
qed

text \<open>What the reader needs to know of a number.\<close>

lemma number_text_read:
  assumes "number_text t x"
  shows "t \<noteq> []" and "\<forall>c \<in> set t. number_char c" and "stod t = Inr x"
proof -
  obtain neg ip ds u e where n: "ip \<noteq> []" "decimal_digits ip" "decimal_digits ds" "exponent_text u e"
    and t: "t = (if neg then ''-'' else []) @ ip @ (if ds = [] then [] else CHR ''.'' # ds) @ u"
    and x: "nearest_double neg (decimal (ip @ ds) * 10 ^ nat (e - int (length ds))) (10 ^ nat (- (e - int (length ds)))) x"
    using assms unfolding number_text_def Let_def by blast
  show "t \<noteq> []" by (simp add: t n(1))
  define w where "w = ip @ (if ds = [] then [] else CHR ''.'' # ds) @ u"
  have "\<forall>c \<in> set u. number_char c" using n(4) by (auto simp: exponent_text_def digits_iff number_char_def)
  then have w: "\<forall>c \<in> set w. number_char c" using n(2,3) by (auto simp: w_def digits_iff number_char_def)
  then show "\<forall>c \<in> set t. number_char c" by (auto simp: t w_def number_char_def)
  obtain c cs where ip: "ip = c # cs" using n(1) by (cases ip) auto
  then have c: "is_digit 10 c" using n(2) by (simp add: digits_iff)
  then have "c \<noteq> CHR ''-''" "c \<noteq> CHR ''+''" "\<not> is_space c" by (auto simp: is_digit_def digit_val_def is_space_def Let_def split: if_splits)
  then have sign: "read_sign (dropWhile is_space t) = (neg, w)"
    by (simp add: t w_def ip read_sign_def is_space_def)
  have "\<not> has_prefix ''0x'' w"
  proof
    assume "has_prefix ''0x'' w"
    then obtain a b r where "w = a # b # r" "lower b = CHR ''x''" using has_prefix_0x by blast
    then have "number_char CHR ''x'' \<or> number_char CHR ''X''" using w lower_x by force
    then show False by (simp add: number_char_def is_digit_def digit_val_def)
  qed
  moreover have "read_digits 10 0 (ip @ ds) = (decimal (ip @ ds), [])"
    using read_decimal [of "ip @ ds" "[]"] n(2,3)
    by (auto simp: starts_with_digit_def decimal_digits_def)
  moreover have "scan_mantissa 10 w = Some (ip @ ds, length ds, u)"
    unfolding w_def by (rule scan_decimal [OF n])
  ultimately have "stod t = scaled_double neg (decimal (ip @ ds)) 10 (e - int (length ds))"
    using scan_exponent_text [OF n(4)] by (simp add: stod_def sign)
  then show "stod t = Inr x" using to_double_nearest [OF _ x] by (simp add: scaled_double_def)
qed

text \<open>Numbers without exponent.\<close>

lemma number_textI:
  assumes "ip \<noteq> []" and "decimal_digits ip" and "decimal_digits ds"
    and "nearest_double neg (decimal (ip @ ds)) (10 ^ length ds) x"
  shows "number_text ((if neg then ''-'' else []) @ ip @ (if ds = [] then [] else CHR ''.'' # ds)) x"
  unfolding number_text_def
  by (rule exI [of _ neg], rule exI [of _ ip], rule exI [of _ ds], rule exI [of _ "[]"], rule exI [of _ 0])
    (use assms in \<open>simp add: exponent_text_def\<close>)

lemma number_text_integer:
  assumes "\<bar>i\<bar> < 2 ^ 53"
  shows "number_text (dec_int i) (of_integer i)"
proof -
  define n where "n = nat \<bar>i\<bar>"
  have d: "decimal_digits (dec_nat n)" "dec_nat n \<noteq> []"
    using dec_nat_all_digits [of _ n] by (auto simp: digits_iff dec_nat_def)
  have v: "decimal (dec_nat n) = n"
    using read_decimal [OF d(1), of "[]"] read_dec_nat [of n] by (simp add: starts_with_digit_def)
  have r: "of_integer i = round_frac (i < 0) n 1" by (simp add: of_integer_def round_dyadic_def n_def)
  have "representable ((of_nat n :: rat) / of_nat 1)"
    using assms representable_of_nat [of n] by (simp add: n_def)
  then obtain m e where f: "round_frac (i < 0) n 1 = Finite (i < 0) m e" "of_nat m * 2 powi e = (of_nat n :: rat) / of_nat 1"
    by (rule round_frac_exact [rotated]) auto
  then have "nearest_double (i < 0) (decimal (dec_nat n @ [])) (10 ^ length []) (of_integer i)"
    by (simp add: nearest_double_def v r)
  from number_textI [OF d(2,1) _ this] show ?thesis by (simp add: decimal_digits_def dec_int_def n_def split: if_splits)
qed

section \<open>Objects\<close>

lemma emplace_append:
  "std_ordered (m @ [(k, v)]) \<Longrightarrow> std_emplace k v m = m @ [(k, v)]"
  by (induction k v m rule: std_emplace.induct) (fastforce simp: less_not_sym)+

definition emplace_all :: "(string \<times> json) list \<Rightarrow> (string, json) std_map \<Rightarrow> (string, json) std_map" where
  "emplace_all ms m = fold (\<lambda>(k, v). std_emplace k v) ms m"

lemma emplace_all_map: "std_ordered (emplace_all ms [])" "map_of (emplace_all ms []) = map_of ms"
proof -
  show "std_ordered (emplace_all ms [])" unfolding emplace_all_def by (rule std.inv_emplace_all) simp
  show "map_of (emplace_all ms []) = map_of ms"
    using std.first_wins [of ms] by (simp add: emplace_all_def std_find_def fun_eq_iff)
qed

text \<open>An ordered map is determined by its lookups.\<close>

lemma ordered_map_unique:
  assumes "std_ordered m" and "std_ordered m'" and "map_of m = map_of m'"
  shows "m = m'"
proof -
  have d: "distinct (map fst m)" "distinct (map fst m')"
    using assms(1,2) by (simp_all add: std_ordered_def strict_sorted_iff)
  have "(k, v) \<in> set m \<longleftrightarrow> (k, v) \<in> set m'" for k v
    using assms(3) d by (metis map_of_eq_Some_iff)
  then have s: "set m = set m'" by auto
  have "inj_on fst (set m \<union> set m')" using d(1) s by (simp add: distinct_map)
  moreover have "map fst m = map fst m'"
    using assms(1,2) arg_cong [OF s, of "\<lambda>A. fst ` A"]
    by (intro strict_sorted_equal) (simp_all add: std_ordered_def)
  ultimately show ?thesis using map_inj_on by blast
qed

lemma emplace_all_eq: "std_ordered m \<Longrightarrow> map_of m = map_of ms \<Longrightarrow> emplace_all ms [] = m"
  by (rule ordered_map_unique) (simp_all add: emplace_all_map)

section \<open>The parser reads the grammar\<close>

text \<open>A number is read up to the first character that cannot belong to one.\<close>

definition value_end :: "string \<Rightarrow> bool" where
  "value_end rest \<longleftrightarrow> (case rest of [] \<Rightarrow> True | c # _ \<Rightarrow> c \<notin> set ''0123456789.eE+-'')"

lemma number_char_iff: "number_char c \<longleftrightarrow> c \<in> set ''0123456789.eE+-''"
proof -
  have s: "c \<in> set ''.eE+-'' \<longleftrightarrow> c \<in> {CHR ''.'', CHR ''e'', CHR ''E'', CHR ''-'', CHR ''+''}" by auto
  have e: "''0123456789.eE+-'' = ''0123456789'' @ ''.eE+-''" by simp
  show ?thesis unfolding e set_append Un_iff s number_char_def digit_char_iff ..
qed

lemma value_end_iff: "value_end rest \<longleftrightarrow> (case rest of [] \<Rightarrow> True | c # _ \<Rightarrow> \<not> number_char c)"
  by (simp only: value_end_def number_char_iff)

lemma skip_white: "white w \<Longrightarrow> skipWhitespace (w @ r) = skipWhitespace r"
  unfolding skipWhitespace_def white_is_space by (induction w) auto

lemma unescape_simps [simp]:
  "unescape quote = quote" "unescape CHR 0x5C = CHR 0x5C" "unescape CHR ''/'' = CHR ''/''"
  "unescape CHR ''n'' = CHR 0x0A" "unescape CHR ''t'' = CHR 0x09"
  by (simp_all add: unescape_def)

lemma string_body_text: "string_text t s \<Longrightarrow> string_body out (t @ quote # rest) = (rev out @ s, quote # rest)"
proof (induction arbitrary: out rule: string_text.induct)
  case string_end
  then show ?case by (cases rest) simp_all
next
  case (string_plain c t s)
  obtain d ds where "t @ quote # rest = d # ds" by (cases t) auto
  with string_plain show ?case by (simp del: append_Cons) (simp add: string_plain.hyps)
qed simp_all

lemma expect_white: "white w \<Longrightarrow> \<not> is_space c \<Longrightarrow> expect c (w @ c # r) = Inr r"
  by (simp add: expect_def skip_white skip_stop next_is_def)

lemma parse_string_text: "string_text t s \<Longrightarrow> parse_string (quote # t @ quote # rest) = Inr (s, rest)"
  using string_body_text [of t s "[]" rest] by (simp add: parse_string_def expect_here)

lemma number_chars_plain: "number_char c \<Longrightarrow> \<not> is_space c \<and> c \<notin> {CHR 0x7B, CHR 0x7D, quote, CHR ''t'', CHR ''f'', CHR ''n''}"
  by (auto simp: number_char_def is_digit_def digit_val_def is_space_def Let_def split: if_splits)

lemma parse_number_text:
  assumes "number_text t x" and "value_end rest"
  shows "parse_number (t @ rest) = Inr (Json_Number x, rest)"
proof -
  have cut: "takeWhile number_char (u @ rest) = u" "dropWhile number_char (u @ rest) = rest"
    if "\<forall>c \<in> set u. number_char c" for u
    using that assms(2) by (cases rest; auto simp: value_end_iff takeWhile_append dropWhile_append)+
  note n = number_text_read [OF assms(1)]
  obtain c u where t: "t = c # u" using n(1) by (cases t) simp_all
  show ?thesis
    using n cut [of t] cut [of u]
    by (auto simp: parse_number_def t next_is_def Let_def)
qed

lemma white_nil [simp]: "white []" by (simp add: white_def)

lemma members_start: "denote_members t ms \<Longrightarrow> \<exists>w r. white w \<and> t = w @ quote # r"
  by (erule denote_members.cases) auto

lemma value_end_white:
  assumes "white w" and "c \<in> {CHR '','', CHR 0x7D}"
  shows "value_end (w @ c # r)"
proof (cases w)
  case Nil
  then show ?thesis using assms(2) by (auto simp: value_end_iff number_char_def is_digit_def digit_val_def)
next
  case (Cons d ds)
  then have "is_space d" using assms(1) by (simp add: white_is_space)
  then have "\<not> number_char d" using number_chars_plain by blast
  then show ?thesis by (simp add: Cons value_end_iff)
qed

lemma parse_value_skip: "white w \<Longrightarrow> parse_value (Suc n) (w @ r) = parse_value (Suc n) r"
  by (simp add: skip_white)

lemma parse_members_skip: "white w \<Longrightarrow> parse_members (Suc n) m (w @ r) = parse_members (Suc n) m r"
  by (simp add: skip_white)

lemma parse_member:
  assumes "white w" and "white w'" and "string_text t k" and "parse_value n (u @ z) = Some (Inr (v, z))"
  shows "parse_members (Suc n) m (w @ quote # t @ [quote] @ w' @ CHR '':'' # u @ z) =
    (let m' = std_emplace k v m; r4 = skipWhitespace z in
     if next_is CHR '','' r4 then parse_members n m' (tl r4)
     else fbind (Some (expect CHR 0x7D r4)) (\<lambda>r5. Some (Inr (m', r5))))"
  unfolding parse_members_skip [OF assms(1)]
  by (simp add: skip_stop parse_string_text [OF assms(3)] expect_white [OF assms(2)] assms(4) del: parse_value.simps)

lemma parse_denoted:
  "denotes t v \<Longrightarrow> value_end rest \<Longrightarrow> length (t @ rest) < n \<Longrightarrow> parse_value n (t @ rest) = Some (Inr (v, rest))"
  "denote_members r ms \<Longrightarrow> white z \<Longrightarrow> length (r @ z @ CHR 0x7D # rest) < n \<Longrightarrow>
     parse_members n m (r @ z @ CHR 0x7D # rest) = Some (Inr (emplace_all ms m, rest))"
proof (induction arbitrary: rest n and rest n m z rule: denotes_denote_members.inducts)
  case (den_number w t x)
  note n = number_text_read [OF den_number(2)]
  obtain c u where t: "t = c # u" using n(1) by (cases t) simp_all
  have "number_char c" using n(2) by (simp add: t)
  then have c: "\<not> is_space c" "c \<notin> {CHR 0x7B, quote, CHR ''t'', CHR ''f'', CHR ''n''}"
    using number_chars_plain by blast+
  obtain n' where "n = Suc n'" using den_number(4) by (cases n) auto
  then show ?case using parse_number_text [OF den_number(2,3)] c
    by (simp add: skip_white [OF den_number(1)]) (simp add: t skip_stop)
next
  case (den_string w t s)
  then show ?case
    by (cases n) (simp_all add: skip_white skip_stop parse_string_text)
next
  case (den_empty w w')
  then show ?case by (cases n) (simp_all add: skip_white skip_stop next_is_def)
next
  case (den_object w w' t ms m)
  obtain n' where n: "n = Suc n'" using den_object.prems by (cases n) auto
  obtain y z where t: "white y" "t = y @ quote # z" using members_start [OF den_object(3)] by blast
  obtain n'' where n': "n' = Suc n''" using den_object.prems by (cases n') (auto simp: n)
  have "parse_members n' [] (t @ w' @ CHR 0x7D # rest) = Some (Inr (m, rest))"
    unfolding emplace_all_eq [OF den_object(4,5), symmetric] using den_object(2) den_object.prems by (intro den_object.IH) (simp_all add: n)
  moreover have "skipWhitespace (t @ w' @ CHR 0x7D # rest) = quote # z @ w' @ CHR 0x7D # rest"
    by (simp add: t(2) skip_white [OF t(1)] skip_stop)
  moreover have "parse_members n' [] (t @ w' @ CHR 0x7D # rest) = parse_members n' [] (quote # z @ w' @ CHR 0x7D # rest)"
    using parse_members_skip [OF t(1), of n'' "[]" "quote # z @ w' @ CHR 0x7D # rest"] by (simp only: n' t(2) append_assoc append_Cons)
  ultimately show ?case using den_object(1)
    by (simp add: n skip_white skip_stop next_is_def del: parse_members.simps)
next
  case (den_last w w' t k u v)
  obtain n' where n: "n = Suc n'" using den_last.prems by (cases n) auto
  have v: "parse_value n' (u @ z @ CHR 0x7D # rest) = Some (Inr (v, z @ CHR 0x7D # rest))"
    using den_last.prems by (intro den_last.IH) (simp_all add: n value_end_white)
  show ?case
    using parse_member [where t = t and m = m, OF den_last(1-3) v] den_last.prems(1)
    by (simp add: n skip_white skip_stop next_is_def expect_here emplace_all_def)
next
  case (den_more w w' w'' t k u v r ms)
  obtain n' where n: "n = Suc n'" using den_more.prems by (cases n) auto
  let ?r = "r @ z @ CHR 0x7D # rest"
  have v: "parse_value n' (u @ w'' @ CHR '','' # ?r) = Some (Inr (v, w'' @ CHR '','' # ?r))"
    using den_more(3) den_more.prems by (intro den_more.IH(1)) (simp_all add: n value_end_white)
  have "parse_members n' (std_emplace k v m) ?r = Some (Inr (emplace_all ms (std_emplace k v m), rest))"
    using den_more.prems by (intro den_more.IH(2)) (simp_all add: n)
  then show ?case
    using parse_member [where t = t and m = m, OF den_more(1,2,4) v] den_more(3)
    by (simp add: n skip_white skip_stop next_is_def emplace_all_def)
next
  case (den_null w)
  then show ?case by (cases n) (simp_all add: skip_white skip_stop)
next
  case (den_true w)
  then show ?case by (cases n) (simp_all add: skip_white skip_stop parse_bool_def)
next
  case (den_false w)
  then show ?case by (cases n) (simp_all add: skip_white skip_stop parse_bool_def)
qed

lemma json_parse_denoted: "denotes t v \<Longrightarrow> value_end rest \<Longrightarrow> json_parse (t @ rest) = Some (Inr v)"
  using parse_denoted(1) [of t v rest "Suc (length (t @ rest))"] by (simp add: json_parse_def)

section \<open>A printer\<close>

definition escape :: "char \<Rightarrow> string" where
  "escape c = (if c = quote \<or> c = CHR 0x5C then [CHR 0x5C, c] else [c])"

definition print_string :: "string \<Rightarrow> string" where
  "print_string s = [quote] @ concat (map escape s) @ [quote]"

fun print_json :: "json \<Rightarrow> string" and print_members :: "(string \<times> json) list \<Rightarrow> string" where
  "print_json Json_Null = ''null''"
| "print_json (Json_Bool b) = (if b then ''true'' else ''false'')"
| "print_json (Json_String s) = print_string s"
| "print_json (Json_Number x) = dec_int (the (dtrunc x))"
| "print_json (Json_Object m) = [CHR 0x7B] @ print_members m @ [CHR 0x7D]"
| "print_members [] = ''''"
| "print_members [(k, v)] = print_string k @ '':'' @ print_json v"
| "print_members ((k, v) # p # ms) = print_string k @ '':'' @ print_json v @ '','' @ print_members (p # ms)"

text \<open>The values the printer covers: integral numbers below \<open>2 ^ 53\<close>, objects in key order.\<close>

fun printable :: "json \<Rightarrow> bool" and printable_members :: "(string \<times> json) list \<Rightarrow> bool" where
  "printable (Json_Number x) \<longleftrightarrow>
     (case dtrunc x of None \<Rightarrow> False | Some i \<Rightarrow> \<bar>i\<bar> < 2 ^ 53 \<and> x = of_integer i)"
| "printable (Json_Object m) \<longleftrightarrow> std_ordered m \<and> printable_members m"
| "printable _ \<longleftrightarrow> True"
| "printable_members [] \<longleftrightarrow> True"
| "printable_members ((k, v) # ms) \<longleftrightarrow> printable v \<and> printable_members ms"

text \<open>The printer writes texts of the grammar.\<close>

lemma string_text_escaped: "string_text (concat (map escape s)) s"
  by (induction s) (auto simp: escape_def intro: string_text.intros)

lemma print_denotes:
  "printable v \<Longrightarrow> denotes (print_json v) v"
  "printable_members ms \<Longrightarrow> ms \<noteq> [] \<Longrightarrow> denote_members (print_members ms) ms"
proof (induction v and ms rule: print_json_print_members.induct)
  case (4 x)
  then obtain i where i: "\<bar>i\<bar> < 2 ^ 53" "x = of_integer i" "dtrunc x = Some i" by (auto split: option.splits)
  then show ?case using den_number [of "[]", OF _ number_text_integer [OF i(1)]] by simp
next
  case (5 m)
  then show ?case
    using den_empty [of "[]" "[]"] den_object [of "[]" "[]" "print_members m" m m]
    by (cases "m = []") simp_all
next
  case (7 k v)
  then show ?case using den_last [of "[]" "[]", OF _ _ string_text_escaped [of k], of "print_json v" v]
    by (simp add: print_string_def)
next
  case (8 k v p ms)
  then show ?case
    using den_more [of "[]" "[]" "[]", OF _ _ _ string_text_escaped [of k], of "print_json v" v "print_members (p # ms)" "p # ms"]
    by (simp add: print_string_def)
qed (use den_null [of "[]"] den_true [of "[]"] den_false [of "[]"] den_string [of "[]", OF _ string_text_escaped]
    in \<open>auto simp: print_string_def\<close>)

lemma integral_number: "\<bar>i\<bar> < 2 ^ 53 \<Longrightarrow> printable (Json_Number (of_integer i))"
  using of_integer_exact [of i] dtrunc_exact [of "of_integer i" i] by simp

definition sample_json :: json where
  "sample_json = Json_Object [(''length'', Json_Number (of_integer 16)), (''name'', Json_String (quote # ''rpm'' @ [quote]))]"

section \<open>An indented layout\<close>

text \<open>
  Documents keep the order of the members and the spelling of numbers; \<open>doc_text\<close> writes one member
  per line, indented by two blanks per level.
\<close>

datatype json_doc =
    Doc_Integer int
  | Doc_Decimal string double
  | Doc_String string
  | Doc_Bool bool
  | Doc_Object "(string \<times> json_doc) list"

fun doc_text :: "nat \<Rightarrow> json_doc \<Rightarrow> string" and doc_members :: "nat \<Rightarrow> (string \<times> json_doc) list \<Rightarrow> string" where
  "doc_text i (Doc_Integer n) = dec_int n"
| "doc_text i (Doc_Decimal t x) = t"
| "doc_text i (Doc_String s) = quote # s @ [quote]"
| "doc_text i (Doc_Bool b) = (if b then ''true'' else ''false'')"
| "doc_text i (Doc_Object ms) =
     CHR 0x7B # [newline] @ doc_members (i + 2) ms @ newline # replicate i CHR '' '' @ [CHR 0x7D]"
| "doc_members i [] = []"
| "doc_members i [(k, d)] = replicate i CHR '' '' @ quote # k @ [quote] @ '': '' @ doc_text i d"
| "doc_members i ((k, d) # m # ms) =
     replicate i CHR '' '' @ quote # k @ [quote] @ '': '' @ doc_text i d @ CHR '','' # newline # doc_members i (m # ms)"

fun doc_value :: "json_doc \<Rightarrow> json" and doc_pairs :: "(string \<times> json_doc) list \<Rightarrow> (string \<times> json) list" where
  "doc_value (Doc_Integer n) = Json_Number (of_integer n)"
| "doc_value (Doc_Decimal t x) = Json_Number x"
| "doc_value (Doc_String s) = Json_String s"
| "doc_value (Doc_Bool b) = Json_Bool b"
| "doc_value (Doc_Object ms) = Json_Object (emplace_all (doc_pairs ms) [])"
| "doc_pairs [] = []"
| "doc_pairs ((k, d) # ms) = (k, doc_value d) # doc_pairs ms"

definition plain_text :: "string \<Rightarrow> bool" where
  "plain_text s \<longleftrightarrow> quote \<notin> set s \<and> CHR 0x5C \<notin> set s"

fun doc_ok :: "json_doc \<Rightarrow> bool" and docs_ok :: "(string \<times> json_doc) list \<Rightarrow> bool" where
  "doc_ok (Doc_Integer n) \<longleftrightarrow> \<bar>n\<bar> < 2 ^ 53"
| "doc_ok (Doc_Decimal t x) \<longleftrightarrow> number_text t x"
| "doc_ok (Doc_String s) \<longleftrightarrow> plain_text s"
| "doc_ok (Doc_Bool b) \<longleftrightarrow> True"
| "doc_ok (Doc_Object ms) \<longleftrightarrow> ms \<noteq> [] \<and> docs_ok ms"
| "docs_ok [] \<longleftrightarrow> True"
| "docs_ok ((k, d) # ms) \<longleftrightarrow> plain_text k \<and> doc_ok d \<and> docs_ok ms"

lemma string_text_plain: "plain_text s \<Longrightarrow> string_text s s"
  by (induction s) (auto simp: plain_text_def intro: string_end string_plain)

lemma white_layout [simp]: "white [newline]" "white ('' '')" "white (newline # replicate i CHR '' '')" "white (replicate i CHR '' '')"
  by (auto simp: white_def newline_def)

lemma white_append: "white v \<Longrightarrow> white w \<Longrightarrow> white (v @ w)"
  by (auto simp: white_def)

lemma doc_denotes:
  "doc_ok d \<Longrightarrow> white w \<Longrightarrow> denotes (w @ doc_text i d) (doc_value d)"
  "docs_ok ms \<Longrightarrow> ms \<noteq> [] \<Longrightarrow> white w \<Longrightarrow> denote_members (w @ doc_members i ms) (doc_pairs ms)"
proof (induction i d and i ms arbitrary: w and w rule: doc_text_doc_members.induct)
  case (1 i n)
  then show ?case using den_number [OF 1(2) number_text_integer] by simp
next
  case (2 i t x)
  then show ?case using den_number [OF 2(2)] by simp
next
  case (3 i s)
  then show ?case using den_string [OF 3(2) string_text_plain] by simp
next
  case (4 i b)
  then show ?case using den_true den_false by simp
next
  case (5 i ms)
  then have "denote_members ([newline] @ doc_members (i + 2) ms) (doc_pairs ms)" by (intro "5.IH") simp_all
  from den_object [OF 5(3) white_layout(3) this emplace_all_map, of i] show ?case by simp
next
  case (6 i)
  then show ?case by simp
next
  case (7 i k d)
  then have "denotes ('' '' @ doc_text i d) (doc_value d)" by (intro "7.IH") simp_all
  from den_last [OF white_append [OF 7(4) white_layout(4)] white_nil string_text_plain [of k] this, of i] 7(2)
  show ?case by simp
next
  case (8 i k d m ms)
  have u: "denotes ('' '' @ doc_text i d) (doc_value d)" using 8(3) by (intro "8.IH"(1)) simp_all
  have r: "denote_members ([newline] @ doc_members i (m # ms)) (doc_pairs (m # ms))" using 8(3) by (intro "8.IH"(2)) simp_all
  from den_more [OF white_append [OF 8(5) white_layout(4)] white_nil white_nil string_text_plain [of k] u r, of i] 8(3)
  show ?case by simp
qed

lemma json_parse_doc: "doc_ok d \<Longrightarrow> json_parse (doc_text i d) = Some (Inr (doc_value d))"
  using json_parse_denoted [OF doc_denotes(1) [of d "[]" i], of "[]"] by (simp add: value_end_iff)

section \<open>The properties\<close>

text \<open>
  C18: every text of the grammar above (objects, strings with the escapes of quote, backslash, slash,
  newline and tab, decimal numbers in the range of the normal doubles, \<open>true\<close>, \<open>false\<close>, \<open>null\<close>, white
  space in front of any token, repeated keys) is parsed as the value it denotes, and what follows it is
  ignored (unless it would continue a number). No text denotes two values. Arrays and the other
  escapes of JSON are not in the grammar, and the reader does not know them.
\<close>

theorem json_reads_grammar:
  assumes "denotes t v" and "value_end rest"
  shows "json_parse (t @ rest) = Some (Inr v) \<and> (\<forall>v'. denotes t v' \<longrightarrow> v' = v)"
  using json_parse_denoted [of t _ rest] assms by (metis option.inject sum.inject(2))

text \<open>A text with white space, two escapes, a number with fraction and exponent, and a repeated key.\<close>

definition sample_text :: string where
  "sample_text = '' { '' @ [quote] @ ''a'' @ [quote] @ '' : 2.5e-1 ,'' @ [CHR 0x0A, quote] @ ''b'' @
     [CHR 0x5C, quote, CHR 0x5C, CHR ''t'', quote] @ '':true, '' @ [quote] @ ''a'' @ [quote] @ '': null}''"

definition sample_members :: "(string \<times> json) list" where
  "sample_members = [(''a'', Json_Number (Finite False 4503599627370496 (-54))), (''b'' @ [quote, CHR 0x09], Json_Bool True)]"

lemma sample_number: "number_text ''2.5e-1'' (Finite False 4503599627370496 (-54))"
proof -
  have e: "exponent_text ''e-1'' (-1)"
    unfolding exponent_text_def
    by (rule disjI2, rule exI [of _ "CHR ''e''"], rule exI [of _ "''1''"]) (simp add: decimal_digits_def decimal_def)
  have "nearest_double False 25 100 (Finite False 4503599627370496 (-54))"
    by (simp add: nearest_double_def double_eval)
  with e show ?thesis
    unfolding number_text_def
    by (intro exI [of _ False] exI [of _ "''2''"] exI [of _ "''5''"] exI [of _ "''e-1''"] exI [of _ "-1"])
      (simp add: decimal_digits_def decimal_def)
qed

lemma sample_denotes: "denotes sample_text (Json_Object sample_members)"
proof -
  have w: "white '' ''" "white [CHR 0x0A]" by (simp_all add: white_def)
  note x = den_number [OF w(1) sample_number]
  have a: "string_text ''a'' ''a''" "string_text (''b'' @ [CHR 0x5C, quote, CHR 0x5C, CHR ''t'']) (''b'' @ [quote, CHR 0x09])"
    by (auto intro!: string_text.intros)
  have 3: "denote_members ('' '' @ quote # ''a'' @ [quote] @ [] @ CHR '':'' # ('' '' @ ''null'')) [(''a'', Json_Null)]"
    by (rule den_last [OF w(1) white_nil a(1) den_null [OF w(1)]])
  note 2 = den_more [OF w(2) white_nil white_nil a(2) den_true [OF white_nil] 3]
  note 1 = den_more [OF w(1) w(1) w(1) a(1) x 2]
  have "denotes ('' '' @ CHR 0x7B # ('' '' @ quote # ''a'' @ [quote] @ '' '' @ CHR '':'' # ('' '' @ ''2.5e-1'') @ '' '' @ CHR '','' #
      ([CHR 0x0A] @ quote # (''b'' @ [CHR 0x5C, quote, CHR 0x5C, CHR ''t'']) @ [quote] @ [] @ CHR '':'' # ([] @ ''true'') @ [] @ CHR '','' #
       ('' '' @ quote # ''a'' @ [quote] @ [] @ CHR '':'' # ('' '' @ ''null'')))) @ [] @ [CHR 0x7D])
      (Json_Object sample_members)"
    by (rule den_object [OF w(1) white_nil 1]) (simp_all add: sample_members_def fun_eq_iff)
  then show ?thesis by (simp add: sample_text_def)
qed

theorem json_reads_grammar_witness:
  "json_parse sample_text = Some (Inr (Json_Object sample_members))"
  using json_reads_grammar [OF sample_denotes, of "[]"] by (simp add: value_end_iff)

text \<open>
  The remaining escapes of JSON lose their meaning: the letter behind the backslash stands for itself,
  and the digits of a code point stay in the string.
\<close>

lemma other_escapes_literal:
  "e \<notin> {CHR ''n'', CHR ''t''} \<Longrightarrow> json_parse [quote, CHR 0x5C, e, quote] = Some (Inr (Json_String [e]))"
  "json_parse (quote # CHR 0x5C # ''u0041'' @ [quote]) = Some (Inr (Json_String ''u0041''))"
  by (simp_all add: json_parse_def parse_string_def expect_def skipWhitespace_def next_is_def is_space_def unescape_def)

text \<open>In particular a printed value is read back.\<close>

lemma json_round_trip:
  assumes "printable v" and "value_end rest"
  shows "json_parse (print_json v @ rest) = Some (Inr v)"
  by (rule json_parse_denoted [OF print_denotes(1) [OF assms(1)] assms(2)])

lemma json_round_trip_sample: "json_parse (print_json sample_json @ ''trailing'') = Some (Inr sample_json)"
proof (rule json_round_trip)
  show "printable sample_json" using integral_number [of 16] by (simp add: sample_json_def)
  show "value_end ''trailing''" by (simp add: value_end_iff number_char_def is_digit_def digit_val_def)
qed

text \<open>
  When a key occurs several times in an object text, the member read is the one of its first
  occurrence.
\<close>

lemma first_key_wins:
  assumes "denote_members t ms"
  shows "\<exists>v. json_parse (CHR 0x7B # t @ [CHR 0x7D]) = Some (Inr v) \<and> isObject v \<and>
     (\<forall>key. at_key v key = (case map_of ms key of
        None \<Rightarrow> Inl (Runtime_Error (''Missing JSON key: '' @ key)) | Some x \<Rightarrow> Inr x))"
proof -
  have "denotes (CHR 0x7B # t @ [CHR 0x7D]) (Json_Object (emplace_all ms []))"
    using den_object [OF white_nil white_nil assms emplace_all_map] by simp
  from json_parse_denoted [OF this, of "[]"]
  have "json_parse (CHR 0x7B # t @ [CHR 0x7D]) = Some (Inr (Json_Object (emplace_all ms [])))"
    by (simp add: value_end_iff)
  moreover have "at_key (Json_Object (emplace_all ms [])) key = (case map_of ms key of
        None \<Rightarrow> Inl (Runtime_Error (''Missing JSON key: '' @ key)) | Some x \<Rightarrow> Inr x)" for key
    by (simp add: at_key_def members_def std_find_def emplace_all_map)
  ultimately show ?thesis by (auto simp: isObject_def)
qed

end
