(* ===== verification/Dbc_Database.thy ===== *)
theory Dbc_Database
  imports Json_Layout Can_Types
begin

text \<open>
  Loading the signal database, \<open>DbcDatabase::loadFromJsonFile\<close> of
  \<open>task3_can_decoder/src/dbc_database.cpp\<close>: from the JSON value to the message table, every
  conversion and every exception included. The contents of the file are an argument (\<open>None\<close> when it
  cannot be opened).
\<close>

section \<open>The loader\<close>

definition parseHexId :: "string \<Rightarrow> u32 result" where
  "parseHexId s = rbind (stoul16 s) (\<lambda>w. Inr (ucast w))"

text \<open>\<open>static_cast<int>\<close> of a \<open>long\<close> keeps the low 32 bits.\<close>

definition long_to_int :: "int \<Rightarrow> int" where
  "long_to_int l = sint (word_of_int l :: u32)"

definition int_member :: "json \<Rightarrow> string \<Rightarrow> int result" where
  "int_member v key = rbind (at_key v key) (\<lambda>x. rbind (asLong x) (\<lambda>l. Inr (long_to_int l)))"

fun load_enum :: "(string \<times> json) list \<Rightarrow> (int, string) std_map \<Rightarrow> (int, string) std_map result" where
  "load_enum [] m = Inr m"
| "load_enum ((k, v) # kvs) m = rbind (stoi k) (\<lambda>i. load_enum kvs (std_assign i (asString v) m))"

definition load_signal :: "string \<Rightarrow> json \<Rightarrow> signal_def result" where
  "load_signal sigName sigVal =
     rbind (int_member sigVal ''start_bit'') (\<lambda>start_bit.
     rbind (int_member sigVal ''length'') (\<lambda>len.
     rbind (if has_key sigVal ''scale'' then rbind (at_key sigVal ''scale'') (\<lambda>x. Inr (asDouble x))
            else Inr (of_integer 1)) (\<lambda>scale.
     rbind (if has_key sigVal ''offset'' then rbind (at_key sigVal ''offset'') (\<lambda>x. Inr (asDouble x))
            else Inr (of_integer 0)) (\<lambda>offset.
     rbind (if has_key sigVal ''signed'' then rbind (at_key sigVal ''signed'') (\<lambda>x. Inr (asBool x))
            else Inr False) (\<lambda>is_signed.
     rbind (if has_key sigVal ''unit'' then rbind (at_key sigVal ''unit'') (\<lambda>x. Inr (asString x))
            else Inr '''') (\<lambda>unit.
     rbind (if has_key sigVal ''enum'' then rbind (at_key sigVal ''enum'') (\<lambda>x. load_enum (members x) [])
            else Inr []) (\<lambda>enum.
       Inr \<lparr>sd_name = sigName, sd_start_bit = start_bit, sd_length = len, sd_scale = scale,
            sd_offset = offset, sd_is_signed = is_signed, sd_unit = unit, sd_enum_values = enum\<rparr>)))))))"

fun load_signals :: "(string \<times> json) list \<Rightarrow> signal_def list result" where
  "load_signals [] = Inr []"
| "load_signals ((n, v) # sigs) =
     rbind (load_signal n v) (\<lambda>s. rbind (load_signals sigs) (\<lambda>ss. Inr (s # ss)))"

definition load_message :: "string \<Rightarrow> json \<Rightarrow> message_def result" where
  "load_message idKey msgVal =
     rbind (parseHexId idKey) (\<lambda>i.
     rbind (at_key msgVal ''name'') (\<lambda>name.
     rbind (int_member msgVal ''period_ms'') (\<lambda>period_ms.
     rbind (at_key msgVal ''byte_order'') (\<lambda>bo.
     rbind (at_key msgVal ''signals'') (\<lambda>sigsVal.
     rbind (load_signals (members sigsVal)) (\<lambda>sigs.
       Inr \<lparr>md_id = i, md_name = asString name, md_period_ms = period_ms,
            md_byte_order = (if asString bo = ''motorola'' then Motorola else Intel),
            md_signals = sigs\<rparr>))))))"

fun load_messages :: "(string \<times> json) list \<Rightarrow> dbc_database \<Rightarrow> dbc_database result" where
  "load_messages [] db = Inr db"
| "load_messages ((k, v) # kvs) db =
     rbind (load_message k v) (\<lambda>msg. load_messages kvs (std_assign (md_id msg) msg db))"

definition loadFromJsonFile :: "string \<Rightarrow> string option \<Rightarrow> dbc_database result" where
  "loadFromJsonFile path contents =
     (case contents of
        None \<Rightarrow> Inl (Runtime_Error (''Could not open DBC JSON file: '' @ path))
      | Some input \<Rightarrow>
          rbind (the (json_parse input)) (\<lambda>root.
            if isObject root then load_messages (members root) []
            else Inl (Runtime_Error ''dbc.json: top level must be an object'')))"

section \<open>The loaded table\<close>

text \<open>The messages of the members, in order.\<close>

fun all_messages :: "(string \<times> json) list \<Rightarrow> message_def list result" where
  "all_messages [] = Inr []"
| "all_messages ((k, v) # kvs) =
     rbind (load_message k v) (\<lambda>m. rbind (all_messages kvs) (\<lambda>ms. Inr (m # ms)))"

definition table_of :: "message_def list \<Rightarrow> dbc_database \<Rightarrow> dbc_database" where
  "table_of ms db = fold (\<lambda>(k, m). std_assign k m) (map (\<lambda>m. (md_id m, m)) ms) db"

lemma load_messages_eq: "load_messages kvs db = rbind (all_messages kvs) (\<lambda>ms. Inr (table_of ms db))"
proof (induction kvs arbitrary: db)
  case Nil
  then show ?case by (simp add: table_of_def)
next
  case (Cons p kvs)
  obtain k v where p: "p = (k, v)" by (cases p)
  show ?case
  proof (cases "load_message k v")
    case (Inr m)
    then show ?thesis using Cons.IH [of "std_assign (md_id m) m db"]
      by (cases "all_messages kvs") (simp_all add: p table_of_def)
  qed (simp add: p)
qed

lemma table_ordered: "std_ordered (table_of ms [])"
  unfolding table_of_def by (rule std.inv_assign_all) simp

lemma table_find: "db_find (table_of ms []) k = map_of (rev (map (\<lambda>m. (md_id m, m)) ms)) k"
  unfolding db_find_def table_of_def by (rule std.last_wins)

lemma table_ids:
  assumes "(k, m) \<in> set (table_of ms [])"
  shows "md_id m = k \<and> m \<in> set ms"
proof -
  have "std_find (table_of ms []) k = Some m"
    using assms by (simp only: std_find_iff [OF table_ordered])
  then have "map_of (rev (map (\<lambda>m. (md_id m, m)) ms)) k = Some m"
    unfolding table_find [unfolded db_find_def] .
  from map_of_SomeD [OF this] show ?thesis by auto
qed

lemma loaded_table:
  "loadFromJsonFile path (Some input) = Inr db \<longleftrightarrow>
     (\<exists>root ms. json_parse input = Some (Inr root) \<and> isObject root \<and>
        all_messages (members root) = Inr ms \<and> db = table_of ms [])"
proof -
  obtain r where r: "json_parse input = Some r" using json_parse_not_None by blast
  show ?thesis
    by (cases r) (auto simp: loadFromJsonFile_def r load_messages_eq rbind_Inr_iff)
qed

lemma long_to_int_range: "int_min \<le> long_to_int l \<and> long_to_int l \<le> int_max"
  using sint_greater_eq [of "word_of_int l :: u32"] sint_less [of "word_of_int l :: u32"]
  by (simp add: long_to_int_def)

lemma int_member_range: "int_member v key = Inr i \<Longrightarrow> int_min \<le> i \<and> i \<le> int_max"
  using long_to_int_range by (auto simp: int_member_def rbind_Inr_iff)

lemma load_signal_name: "load_signal n v = Inr s \<Longrightarrow> sd_name s = n"
  by (auto simp: load_signal_def rbind_Inr_iff)

lemma load_signals_names: "load_signals sigs = Inr ss \<Longrightarrow> map sd_name ss = map fst sigs"
  by (induction sigs arbitrary: ss rule: load_signals.induct) (auto simp: rbind_Inr_iff load_signal_name)

lemma load_signal_range:
  "load_signal n v = Inr s \<Longrightarrow> int_min \<le> sd_start_bit s \<and> sd_start_bit s \<le> int_max \<and>
     int_min \<le> sd_length s \<and> sd_length s \<le> int_max"
  using int_member_range by (fastforce simp: load_signal_def rbind_Inr_iff)

lemma load_signals_range:
  "load_signals sigs = Inr ss \<Longrightarrow> \<forall>s \<in> set ss. int_min \<le> sd_start_bit s \<and> sd_start_bit s \<le> int_max \<and>
     int_min \<le> sd_length s \<and> sd_length s \<le> int_max"
  by (induction sigs arbitrary: ss rule: load_signals.induct) (fastforce simp: rbind_Inr_iff dest: load_signal_range)+

lemma all_messages_nth:
  "all_messages kvs = Inr ms \<Longrightarrow> list_all2 (\<lambda>(k, v) m. load_message k v = Inr m) kvs ms"
  by (induction kvs arbitrary: ms rule: all_messages.induct) (auto simp: rbind_Inr_iff)

lemma load_message_range:
  assumes "load_message k v = Inr m"
  shows "int_min \<le> md_period_ms m \<and> md_period_ms m \<le> int_max \<and>
     (\<forall>s \<in> set (md_signals m). int_min \<le> sd_start_bit s \<and> sd_start_bit s \<le> int_max \<and>
        int_min \<le> sd_length s \<and> sd_length s \<le> int_max)"
  using assms int_member_range load_signals_range
  by (fastforce simp: load_message_def rbind_Inr_iff)

text \<open>What the loader reads with \<open>at\<close> is there.\<close>

lemma at_has_key: "at_key v n = Inr x \<Longrightarrow> has_key v n"
  by (auto simp: at_key_def has_key_def split: option.splits)

lemma load_signal_members: "load_signal n v = Inr s \<Longrightarrow> has_key v ''start_bit'' \<and> has_key v ''length''"
  by (auto simp: rbind_Inr_iff load_signal_def int_member_def dest: at_has_key)

lemma load_signals_members:
  "load_signals sigs = Inr ss \<Longrightarrow> \<forall>(n, s) \<in> set sigs. has_key s ''start_bit'' \<and> has_key s ''length''"
  using load_signal_members
  by (induction sigs arbitrary: ss rule: load_signals.induct) (fastforce simp: rbind_Inr_iff)+

lemma load_message_members:
  "load_message k v = Inr m \<Longrightarrow> has_key v ''name'' \<and> has_key v ''period_ms'' \<and> has_key v ''byte_order'' \<and>
     (\<exists>sigs. at_key v ''signals'' = Inr sigs \<and> (\<forall>(n, s) \<in> set (members sigs). has_key s ''start_bit'' \<and> has_key s ''length''))"
  by (auto simp: load_message_def int_member_def rbind_Inr_iff dest: at_has_key load_signals_members)

section \<open>A sample database text\<close>

definition number :: "int \<Rightarrow> json" where
  "number i = Json_Number (of_integer i)"

definition signal_json :: "int \<Rightarrow> int \<Rightarrow> json" where
  "signal_json start len = Json_Object [(''length'', number len), (''start_bit'', number start)]"

definition message_json :: "string \<Rightarrow> int \<Rightarrow> json" where
  "message_json name period = Json_Object
     [(''byte_order'', Json_String ''intel''), (''name'', Json_String name), (''period_ms'', number period),
      (''signals'', Json_Object [(''checksum'', signal_json 24 8), (''counter'', signal_json 16 4)])]"

definition database_json :: json where
  "database_json = Json_Object
     [(''0x180'', message_json ''EngineData'' 20), (''180'', message_json ''EngineCopy'' 40)]"

lemma asLong_number: "\<bar>i\<bar> < 2 ^ 53 \<Longrightarrow> asLong (number i) = Inr i"
  unfolding asLong_def number_def asDouble_def json.case
  using of_integer_exact [of i] by (intro cast_long_exact) auto

lemma long_to_int_id: "int_min \<le> i \<Longrightarrow> i \<le> int_max \<Longrightarrow> long_to_int i = i"
  unfolding long_to_int_def by (simp add: sint_sbintrunc' signed_take_bit_int_eq_self)

lemma database_printable: "printable database_json"
proof -
  have "printable (number 24)" "printable (number 8)" "printable (number 16)" "printable (number 4)"
      "printable (number 20)" "printable (number 40)"
    unfolding number_def by (rule integral_number, simp)+
  then show ?thesis
    by (simp add: database_json_def message_json_def signal_json_def del: printable.simps(1))
qed

lemma int_member_number:
  "at_key v key = Inr (number i) \<Longrightarrow> int_min \<le> i \<Longrightarrow> i \<le> int_max \<Longrightarrow> int_member v key = Inr i"
  by (simp add: int_member_def asLong_number long_to_int_id abs_less_iff)

lemma at_key_object: "at_key (Json_Object m) key =
    (case map_of m key of None \<Rightarrow> Inl (Runtime_Error (''Missing JSON key: '' @ key)) | Some x \<Rightarrow> Inr x)"
  "has_key (Json_Object m) key \<longleftrightarrow> map_of m key \<noteq> None"
  by (simp_all add: at_key_def has_key_def members_def std_find_def)

lemma load_sample_signal:
  assumes "int_min \<le> s" "s \<le> int_max" "int_min \<le> l" "l \<le> int_max"
  shows "load_signal n (signal_json s l) = Inr (default_signal\<lparr>sd_name := n, sd_start_bit := s, sd_length := l\<rparr>)"
proof -
  have "int_member (signal_json s l) ''start_bit'' = Inr s" "int_member (signal_json s l) ''length'' = Inr l"
    using assms by (intro int_member_number; simp add: signal_json_def at_key_object)+
  then show ?thesis by (simp add: load_signal_def signal_json_def at_key_object default_signal_def)
qed

definition sample_message :: "string \<Rightarrow> int \<Rightarrow> message_def" where
  "sample_message name period = \<lparr>md_id = 0x180, md_name = name, md_period_ms = period, md_byte_order = Intel,
     md_signals = [default_signal\<lparr>sd_name := ''checksum'', sd_start_bit := 24, sd_length := 8\<rparr>,
       default_signal\<lparr>sd_name := ''counter'', sd_start_bit := 16, sd_length := 4\<rparr>]\<rparr>"

lemma load_sample_message:
  assumes "parseHexId k = Inr 0x180" "int_min \<le> period" "period \<le> int_max"
  shows "load_message k (message_json name period) = Inr (sample_message name period)"
proof -
  have "int_member (message_json name period) ''period_ms'' = Inr period"
    using assms by (intro int_member_number) (simp_all add: message_json_def at_key_object)
  then show ?thesis using assms(1)
    by (simp add: load_message_def message_json_def at_key_object members_def load_sample_signal
        asString_def sample_message_def)
qed

lemma load_database_json:
  "loadFromJsonFile path (Some (print_json database_json)) = Inr [(0x180, sample_message ''EngineCopy'' 40)]"
proof -
  have p: "json_parse (print_json database_json) = Some (Inr database_json)"
    using json_round_trip [OF database_printable, of "[]"] by (simp add: value_end_def)
  have "parseHexId ''0x180'' = Inr 0x180" "parseHexId ''180'' = Inr 0x180"
    by (simp_all add: parseHexId_def text_eval)
  then have "load_messages (members database_json) [] = Inr [(0x180, sample_message ''EngineCopy'' 40)]"
    by (simp add: members_def database_json_def load_sample_message sample_message_def)
  moreover have "isObject database_json" by (simp add: isObject_def database_json_def)
  ultimately show ?thesis by (simp add: loadFromJsonFile_def p)
qed

section \<open>What the file describes\<close>

text \<open>
  The reading of the file as a description of messages: a relation between the JSON value and the
  message table, without the loader. A message identifier is written in hexadecimal, with or without
  \<open>0x\<close>, in lower or upper case, possibly with leading zeros; an enumeration maps decimal integers to
  names.
\<close>

definition id_text :: "string \<Rightarrow> u32 \<Rightarrow> bool" where
  "id_text key w \<longleftrightarrow> (\<exists>prefix \<in> {'''', ''0x''}. \<exists>d \<in> {digit_char, upper_digit}. \<exists>width.
     key = prefix @ zero_pad width (to_base d 16 (unat w)))"

definition int_value :: "json option \<Rightarrow> int \<Rightarrow> bool" where
  "int_value v i \<longleftrightarrow> v = Some (number i) \<and> int_min \<le> i \<and> i \<le> int_max"

definition optional :: "json option \<Rightarrow> json \<Rightarrow> json \<Rightarrow> bool" where
  "optional v x d \<longleftrightarrow> v = Some x \<or> v = None \<and> x = d"

definition enum_described :: "json option \<Rightarrow> (int, string) std_map \<Rightarrow> bool" where
  "enum_described v e \<longleftrightarrow> (case v of None \<Rightarrow> e = []
     | Some x \<Rightarrow> std_ordered e \<and> (\<forall>(i, t) \<in> set e. int_min \<le> i \<and> i \<le> int_max) \<and>
         (\<exists>kvs. x = Json_Object kvs \<and> distinct (map fst kvs) \<and>
            set kvs = (\<lambda>(i, t). (dec_int i, Json_String t)) ` set e))"

text \<open>The fields of a signal: two required members, and five with a default.\<close>

definition signal_described :: "string \<times> json \<Rightarrow> signal_def \<Rightarrow> bool" where
  "signal_described p s \<longleftrightarrow> (\<exists>kvs. p = (sd_name s, Json_Object kvs) \<and>
     int_value (map_of kvs ''start_bit'') (sd_start_bit s) \<and>
     int_value (map_of kvs ''length'') (sd_length s) \<and>
     optional (map_of kvs ''scale'') (Json_Number (sd_scale s)) (number 1) \<and>
     optional (map_of kvs ''offset'') (Json_Number (sd_offset s)) (number 0) \<and>
     optional (map_of kvs ''signed'') (Json_Bool (sd_is_signed s)) (Json_Bool False) \<and>
     optional (map_of kvs ''unit'') (Json_String (sd_unit s)) (Json_String '''') \<and>
     enum_described (map_of kvs ''enum'') (sd_enum_values s))"

definition message_described :: "string \<times> json \<Rightarrow> message_def \<Rightarrow> bool" where
  "message_described p m \<longleftrightarrow> (\<exists>key kvs order sigs. p = (key, Json_Object kvs) \<and> id_text key (md_id m) \<and>
     map_of kvs ''name'' = Some (Json_String (md_name m)) \<and>
     int_value (map_of kvs ''period_ms'') (md_period_ms m) \<and>
     map_of kvs ''byte_order'' = Some (Json_String order) \<and> (md_byte_order m = Motorola \<longleftrightarrow> order = ''motorola'') \<and>
     map_of kvs ''signals'' = Some (Json_Object sigs) \<and> list_all2 signal_described sigs (md_signals m))"

lemma parse_id_text:
  assumes "id_text key w"
  shows "parseHexId key = Inr w"
proof -
  have n: "unat w < 2 ^ 64" using unsigned_less [of w, where 'a = nat] by simp
  have "stoul16 key = Inr (of_nat (unat w))"
    using assms stoul16_hex [OF digits_ok_lower n] stoul16_hex [OF digits_ok_upper n]
    unfolding id_text_def by auto
  moreover have "ucast (ucast w :: u64) = w" by (rule bit_word_eqI) (simp add: bit_ucast_iff)
  ultimately show ?thesis by (simp add: parseHexId_def)
qed

lemma int_value_member:
  "int_value (map_of kvs key) i \<Longrightarrow> int_member (Json_Object kvs) key = Inr i"
  by (rule int_member_number) (simp_all add: int_value_def at_key_object)

lemma load_enum_fold:
  assumes "\<forall>(k, v) \<in> set kvs. stoi k = Inr (f k)"
  shows "load_enum kvs m = Inr (fold (\<lambda>(i, t). std_assign i t) (map (\<lambda>(k, v). (f k, asString v)) kvs) m)"
  using assms by (induction kvs arbitrary: m) auto

lemma load_enum_described:
  assumes "enum_described (Some x) e"
  shows "load_enum (members x) [] = Inr e"
proof -
  obtain kvs where x: "x = Json_Object kvs" and e: "std_ordered e" "\<forall>(i, t) \<in> set e. stoi (dec_int i) = Inr i"
    and d: "distinct (map fst kvs)" and s: "set kvs = (\<lambda>(i, t). (dec_int i, Json_String t)) ` set e"
    using assms stoi_dec_int by (fastforce simp: enum_described_def)
  define f where "f k = projr (stoi k)" for k
  have f: "\<forall>(k, v) \<in> set kvs. stoi k = Inr (f k) \<and> k = dec_int (f k)" using e(2) s by (auto simp: f_def)
  let ?its = "map (\<lambda>(k, v). (f k, asString v)) kvs"
  have "inj_on f (fst ` set kvs)" by (rule inj_on_inverseI [of _ dec_int]) (use f in fastforce)
  then have "distinct (map fst ?its)" using d by (simp add: distinct_map comp_inj_on_iff split_def comp_def)
  moreover have "set ?its = set e" using e(2) by (force simp: s f_def asString_def)
  moreover have "distinct (map fst e)" using e(1) by (simp add: std_ordered_def strict_sorted_iff)
  ultimately have "map_of (rev ?its) = map_of e" by (intro map_of_inject_set [THEN iffD2]) (simp_all add: rev_map [symmetric])
  moreover have "load_enum kvs [] = Inr (fold (\<lambda>(i, t). std_assign i t) ?its [])" by (rule load_enum_fold) (use f in auto)
  moreover have "std_ordered (fold (\<lambda>(i, t). std_assign i t) ?its [])" by (rule std.inv_assign_all) simp
  moreover have "map_of (fold (\<lambda>(i, t). std_assign i t) ?its []) = map_of (rev ?its)"
    using std.last_wins [of ?its] by (simp add: std_find_def fun_eq_iff)
  ultimately show ?thesis using ordered_map_unique [OF _ e(1)] by (simp add: x members_def)
qed

lemma optional_member:
  assumes "optional (map_of kvs key) x d"
  shows "(if has_key (Json_Object kvs) key then rbind (at_key (Json_Object kvs) key) (\<lambda>y. Inr (f y)) else Inr (f d)) = Inr (f x)"
  using assms by (auto simp: optional_def at_key_object)

lemma load_described_signal:
  assumes "signal_described (n, v) s"
  shows "load_signal n v = Inr s"
proof -
  obtain kvs where v: "v = Json_Object kvs" "n = sd_name s"
    and i: "int_value (map_of kvs ''start_bit'') (sd_start_bit s)" "int_value (map_of kvs ''length'') (sd_length s)"
    and o: "optional (map_of kvs ''scale'') (Json_Number (sd_scale s)) (number 1)"
      "optional (map_of kvs ''offset'') (Json_Number (sd_offset s)) (number 0)"
      "optional (map_of kvs ''signed'') (Json_Bool (sd_is_signed s)) (Json_Bool False)"
      "optional (map_of kvs ''unit'') (Json_String (sd_unit s)) (Json_String '''')"
    and e: "enum_described (map_of kvs ''enum'') (sd_enum_values s)"
    using assms unfolding signal_described_def by blast
  have "(if has_key v ''enum'' then rbind (at_key v ''enum'') (\<lambda>x. load_enum (members x) []) else Inr []) = Inr (sd_enum_values s)"
  proof (cases "map_of kvs ''enum''")
    case None
    then show ?thesis using e by (simp add: v at_key_object enum_described_def)
  next
    case (Some x)
    then show ?thesis using load_enum_described [of x] e by (simp add: v at_key_object)
  qed
  moreover have "asDouble (number 1) = of_integer 1" "asDouble (number 0) = of_integer 0" "asBool (Json_Bool False) = False"
      "asString (Json_String []) = []" "asDouble (Json_Number x) = x" "asBool (Json_Bool b) = b" "asString (Json_String t) = t" for x b t
    by (simp_all add: number_def asDouble_def asBool_def asString_def)
  note defaults = this and members = optional_member [OF o(1), of asDouble] optional_member [OF o(2), of asDouble]
    optional_member [OF o(3), of asBool] optional_member [OF o(4), of asString]
  ultimately show ?thesis
    unfolding load_signal_def v
    by (simp only: int_value_member [OF i(1)] int_value_member [OF i(2)] members [unfolded defaults] rbind_simps) (simp add: v)
qed

lemma load_described_signals: "list_all2 signal_described sigs ss \<Longrightarrow> load_signals sigs = Inr ss"
  by (induction sigs ss rule: list_all2_induct) (auto simp: load_described_signal)

lemma load_described_message:
  assumes "message_described (key, v) m"
  shows "load_message key v = Inr m"
proof -
  obtain kvs order sigs where v: "v = Json_Object kvs" and d: "id_text key (md_id m)"
      "int_value (map_of kvs ''period_ms'') (md_period_ms m)" "list_all2 signal_described sigs (md_signals m)"
    and m: "map_of kvs ''name'' = Some (Json_String (md_name m))" "map_of kvs ''byte_order'' = Some (Json_String order)"
      "md_byte_order m = Motorola \<longleftrightarrow> order = ''motorola''" "map_of kvs ''signals'' = Some (Json_Object sigs)"
    using assms unfolding message_described_def by blast
  note k = parse_id_text [OF d(1)] and p = int_value_member [OF d(2)] and s = load_described_signals [OF d(3)]
  have "md_byte_order m = (if order = ''motorola'' then Motorola else Intel)"
    using m(3) by (cases "md_byte_order m") simp_all
  then show ?thesis using k p s m
    by (simp add: load_message_def v at_key_object members_def asString_def)
qed

lemma all_described_messages: "list_all2 message_described kvs ms \<Longrightarrow> all_messages kvs = Inr ms"
  by (induction kvs ms rule: list_all2_induct) (auto simp: load_described_message)

section \<open>The properties\<close>

text \<open>
  Whatever the text, a loaded database is a proper message table: identifiers strictly increase, every
  message stands under its own identifier, and periods, bit positions and lengths are int values.
\<close>

lemma loaded_database_well_formed:
  assumes "loadFromJsonFile path (Some input) = Inr db"
  shows "std_ordered db \<and> (\<forall>(k, m) \<in> set db. md_id m = k \<and> int_min \<le> md_period_ms m \<and> md_period_ms m \<le> int_max \<and>
     (\<forall>s \<in> set (md_signals m). int_min \<le> sd_start_bit s \<and> sd_start_bit s \<le> int_max \<and>
        int_min \<le> sd_length s \<and> sd_length s \<le> int_max))"
proof -
  obtain root ms where ms: "all_messages (members root) = Inr ms" and db: "db = table_of ms []"
    using assms loaded_table by blast
  have "md_id m = k \<and> int_min \<le> md_period_ms m \<and> md_period_ms m \<le> int_max \<and>
     (\<forall>s \<in> set (md_signals m). int_min \<le> sd_start_bit s \<and> sd_start_bit s \<le> int_max \<and>
        int_min \<le> sd_length s \<and> sd_length s \<le> int_max)" if km: "(k, m) \<in> set db" for k m
  proof -
    have m: "md_id m = k" "m \<in> set ms" using table_ids km db by blast+
    then obtain i where i: "i < length ms" "ms ! i = m" by (auto simp: in_set_conv_nth)
    obtain k' v' where kv: "members root ! i = (k', v')" by (cases "members root ! i")
    have "load_message k' v' = Inr m"
      using list_all2_nthD2 [OF all_messages_nth [OF ms] i(1)] i(2) kv by simp
    from load_message_range [OF this] m(1) show ?thesis by simp
  qed
  then show ?thesis using table_ordered db by blast
qed

text \<open>
  C30: the loader reads what the file says. When the text is a JSON object, in any spelling of the
  grammar, whose members describe messages (identifier in hexadecimal, name, period, byte order, and
  the signals with their bit position, length, scale, offset, sign, unit and enumeration, the last five
  optional), loading succeeds, and looking an identifier up gives the message described by the last
  member with that identifier, all its fields as described, or nothing if there is none.
\<close>

theorem loader_reads_database:
  assumes "denotes input (Json_Object kvs)" and "list_all2 message_described kvs ms"
  shows "\<exists>db. loadFromJsonFile path (Some input) = Inr db \<and> std_ordered db \<and>
     (\<forall>k. db_find db k = map_of (rev (map (\<lambda>m. (md_id m, m)) ms)) k)"
proof -
  have "json_parse input = Some (Inr (Json_Object kvs))"
    using json_parse_denoted [OF assms(1), of "[]"] by (simp add: value_end_def)
  then have "loadFromJsonFile path (Some input) = Inr (table_of ms [])"
    using loaded_table [of path input "table_of ms []"] all_described_messages [OF assms(2)]
    by (simp add: isObject_def members_def)
  then show ?thesis using table_ordered table_find by blast
qed

text \<open>A database with every optional member, whose enumeration is not in the order of its keys.\<close>

definition gear_message :: message_def where
  "gear_message = \<lparr>md_id = 0x1AB, md_name = ''Gear'', md_period_ms = 100, md_byte_order = Motorola,
     md_signals = [default_signal\<lparr>sd_name := ''checksum'', sd_start_bit := 24, sd_length := 8\<rparr>,
       \<lparr>sd_name = ''gear'', sd_start_bit = 3, sd_length = 5, sd_scale = of_integer 2, sd_offset = of_integer (- 40),
        sd_is_signed = True, sd_unit = ''g'', sd_enum_values = [(2, ''N''), (10, ''D'')]\<rparr>]\<rparr>"

definition gear_members :: "(string \<times> json) list" where
  "gear_members = [(''0x1ab'', Json_Object
     [(''byte_order'', Json_String ''motorola''), (''name'', Json_String ''Gear''), (''period_ms'', number 100),
      (''signals'', Json_Object [(''checksum'', signal_json 24 8), (''gear'', Json_Object
        [(''enum'', Json_Object [(''10'', Json_String ''D''), (''2'', Json_String ''N'')]), (''length'', number 5),
         (''offset'', number (- 40)), (''scale'', number 2), (''signed'', Json_Bool True), (''start_bit'', number 3),
         (''unit'', Json_String ''g'')])])])]"

lemma gear_printable: "printable (Json_Object gear_members)"
proof -
  have "printable (number 100)" "printable (number 24)" "printable (number 8)" "printable (number 5)"
      "printable (number (- 40))" "printable (number 2)" "printable (number 3)"
    unfolding number_def by (rule integral_number, simp)+
  then show ?thesis by (simp add: gear_members_def signal_json_def del: printable.simps(1))
qed

lemma gear_described: "list_all2 message_described gear_members [gear_message]"
proof -
  have "''0x1ab'' = ''0x'' @ zero_pad 0 (to_base digit_char 16 (unat (0x1AB :: u32)))"
    by (simp add: zero_pad_def text_eval)
  then have "id_text ''0x1ab'' 0x1AB" unfolding id_text_def by blast
  then show ?thesis
    by (simp add: gear_members_def gear_message_def message_described_def signal_described_def signal_json_def
        int_value_def optional_def enum_described_def default_signal_def number_def dec_int_def dec_nat_def text_eval insert_commute)
qed

theorem loader_reads_database_witness:
  "\<exists>db. loadFromJsonFile ''dbc.json'' (Some (print_json (Json_Object gear_members))) = Inr db \<and>
     db_find db 0x1AB = Some gear_message \<and> db_find db 0x180 = None"
  using loader_reads_database [OF print_denotes(1) [OF gear_printable] gear_described, of "''dbc.json''"]
  by (auto simp: gear_message_def)

text \<open>
  C29: looking an identifier up in the loaded database gives the last message, in the order of the keys
  of the JSON object, whose key denotes it, although the JSON object itself keeps first occurrences.
\<close>

theorem find_last_member:
  assumes "loadFromJsonFile path (Some input) = Inr db"
  shows "\<exists>root ms. json_parse input = Some (Inr root) \<and> all_messages (members root) = Inr ms \<and>
     (\<forall>k. db_find db k = map_of (rev (map (\<lambda>m. (md_id m, m)) ms)) k)"
proof -
  obtain root ms where "json_parse input = Some (Inr root)" "all_messages (members root) = Inr ms"
    and "db = table_of ms []"
    using assms loaded_table by blast
  with table_find [of ms] show ?thesis by auto
qed

theorem find_last_member_witness:
  "\<exists>root ms. json_parse (print_json database_json) = Some (Inr root) \<and> all_messages (members root) = Inr ms \<and>
     map_of (rev (map (\<lambda>m. (md_id m, m)) ms)) 0x180 = Some (sample_message ''EngineCopy'' 40)"
proof -
  obtain root ms where r: "json_parse (print_json database_json) = Some (Inr root)" "all_messages (members root) = Inr ms"
    and f: "\<forall>k. db_find [(0x180, sample_message ''EngineCopy'' 40)] k = map_of (rev (map (\<lambda>m. (md_id m, m)) ms)) k"
    using find_last_member [OF load_database_json] by blast
  have "map_of (rev (map (\<lambda>m. (md_id m, m)) ms)) 0x180 = Some (sample_message ''EngineCopy'' 40)"
    unfolding spec [OF f, symmetric] by (simp add: db_find_def std_find_def)
  with r show ?thesis by blast
qed

text \<open>
  C31: a database is only loaded when every required member is there: the file is readable, its top
  level an object, every message has its name, period, byte order and signals, and every signal of
  every message its start bit and its length. Otherwise no database is returned.
\<close>

theorem required_members:
  assumes "loadFromJsonFile path contents = Inr db"
  shows "\<exists>input root. contents = Some input \<and> json_parse input = Some (Inr root) \<and> isObject root \<and>
     (\<forall>(k, v) \<in> set (members root). has_key v ''name'' \<and> has_key v ''period_ms'' \<and> has_key v ''byte_order'' \<and>
        (\<exists>sigs. at_key v ''signals'' = Inr sigs \<and>
           (\<forall>(n, s) \<in> set (members sigs). has_key s ''start_bit'' \<and> has_key s ''length'')))"
proof -
  obtain input where c: "contents = Some input" using assms by (cases contents) (simp_all add: loadFromJsonFile_def)
  obtain root ms where r: "json_parse input = Some (Inr root)" "isObject root" and ms: "all_messages (members root) = Inr ms"
    using assms loaded_table unfolding c by blast
  have "\<forall>(k, v) \<in> set (members root). has_key v ''name'' \<and> has_key v ''period_ms'' \<and> has_key v ''byte_order'' \<and>
        (\<exists>sigs. at_key v ''signals'' = Inr sigs \<and>
           (\<forall>(n, s) \<in> set (members sigs). has_key s ''start_bit'' \<and> has_key s ''length''))"
    using all_messages_nth [OF ms] load_message_members
    by (fastforce simp: list_all2_conv_all_nth in_set_conv_nth)
  then show ?thesis using c r by blast
qed

text \<open>The sample database has them, and the same text without the length of a signal is not loaded.\<close>

definition no_length :: json where
  "no_length = Json_Object [(''0x180'', Json_Object
     [(''byte_order'', Json_String ''intel''), (''name'', Json_String ''EngineData''), (''period_ms'', number 20),
      (''signals'', Json_Object [(''rpm'', Json_Object [(''start_bit'', number 0)])])])]"

lemma no_length_parsed: "json_parse (print_json no_length) = Some (Inr no_length)"
proof -
  have "printable (number 20)" "printable (number 0)" unfolding number_def by (rule integral_number, simp)+
  then have "printable no_length" by (simp add: no_length_def del: printable.simps(1))
  from json_round_trip [OF this, of "[]"] show ?thesis by (simp add: value_end_def)
qed

theorem required_members_witness:
  "(\<exists>root. json_parse (print_json database_json) = Some (Inr root) \<and>
      (\<forall>(k, v) \<in> set (members root). \<exists>sigs. at_key v ''signals'' = Inr sigs \<and>
         (\<forall>(n, s) \<in> set (members sigs). has_key s ''start_bit'' \<and> has_key s ''length''))) \<and>
   (\<nexists>db. loadFromJsonFile ''dbc.json'' (Some (print_json no_length)) = Inr db)"
proof
  show "\<exists>root. json_parse (print_json database_json) = Some (Inr root) \<and>
      (\<forall>(k, v) \<in> set (members root). \<exists>sigs. at_key v ''signals'' = Inr sigs \<and>
         (\<forall>(n, s) \<in> set (members sigs). has_key s ''start_bit'' \<and> has_key s ''length''))"
    using required_members [OF load_database_json] by fastforce
  show "\<nexists>db. loadFromJsonFile ''dbc.json'' (Some (print_json no_length)) = Inr db"
  proof
    assume "\<exists>db. loadFromJsonFile ''dbc.json'' (Some (print_json no_length)) = Inr db"
    then obtain db where "loadFromJsonFile ''dbc.json'' (Some (print_json no_length)) = Inr db" by blast
    from required_members [OF this] show False
      by (simp add: no_length_parsed) (simp add: no_length_def members_def at_key_object)
  qed
qed

text \<open>
  Integers of the JSON text are narrowed to int without a check: a start bit of 2^32 + 5 is loaded
  as 5, without an exception.
\<close>

lemma narrowing_unchecked:
  "\<exists>s. load_signal n (signal_json (2 ^ 32 + 5) 8) = Inr s \<and> sd_start_bit s = 5"
proof -
  have "int_member (signal_json (2 ^ 32 + 5) 8) ''start_bit'' = Inr 5"
    using asLong_number [of "2 ^ 32 + 5"]
    by (simp add: int_member_def signal_json_def at_key_object long_to_int_def)
  moreover have "int_member (signal_json (2 ^ 32 + 5) 8) ''length'' = Inr 8"
    by (rule int_member_number) (simp_all add: signal_json_def at_key_object)
  ultimately show ?thesis by (simp add: load_signal_def signal_json_def at_key_object)
qed

end
