(* ===== verification/Frame_Log_Reader.thy ===== *)
theory Frame_Log_Reader
  imports Can_Types Cpp_Text
begin

text \<open>
  The reader of captured frames, \<open>task3_can_decoder/src/frame_log_reader.cpp\<close>: a three-line state
  machine over the trimmed lines of the file. It inverts a printer of logs; blank lines have no
  effect at all, so an incomplete record is not skipped but merged with the next one.
\<close>

section \<open>The reader\<close>

definition blank :: "char \<Rightarrow> bool" where
  "blank c \<longleftrightarrow> c = CHR '' '' \<or> c = CHR 0x09 \<or> c = CHR 0x0D \<or> c = CHR 0x0A"

definition trim :: "string \<Rightarrow> string" where
  "trim s = rev (dropWhile blank (rev (dropWhile blank s)))"

text \<open>The variables of \<open>readAll\<close>: \<open>fieldIdx\<close> is 0 (timestamp), 1 (identifier) or 2 (payload).\<close>

record log_state =
  ls_fieldIdx :: nat
  ls_current :: raw_frame
  ls_frames :: "raw_frame list"

definition log_start :: log_state where
  "log_start = \<lparr>ls_fieldIdx = 0, ls_current = default_frame, ls_frames = []\<rparr>"

text \<open>At most eight bytes are taken from the words of a payload line.\<close>

fun read_bytes :: "string list \<Rightarrow> nat \<Rightarrow> frame_payload \<Rightarrow> (frame_payload \<times> nat) result" where
  "read_bytes [] i data = Inr (data, i)"
| "read_bytes (w # ws) i data =
     (if i < 8 then rbind (stoul16 w) (\<lambda>v. read_bytes ws (i + 1) (data[i := ucast v]))
      else Inr (data, i))"

definition flush :: "log_state \<Rightarrow> log_state" where
  "flush s = s\<lparr>ls_frames := ls_frames s @ [ls_current s], ls_current := default_frame, ls_fieldIdx := 0\<rparr>"

definition log_line :: "string \<Rightarrow> log_state \<Rightarrow> log_state result" where
  "log_line line s =
     (let t = trim line in
      if t = [] then Inr s
      else if ls_fieldIdx s = 0 then
        rbind (stol t) (\<lambda>ts. Inr (s\<lparr>ls_current := (ls_current s)\<lparr>rf_timestamp_ms := ts\<rparr>, ls_fieldIdx := 1\<rparr>))
      else if ls_fieldIdx s = 1 then
        rbind (stoul16 t) (\<lambda>w.
          Inr (s\<lparr>ls_current := (ls_current s)\<lparr>rf_can_id := ucast w\<rparr>, ls_fieldIdx := 2\<rparr>))
      else if ls_fieldIdx s = 2 then
        rbind (read_bytes (stream_words t) 0 (replicate 8 0)) (\<lambda>(data, i).
          Inr (flush (s\<lparr>ls_current := (ls_current s)\<lparr>rf_data := data, rf_dlc := int i\<rparr>\<rparr>)))
      else Inr s)"

fun log_lines :: "string list \<Rightarrow> log_state \<Rightarrow> log_state result" where
  "log_lines [] s = Inr s"
| "log_lines (l # ls) s = rbind (log_line l s) (log_lines ls)"

definition readAll :: "string \<Rightarrow> string option \<Rightarrow> raw_frame list result" where
  "readAll path contents =
     (case contents of
        None \<Rightarrow> Inl (Runtime_Error (''Could not open frame log: '' @ path))
      | Some input \<Rightarrow> rbind (log_lines (getlines newline input) log_start) (\<lambda>s. Inr (ls_frames s)))"

section \<open>Lines\<close>

lemma trim_id: "s \<noteq> [] \<Longrightarrow> \<not> blank (hd s) \<Longrightarrow> \<not> blank (last s) \<Longrightarrow> trim s = s"
proof -
  assume s: "s \<noteq> []" "\<not> blank (hd s)" "\<not> blank (last s)"
  then have "dropWhile blank s = s" by (cases s) simp_all
  moreover have "dropWhile blank (rev s) = rev s"
    using s(1,3) by (cases s rule: rev_cases) simp_all
  ultimately show ?thesis by (simp add: trim_def)
qed

lemma split_words_word:
  "\<forall>c \<in> set w. \<not> is_space c \<Longrightarrow> split_words acc (w @ rest) = split_words (rev w @ acc) rest"
  by (induction w arbitrary: acc) auto

text \<open>Words separated by single blanks, the last one without.\<close>

fun spaced :: "string list \<Rightarrow> string" where
  "spaced [] = []"
| "spaced [w] = w"
| "spaced (w # v # ws) = w @ '' '' @ spaced (v # ws)"

lemma stream_words_spaced:
  "\<forall>w \<in> set ws. w \<noteq> [] \<and> (\<forall>c \<in> set w. \<not> is_space c) \<Longrightarrow> stream_words (spaced ws) = ws"
proof (induction ws rule: spaced.induct)
  case (2 w)
  then show ?case using split_words_word [of w "[]" "[]"] by (simp add: stream_words_def)
next
  case (3 w v ws)
  then have w: "w \<noteq> []" "\<forall>c \<in> set w. \<not> is_space c" by simp_all
  have "is_space CHR '' ''" by (simp add: is_space_def)
  then show ?case using 3 split_words_word [OF w(2), of "[]" "'' '' @ spaced (v # ws)"] w(1)
    by (simp add: stream_words_def)
qed (simp add: stream_words_def)

section \<open>Printing a log\<close>

definition byte_text :: "u8 \<Rightarrow> string" where
  "byte_text b = zero_pad 2 (hex_upper (unat b))"

definition id_text :: "u32 \<Rightarrow> string" where
  "id_text k = ''0x'' @ zero_pad 3 (hex_upper (unat k))"

definition frame_lines :: "raw_frame \<Rightarrow> string list" where
  "frame_lines f =
     [dec_int (rf_timestamp_ms f), id_text (rf_can_id f),
      spaced (map byte_text (take (nat (rf_dlc f)) (rf_data f))), '''']"

definition log_text :: "raw_frame list \<Rightarrow> string" where
  "log_text fs = line_text (concat (map frame_lines fs))"

text \<open>A frame as a log can hold it: one to eight bytes, the rest of the payload zero.\<close>

definition loggable :: "raw_frame \<Rightarrow> bool" where
  "loggable f \<longleftrightarrow> long_min \<le> rf_timestamp_ms f \<and> rf_timestamp_ms f \<le> long_max \<and> payload_ok (rf_data f) \<and>
     1 \<le> rf_dlc f \<and> rf_dlc f \<le> 8 \<and> drop (nat (rf_dlc f)) (rf_data f) = replicate (8 - nat (rf_dlc f)) 0"

section \<open>Reading back what was printed\<close>

lemma digit_plain: "is_digit 16 c \<Longrightarrow> \<not> blank c \<and> \<not> is_space c \<and> c \<noteq> newline"
  by (auto simp: is_digit_def digit_val_def is_space_def blank_def newline_def Let_def split: if_splits)

lemma hex_digits: "c \<in> set (zero_pad w (hex_upper n)) \<Longrightarrow> is_digit 16 c"
proof -
  assume "c \<in> set (zero_pad w (hex_upper n))"
  then consider "c = CHR ''0''" | "c \<in> set (to_base upper_digit 16 n)"
    by (auto simp: zero_pad_def hex_upper_def)
  then show ?thesis
  proof cases
    case 1
    then show ?thesis by (simp add: is_digit_def digit_val_def)
  next
    case 2
    then obtain k where "k < 16" "c = upper_digit k" using to_base_digits [of 16 c upper_digit n] by auto
    then show ?thesis by (simp add: is_digit_d digits_ok_upper)
  qed
qed

lemma zero_pad_not_Nil: "zero_pad w (hex_upper n) \<noteq> []"
  by (simp add: zero_pad_def hex_upper_def)

lemma byte_text_plain:
  "byte_text b \<noteq> []" "c \<in> set (byte_text b) \<Longrightarrow> \<not> blank c" "c \<in> set (byte_text b) \<Longrightarrow> \<not> is_space c"
  "newline \<notin> set (byte_text b)"
  using hex_digits digit_plain by (auto simp: byte_text_def zero_pad_not_Nil)

lemma narrow_widen:
  "(ucast (ucast (b :: u8) :: u64) :: u8) = b" "(ucast (ucast (k :: u32) :: u64) :: u32) = k"
  by (rule bit_word_eqI; simp add: bit_ucast_iff)+

lemma stoul16_byte: "stoul16 (byte_text b) = Inr (ucast b)"
proof -
  have "unat b < 2 ^ 64" by (rule less_trans [OF unat_u8_less]) simp
  then have "stoul16 (byte_text b) = Inr (of_nat (unat b))"
    unfolding byte_text_def hex_upper_def by (rule stoul16_hex(1) [OF digits_ok_upper])
  then show ?thesis by simp
qed

lemma stoul16_id: "stoul16 (id_text k) = Inr (ucast k)"
proof -
  have "unat k < 2 ^ 32" using unsigned_less [of k] by simp
  then have "unat k < 2 ^ 64" by simp
  then have "stoul16 (id_text k) = Inr (of_nat (unat k))"
    unfolding id_text_def hex_upper_def by (rule stoul16_hex(2) [OF digits_ok_upper])
  then show ?thesis by simp
qed

lemma read_bytes_texts:
  "length data = 8 \<Longrightarrow> i + length bs \<le> 8 \<Longrightarrow>
     read_bytes (map byte_text bs) i data = Inr (take i data @ bs @ drop (i + length bs) data, i + length bs)"
proof (induction bs arbitrary: i data)
  case (Cons b bs)
  then show ?case by (simp add: stoul16_byte take_list_update_snoc narrow_widen)
qed simp

lemma dec_int_plain: "dec_int i \<noteq> []" "c \<in> set (dec_int i) \<Longrightarrow> \<not> blank c \<and> c \<noteq> newline"
proof -
  show "dec_int i \<noteq> []" by (simp add: dec_int_def dec_nat_def)
  assume "c \<in> set (dec_int i)"
  then consider "c = CHR ''-''" | n where "c \<in> set (dec_nat n)" by (auto simp: dec_int_def split: if_splits)
  then show "\<not> blank c \<and> c \<noteq> newline"
  proof cases
    case 2
    then obtain k where "k < 10" "c = digit_char k"
      using to_base_digits [of 10 c digit_char n] by (auto simp: dec_nat_def)
    then have "is_digit 16 c" using digits_ok_lower by (simp add: is_digit_d)
    then show ?thesis using digit_plain by blast
  qed (simp add: blank_def newline_def)
qed

lemma trim_plain: "s \<noteq> [] \<Longrightarrow> (\<And>c. c \<in> set s \<Longrightarrow> \<not> blank c) \<Longrightarrow> trim s = s"
  by (simp add: trim_id)

lemma spaced_ends:
  "ws \<noteq> [] \<Longrightarrow> \<forall>w \<in> set ws. w \<noteq> [] \<Longrightarrow> spaced ws \<noteq> [] \<and> hd (spaced ws) = hd (hd ws) \<and> last (spaced ws) = last (last ws)"
  by (induction ws rule: spaced.induct) (auto simp: last_append split: if_splits)

lemma trim_payload: "bs \<noteq> [] \<Longrightarrow> trim (spaced (map byte_text bs)) = spaced (map byte_text bs)"
proof -
  assume bs: "bs \<noteq> []"
  have e: "spaced (map byte_text bs) \<noteq> []" "hd (spaced (map byte_text bs)) = hd (byte_text (hd bs))"
    "last (spaced (map byte_text bs)) = last (byte_text (last bs))"
    using spaced_ends [of "map byte_text bs"] bs byte_text_plain(1) by (simp_all add: hd_map last_map)
  then show ?thesis
    using byte_text_plain(2) [OF hd_in_set [OF byte_text_plain(1)]]
      byte_text_plain(2) [OF last_in_set [OF byte_text_plain(1)]]
    by (intro trim_id) simp_all
qed

lemma words_payload: "stream_words (spaced (map byte_text bs)) = map byte_text bs"
  using byte_text_plain(1,3) by (intro stream_words_spaced) auto

lemma id_text_plain: "id_text k \<noteq> []" "c \<in> set (id_text k) \<Longrightarrow> \<not> blank c \<and> c \<noteq> newline"
proof -
  show "id_text k \<noteq> []" by (simp add: id_text_def)
  assume "c \<in> set (id_text k)"
  then consider "c = CHR ''0''" | "c = CHR ''x''" | "c \<in> set (zero_pad 3 (hex_upper (unat k)))"
    by (auto simp: id_text_def)
  then show "\<not> blank c \<and> c \<noteq> newline"
    using hex_digits digit_plain by cases (auto simp: blank_def newline_def)
qed

lemma log_frame:
  assumes "loggable f"
  shows "log_lines (frame_lines f @ rest) (log_start\<lparr>ls_frames := fs\<rparr>) = log_lines rest (log_start\<lparr>ls_frames := fs @ [f]\<rparr>)"
proof -
  define n where "n = nat (rf_dlc f)"
  define bs where "bs = take n (rf_data f)"
  have n: "1 \<le> n" "n \<le> 8" "int n = rf_dlc f" and len: "length (rf_data f) = 8"
    and dr: "drop n (rf_data f) = replicate (8 - n) 0"
    using assms by (auto simp: loggable_def n_def payload_ok_def)
  then have bs: "length bs = n" "bs \<noteq> []" by (auto simp: bs_def)
  have data: "read_bytes (map byte_text bs) 0 (replicate 8 0) = Inr (rf_data f, n)"
    using read_bytes_texts [of "replicate 8 0" 0 bs] n(2) bs(1) dr append_take_drop_id [of n "rf_data f"]
    by (simp add: bs_def)
  have ts: "stol (dec_int (rf_timestamp_ms f)) = Inr (rf_timestamp_ms f)"
    using assms by (simp add: loggable_def stol_dec_int)
  have trims: "trim (dec_int (rf_timestamp_ms f)) = dec_int (rf_timestamp_ms f)"
      "trim (id_text (rf_can_id f)) = id_text (rf_can_id f)"
    using dec_int_plain id_text_plain by (blast intro: trim_plain)+
  have ne: "spaced (map byte_text bs) \<noteq> []" using spaced_ends [of "map byte_text bs"] bs(2) byte_text_plain(1) by auto
  have lines: "frame_lines f = [dec_int (rf_timestamp_ms f), id_text (rf_can_id f), spaced (map byte_text bs), '''']"
    by (simp add: frame_lines_def bs_def n_def)
  define s0 where "s0 = log_start\<lparr>ls_frames := fs\<rparr>"
  define s1 where "s1 = s0\<lparr>ls_current := default_frame\<lparr>rf_timestamp_ms := rf_timestamp_ms f\<rparr>, ls_fieldIdx := 1\<rparr>"
  define s2 where "s2 = s1\<lparr>ls_current := (ls_current s1)\<lparr>rf_can_id := rf_can_id f\<rparr>, ls_fieldIdx := 2\<rparr>"
  have 1: "log_line (dec_int (rf_timestamp_ms f)) s0 = Inr s1"
    by (simp add: log_line_def trims dec_int_plain(1) ts s0_def s1_def log_start_def)
  have 2: "log_line (id_text (rf_can_id f)) s1 = Inr s2"
    by (simp add: log_line_def trims id_text_plain(1) stoul16_id narrow_widen s2_def s1_def)
  have field2: "ls_fieldIdx s2 = 2" by (simp add: s2_def)
  have 3: "log_line (spaced (map byte_text bs)) s2 = Inr (log_start\<lparr>ls_frames := fs @ [f]\<rparr>)"
    unfolding log_line_def trim_payload [OF bs(2)] words_payload Let_def field2
    using ne n(3) by (simp add: data flush_def s2_def s1_def s0_def log_start_def default_frame_def)
  have 4: "log_line '''' s = Inr s" for s by (simp add: log_line_def trim_def)
  show ?thesis unfolding lines s0_def [symmetric] by (simp add: 1 2 3 4)
qed

lemma log_frames:
  "\<forall>f \<in> set gs. loggable f \<Longrightarrow>
     log_lines (concat (map frame_lines gs) @ rest) (log_start\<lparr>ls_frames := fs\<rparr>) = log_lines rest (log_start\<lparr>ls_frames := fs @ gs\<rparr>)"
proof (induction gs arbitrary: fs)
  case (Cons g gs)
  then show ?case using log_frame [of g "concat (map frame_lines gs) @ rest" fs] by simp
qed simp

lemma frame_lines_plain: "l \<in> set (frame_lines f) \<Longrightarrow> newline \<notin> set l"
proof -
  have "newline \<notin> set (spaced ws)" if "\<forall>w \<in> set ws. newline \<notin> set w" for ws
    using that by (induction ws rule: spaced.induct) (auto simp: newline_def)
  then have "newline \<notin> set (spaced (map byte_text bs))" for bs using byte_text_plain(4) by auto
  moreover assume "l \<in> set (frame_lines f)"
  moreover have "newline \<notin> set (dec_int i)" "newline \<notin> set (id_text k)" for i k
    using dec_int_plain(2) id_text_plain(2) by blast+
  ultimately show ?thesis by (auto simp: frame_lines_def)
qed

lemma readAll_lines:
  assumes "\<forall>f \<in> set fs. loggable f" and "\<forall>l \<in> set ls. newline \<notin> set l"
  shows "readAll path (Some (log_text fs @ line_text ls)) =
    rbind (log_lines ls (log_start\<lparr>ls_frames := fs\<rparr>)) (\<lambda>s. Inr (ls_frames s))"
proof -
  have plain: "\<forall>l \<in> set (concat (map frame_lines fs) @ ls). newline \<notin> set l"
    using frame_lines_plain assms(2) by auto
  have input: "log_text fs @ line_text ls = line_text (concat (map frame_lines fs) @ ls)"
    by (simp add: log_text_def line_text_def)
  have start: "log_start = log_start\<lparr>ls_frames := []\<rparr>" by (simp add: log_start_def)
  have "log_lines (concat (map frame_lines fs) @ ls) log_start = log_lines ls (log_start\<lparr>ls_frames := fs\<rparr>)"
    using log_frames [OF assms(1), of ls "[]"] start by simp
  then show ?thesis by (simp add: readAll_def input getlines_line_text [OF plain])
qed

lemma readAll_log_text: "\<forall>f \<in> set fs. loggable f \<Longrightarrow> readAll path (Some (log_text fs)) = Inr fs"
  using readAll_lines [of fs "[]" path] by (simp add: line_text_def)

section \<open>The properties\<close>

text \<open>
  C17: a log printed from frames is read back as exactly those frames, in order, with an unfinished
  record at the end of the file (a timestamp line, or a timestamp and an identifier line) dropped.
\<close>

theorem frame_log_round_trip:
  assumes "\<forall>f \<in> set fs. loggable f" and "loggable g" and "k \<le> 2"
  shows "readAll path (Some (log_text fs @ line_text (take k (frame_lines g)))) = Inr fs"
proof -
  have plain: "\<forall>l \<in> set (take k (frame_lines g)). newline \<notin> set l"
    using frame_lines_plain by (auto dest: in_set_takeD)
  have "\<exists>s. log_lines (take k (frame_lines g)) (log_start\<lparr>ls_frames := fs\<rparr>) = Inr s \<and> ls_frames s = fs"
  proof -
    have t: "trim (dec_int (rf_timestamp_ms g)) = dec_int (rf_timestamp_ms g)" "trim (id_text (rf_can_id g)) = id_text (rf_can_id g)"
      using dec_int_plain id_text_plain by (blast intro: trim_plain)+
    have v: "stol (dec_int (rf_timestamp_ms g)) = Inr (rf_timestamp_ms g)"
      using assms(2) by (simp add: loggable_def stol_dec_int)
    consider "k = 0" | "k = 1" | "k = 2" using assms(3) by linarith
    then show ?thesis
      by cases (simp_all add: frame_lines_def log_line_def t v dec_int_plain(1) id_text_plain(1) stoul16_id log_start_def)
  qed
  then show ?thesis by (auto simp: readAll_lines [OF assms(1) plain])
qed

definition sample_frame :: "int \<Rightarrow> u32 \<Rightarrow> raw_frame" where
  "sample_frame t k = \<lparr>rf_timestamp_ms = t, rf_can_id = k, rf_data = [0x9C, 0x0C, 0, 0x90, 0, 0, 0, 0], rf_dlc = 8\<rparr>"

lemma sample_loggable: "long_min \<le> t \<Longrightarrow> t \<le> long_max \<Longrightarrow> loggable (sample_frame t k)"
  by (simp add: loggable_def sample_frame_def payload_ok_def)

theorem frame_log_round_trip_witness:
  "readAll ''frames.log'' (Some (log_text [sample_frame 0 0x180, sample_frame 20 0x2B0] @ line_text (take 2 (frame_lines (sample_frame 40 0x180))))) =
     Inr [sample_frame 0 0x180, sample_frame 20 0x2B0]"
  by (rule frame_log_round_trip) (simp_all add: sample_loggable)

lemma blank_line_skipped: "trim l = [] \<Longrightarrow> log_line l s = Inr s"
  by (simp add: log_line_def)

lemma log_lines_nonblank: "log_lines ls s = log_lines (filter (\<lambda>l. trim l \<noteq> []) ls) s"
proof (induction ls arbitrary: s)
  case (Cons l ls)
  show ?case
  proof (cases "trim l = []")
    case True
    with Cons.IH [of s] show ?thesis by (simp add: blank_line_skipped)
  next
    case False
    have "rbind (log_line l s) (log_lines ls) = rbind (log_line l s) (log_lines (filter (\<lambda>l. trim l \<noteq> []) ls))"
      by (rule rbind_cong) (rule refl, rule Cons.IH)
    with False show ?thesis by simp
  qed
qed simp

text \<open>
  A record whose payload line is missing is not skipped, whatever blank lines follow it: the
  timestamp line of the next record is read as its payload, so a frame with wrong data comes out and
  the record after it is lost.
\<close>

lemma incomplete_record_merged:
  "readAll path (Some (line_text
     [''10'', ''0x180'', '''', ''20'', ''0x1A0'', ''9C 0C 00 90'', '''', ''30'', ''0x2B0'', ''FF'', ''''])) =
   Inr [default_frame\<lparr>rf_timestamp_ms := 10, rf_can_id := 0x180, rf_data := [0x20, 0, 0, 0, 0, 0, 0, 0], rf_dlc := 1\<rparr>,
        default_frame\<lparr>rf_timestamp_ms := 0, rf_can_id := 0x9C, rf_data := [0x30, 0, 0, 0, 0, 0, 0, 0], rf_dlc := 1\<rparr>]"
proof -
  let ?ls = "[''10'', ''0x180'', '''', ''20'', ''0x1A0'', ''9C 0C 00 90'', '''', ''30'', ''0x2B0'', ''FF'', '''']"
  have plain: "\<forall>l \<in> set ?ls. newline \<notin> set l" by (simp add: newline_def)
  let ?ms = "[''10'', ''0x180'', ''20'', ''0x1A0'', ''9C 0C 00 90'', ''30'', ''0x2B0'', ''FF'']"
  have 1: "log_lines ?ls log_start = log_lines ?ms log_start"
    by (subst log_lines_nonblank) (simp add: trim_def blank_def)
  have 2: "\<exists>s. log_lines ?ms log_start = Inr s \<and> ls_frames s =
     [default_frame\<lparr>rf_timestamp_ms := 10, rf_can_id := 0x180, rf_data := [0x20, 0, 0, 0, 0, 0, 0, 0], rf_dlc := 1\<rparr>,
      default_frame\<lparr>rf_timestamp_ms := 0, rf_can_id := 0x9C, rf_data := [0x30, 0, 0, 0, 0, 0, 0, 0], rf_dlc := 1\<rparr>]"
    by (simp add: log_line_def trim_def blank_def log_start_def text_eval flush_def default_frame_def)
       (simp add: numeral_eq_Suc)
  show ?thesis using 2 unfolding readAll_def option.case getlines_line_text [OF plain] 1 by auto
qed

end
