(* ===== verification/Can_Main.thy ===== *)
theory Can_Main
  imports Can_Vehicle_State Diagnostics_Totals Dbc_Database Frame_Log_Reader Cpp_Stod
begin

text \<open>
  The CAN decoder program, \<open>task3_can_decoder/src/main.cpp\<close>: its command line, the lines it prints and
  the replay loop as a machine that reads the clock at most once per step. Every run is a run of the
  diagnostics engine and of the vehicle state on the sorted frames, whatever the clock does.
\<close>

section \<open>Command line\<close>

record can_args =
  ca_speed :: double
  ca_data_dir :: string
  ca_summary_only :: bool

definition default_can_args :: can_args where
  "default_can_args = \<lparr>ca_speed = of_integer 1, ca_data_dir = ''task3_can_decoder/data'', ca_summary_only = False\<rparr>"

definition can_usage :: "string \<Rightarrow> string" where
  "can_usage prog = ''Usage: '' @ prog @ '' [--speed N] [--data-dir path] [--summary-only]'' @ [newline]"

fun can_parse :: "string \<Rightarrow> string list \<Rightarrow> can_args \<Rightarrow> can_args started result" where
  "can_parse prog [] a = Inr (Running a)"
| "can_parse prog (arg # rest) a =
     (if arg = ''--speed'' then
        with_next arg rest (\<lambda>v. rbind (stod v) (\<lambda>x. can_parse prog (tl rest) (a\<lparr>ca_speed := x\<rparr>)))
      else if arg = ''--data-dir'' then
        with_next arg rest (\<lambda>v. can_parse prog (tl rest) (a\<lparr>ca_data_dir := v\<rparr>))
      else if arg = ''--summary-only'' then can_parse prog rest (a\<lparr>ca_summary_only := True\<rparr>)
      else if arg = ''--help'' then Inr (Exited 0 (can_usage prog) '''')
      else Inr (unknown_argument arg))"

definition can_parseArgs :: "string list \<Rightarrow> can_args started result" where
  "can_parseArgs argv = can_parse (hd argv) (tl argv) default_can_args"

section \<open>Printed lines\<close>

definition gearOrDash :: "can_vehicle_state \<Rightarrow> string" where
  "gearOrDash s = (case cv_gear s of None \<Rightarrow> ''-'' | Some g \<Rightarrow> g)"

text \<open>\<open>std::to_string\<close> of a double has six decimals; \<open>substr\<close> cuts the text, not the value.\<close>

definition printStatusLine :: "int \<Rightarrow> can_vehicle_state \<Rightarrow> bool \<Rightarrow> string \<Rightarrow> string result" where
  "printStatusLine log_ms state healthy reason =
     rbind (case cv_rpm state of
              None \<Rightarrow> Inr ''-''
            | Some x \<Rightarrow> rbind (cast_int x) (\<lambda>i. Inr (dec_int i @ ''rpm''))) (\<lambda>rpm.
     Inr (''[t='' @ pad_left 5 (dec_int log_ms) @ ''ms] RPM='' @ pad_right 8 rpm @
       '' Speed='' @ pad_right 9
         (case cv_speed_kmh state of None \<Rightarrow> ''-'' | Some x \<Rightarrow> take 5 (fmt_fixed 6 x) @ ''km/h'') @
       '' Gear='' @ pad_right 3 (gearOrDash state) @
       '' Brake='' @ pad_right 5
         (case cv_brake_pressed state of None \<Rightarrow> ''-'' | Some b \<Rightarrow> if b then ''ON'' else ''off'') @
       '' Steer='' @ pad_right 9
         (case cv_steering_angle_deg state of None \<Rightarrow> ''-'' | Some x \<Rightarrow> take 6 (fmt_fixed 6 x) @ ''deg'') @
       ''  '' @ (if healthy then ''OK'' else ''WARNING'') @
       (if reason = [] then [] else '': '' @ reason) @ [newline]))"

definition id_hex :: "u32 \<Rightarrow> string" where
  "id_hex k = ''0x'' @ zero_pad 3 (hex_upper (unat k))"

definition anomaly_line :: "string \<Rightarrow> anomaly \<Rightarrow> string" where
  "anomaly_line label a =
     ''  !! [t='' @ pad_left 5 (dec_int (an_timestamp_ms a)) @ ''ms] '' @ label @ pad_right 14 (an_message_name a) @
     '' '' @ id_hex (an_can_id a) @ ''  '' @ an_detail a @ [newline]"

definition timeout_line :: "anomaly \<Rightarrow> string" where
  "timeout_line a = anomaly_line ''TIMEOUT  '' a"

definition frame_anomaly_line :: "anomaly \<Rightarrow> string" where
  "frame_anomaly_line a =
     anomaly_line ((if an_kind a = CounterGap then ''CTR_GAP '' else ''CHKSUM  '') @ '' '') a"

definition unknown_line :: "anomaly \<Rightarrow> string" where
  "unknown_line a =
     ''  ?? [t='' @ pad_left 5 (dec_int (an_timestamp_ms a)) @ ''ms] UNKNOWN  '' @ id_hex (an_can_id a) @
     ''  '' @ an_detail a @ [newline]"

definition summary_line :: "u32 \<Rightarrow> message_def \<Rightarrow> message_stats \<Rightarrow> string" where
  "summary_line k msg st =
     id_hex k @ '' '' @ pad_right 14 (md_name msg) @
     '' frames='' @ pad_right 4 (dec_nat (unat (ms_frames_received st))) @
     '' counter_faults='' @ pad_right 3 (dec_nat (unat (ms_counter_faults st))) @
     '' checksum_faults='' @ pad_right 3 (dec_nat (unat (ms_checksum_faults st))) @
     '' timeout_events='' @ pad_right 3 (dec_nat (unat (ms_timeout_events st))) @ [newline]"

definition summary_text :: "dbc_database \<Rightarrow> (u32 \<Rightarrow> message_stats) \<Rightarrow> u64 \<Rightarrow> string" where
  "summary_text db stats unknown =
     [newline] @ ''--- Per-message summary ---'' @ [newline] @
     concat (map (\<lambda>(k, msg). summary_line k msg (stats k)) db) @
     ''Unknown-ID frames: '' @ dec_nat (unat unknown) @ [newline]"

section \<open>The replay loop\<close>

text \<open>
  The points of the loop; a target is the time of the next frame on the wall clock, in nanoseconds.
  \<open>Sleeping\<close> carries the time at which the sleep ends and the target.
\<close>

datatype can_pc = Next_Frame | Wait_Test int | Sleep_Calc int | Sleeping int int | Poll_Timeouts int | Arrive | Summary | Can_Done

record can_world =
  cw_clock :: int
  cw_wallStart :: int
  cw_args :: can_args
  cw_db :: dbc_database
  cw_frames :: "raw_frame list"
  cw_engine :: engine
  cw_state :: can_vehicle_state
  cw_lastPrintedMs :: int
  cw_out :: string
  cw_pc :: can_pc

definition pollInterval :: int where "pollInterval = 20"

text \<open>\<open>next.timestamp_ms / args.speed\<close> milliseconds as a duration of the clock, added to the start.\<close>

definition target_wall :: "can_world \<Rightarrow> int \<Rightarrow> int result" where
  "target_wall w ts =
     rbind (cast_long (dmul (ddiv (of_integer ts) (ca_speed (cw_args w))) (of_integer 1000000))) (\<lambda>d.
       long_add (cw_wallStart w) d)"

definition logMsNow :: "can_world \<Rightarrow> int result" where
  "logMsNow w =
     cast_long (dmul (ddiv (of_integer (cw_clock w - cw_wallStart w)) (of_integer 1000000)) (ca_speed (cw_args w)))"

text \<open>The first message, in the order of the identifiers, that is timed out.\<close>

fun first_timed_out :: "dbc_database \<Rightarrow> dbc_database \<Rightarrow> int \<Rightarrow> engine \<Rightarrow> message_def option result" where
  "first_timed_out db [] now_ms e = Inr None"
| "first_timed_out db ((k, msg) # ms) now_ms e =
     rbind (isCurrentlyTimedOut db k now_ms e) (\<lambda>b. if b then Inr (Some msg) else first_timed_out db ms now_ms e)"

definition poll_timeouts :: "int \<Rightarrow> can_world \<Rightarrow> can_world result" where
  "poll_timeouts target w =
     rbind (logMsNow w) (\<lambda>nowMs.
     rbind (checkTimeouts nowMs (cw_db w) (cw_engine w)) (\<lambda>(anomalies, e).
       let w = w\<lparr>cw_engine := e, cw_out := cw_out w @ concat (map timeout_line anomalies), cw_pc := Wait_Test target\<rparr> in
       if ca_summary_only (cw_args w) then Inr w
       else rbind (long_sub nowMs (cw_lastPrintedMs w)) (\<lambda>d.
         if d < 100 then Inr w
         else rbind (first_timed_out (cw_db w) (cw_db w) nowMs e) (\<lambda>late.
           let reason = (case late of None \<Rightarrow> '''' | Some msg \<Rightarrow> md_name msg @ '' missing'') in
           rbind (printStatusLine nowMs (cw_state w) (late = None) reason) (\<lambda>line.
             Inr (w\<lparr>cw_out := cw_out w @ line, cw_lastPrintedMs := nowMs\<rparr>))))))"

definition arrive :: "raw_frame \<Rightarrow> can_world \<Rightarrow> can_world result" where
  "arrive f w =
     (case db_find (cw_db w) (rf_can_id f) of
        None \<Rightarrow>
          (let (a, e) = onUnknownFrame f (cw_engine w) in
           Inr (w\<lparr>cw_engine := e, cw_out := cw_out w @ unknown_line a\<rparr>))
      | Some msg \<Rightarrow>
          rbind (onKnownFrame msg f (cw_engine w)) (\<lambda>(anomalies, e).
          rbind (apply_frame msg f (cw_state w)) (\<lambda>state.
            let w = w\<lparr>cw_engine := e, cw_state := state,
                      cw_out := cw_out w @ concat (map frame_anomaly_line anomalies)\<rparr> in
            if ca_summary_only (cw_args w) then Inr w
            else
              let nowMs = rf_timestamp_ms f in
              rbind (isCurrentlyTimedOut (cw_db w) (rf_can_id f) nowMs e) (\<lambda>late.
              rbind (printStatusLine nowMs state (\<not> late) (if late then md_name msg @ '' missing'' else '''')) (\<lambda>line.
                Inr (w\<lparr>cw_out := cw_out w @ line, cw_lastPrintedMs := nowMs\<rparr>))))))"

definition can_step :: "can_world \<Rightarrow> can_world result" where
  "can_step w =
     (case cw_pc w of
        Next_Frame \<Rightarrow>
          (case cw_frames w of
             [] \<Rightarrow> Inr (w\<lparr>cw_pc := Summary\<rparr>)
           | f # _ \<Rightarrow> rbind (target_wall w (rf_timestamp_ms f)) (\<lambda>t. Inr (w\<lparr>cw_pc := Wait_Test t\<rparr>)))
      | Wait_Test t \<Rightarrow> Inr (w\<lparr>cw_pc := (if cw_clock w < t then Sleep_Calc t else Arrive)\<rparr>)
      | Sleep_Calc t \<Rightarrow>
          (let d = min pollInterval (trunc_div (t - cw_clock w) 1000000)
           in Inr (w\<lparr>cw_pc := Sleeping (cw_clock w + d * 1000000) t\<rparr>))
      | Sleeping s t \<Rightarrow> Inr (if s \<le> cw_clock w then w\<lparr>cw_pc := Poll_Timeouts t\<rparr> else w)
      | Poll_Timeouts t \<Rightarrow> poll_timeouts t w
      | Arrive \<Rightarrow>
          (case cw_frames w of
             [] \<Rightarrow> Inr w
           | f # fs \<Rightarrow> rbind (arrive f w) (\<lambda>w. Inr (w\<lparr>cw_frames := fs, cw_pc := Next_Frame\<rparr>)))
      | Summary \<Rightarrow>
          Inr (w\<lparr>cw_out := cw_out w @
                 summary_text (cw_db w) (stats_at (cw_engine w)) (de_unknown_frame_count (cw_engine w)),
               cw_pc := Can_Done\<rparr>)
      | Can_Done \<Rightarrow> Inr w)"

section \<open>The program\<close>

datatype can_action = Clock_Advance nat | Loop_Step

fun can_act :: "can_action \<Rightarrow> can_world \<Rightarrow> can_world result" where
  "can_act (Clock_Advance d) w = Inr (w\<lparr>cw_clock := cw_clock w + int d\<rparr>)"
| "can_act Loop_Step w = can_step w"

fun can_run :: "can_action list \<Rightarrow> can_world \<Rightarrow> can_world result" where
  "can_run [] w = Inr w"
| "can_run (a # as) w = rbind (can_act a w) (can_run as)"

text \<open>The input files; \<open>std::sort\<close> orders the frames by time.\<close>

definition can_load :: "(string \<Rightarrow> string option) \<Rightarrow> string \<Rightarrow> (dbc_database \<times> raw_frame list) result" where
  "can_load files dir =
     rbind (loadFromJsonFile (dir @ ''/dbc.json'') (files (dir @ ''/dbc.json''))) (\<lambda>db.
     rbind (readAll (dir @ ''/frames.log'') (files (dir @ ''/frames.log''))) (\<lambda>fs. Inr (db, fs)))"

definition can_start :: "(raw_frame list \<Rightarrow> raw_frame list) \<Rightarrow> int \<Rightarrow> can_args \<Rightarrow> dbc_database \<times> raw_frame list \<Rightarrow> can_world" where
  "can_start std_sort now a = (\<lambda>(db, fs).
     \<lparr>cw_clock = now, cw_wallStart = now, cw_args = a, cw_db = db, cw_frames = std_sort fs,
      cw_engine = new_engine, cw_state = unknown_vehicle, cw_lastPrintedMs = -1000,
      cw_out = ''Loaded '' @ dec_nat (length db) @ '' messages from DBC, '' @ dec_nat (length fs) @
        '' frames from log. Replay speed = '' @ fmt_fixed 2 (ca_speed a) @ ''x'' @ [newline] @ [newline],
      cw_pc = Next_Frame\<rparr>)"

definition can_prepare ::
    "(raw_frame list \<Rightarrow> raw_frame list) \<Rightarrow> (string \<Rightarrow> string option) \<Rightarrow> int \<Rightarrow> string list \<Rightarrow> can_world started result" where
  "can_prepare std_sort files now argv =
     rbind (can_parseArgs argv) (\<lambda>st.
       case st of
         Exited status out err \<Rightarrow> Inr (Exited status out err)
       | Running a \<Rightarrow>
           catch_exception (\<lambda>what. Inr (Exited 1 '''' (''Error loading input data: '' @ what @ [newline])))
             (rbind (can_load files (ca_data_dir a)) (\<lambda>input. Inr (Running (can_start std_sort now a input)))))"

section \<open>Every run is a run of the engine\<close>

text \<open>The printed line of an anomaly.\<close>

definition report :: "anomaly \<Rightarrow> string" where
  "report a = (case an_kind a of Timeout \<Rightarrow> timeout_line a | UnknownId \<Rightarrow> unknown_line a | _ \<Rightarrow> frame_anomaly_line a)"

lemma timeouts_reported: "checkTimeouts now db e = Inr (as, e') \<Longrightarrow> map timeout_line as = map report as"
  using checkTimeouts_kinds [of now db e as e'] by (auto simp: report_def filter_empty_conv)

lemma frame_anomalies_reported:
  assumes "onKnownFrame msg f e = Inr (as, e')"
  shows "map frame_anomaly_line as = map report as"
proof -
  have "\<forall>a \<in> set as. an_kind a = CounterGap \<or> an_kind a = ChecksumMismatch"
    using assms by (auto simp: onKnownFrame_def counter_check_def checksum_check_def rbind_def Let_def
      split: option.splits sum.splits if_splits)
  then show ?thesis by (auto simp: report_def)
qed

text \<open>The frames the database knows, with their messages.\<close>

definition known_pairs :: "dbc_database \<Rightarrow> raw_frame list \<Rightarrow> (message_def \<times> raw_frame) list" where
  "known_pairs db fs = List.map_filter (\<lambda>f. map_option (\<lambda>m. (m, f)) (db_find db (rf_can_id f))) fs"

lemma known_pairs_simps [simp]:
  "known_pairs db [] = []"
  "known_pairs db (f # fs) =
     (case db_find db (rf_can_id f) of None \<Rightarrow> known_pairs db fs | Some m \<Rightarrow> (m, f) # known_pairs db fs)"
  by (simp_all add: known_pairs_def map_filter_simps split: option.split)

lemma known_pairs_append: "known_pairs db (xs @ ys) = known_pairs db xs @ known_pairs db ys"
  by (induction xs) (simp_all split: option.split)

lemma apply_frames_append: "apply_frames (xs @ ys) st = rbind (apply_frames xs st) (apply_frames ys)"
  by (induction xs arbitrary: st) (auto simp: rbind_def split: sum.splits)

lemma diag_run_append:
  "diag_run db (xs @ ys) e =
     rbind (diag_run db xs e) (\<lambda>(a1, e1). rbind (diag_run db ys e1) (\<lambda>(a2, e2). Inr (a1 @ a2, e2)))"
  by (induction xs arbitrary: e) (auto simp: rbind_assoc rbind_def split: sum.splits)

text \<open>What a step keeps, and what it adds to the output beyond the anomalies of the engine.\<close>

definition same_setting :: "can_world \<Rightarrow> can_world \<Rightarrow> bool" where
  "same_setting w w' \<longleftrightarrow> cw_db w' = cw_db w \<and> cw_args w' = cw_args w \<and> cw_wallStart w' = cw_wallStart w"

definition prints :: "can_world \<Rightarrow> anomaly list \<Rightarrow> string \<Rightarrow> can_world \<Rightarrow> bool" where
  "prints w as end w' \<longleftrightarrow> (\<exists>lines. cw_out w' = cw_out w @ lines @ end \<and>
     (ca_summary_only (cw_args w) \<longrightarrow> lines = concat (map report as)))"

lemma poll_timeouts_effect:
  assumes "poll_timeouts t w = Inr w'"
  shows "\<exists>now as. checkTimeouts now (cw_db w) (cw_engine w) = Inr (as, cw_engine w') \<and> same_setting w w' \<and>
     prints w as [] w' \<and> cw_state w' = cw_state w \<and> cw_frames w' = cw_frames w \<and> cw_clock w' = cw_clock w \<and>
     cw_pc w' = Wait_Test t"
proof -
  from assms obtain now as e where c: "logMsNow w = Inr now" "checkTimeouts now (cw_db w) (cw_engine w) = Inr (as, e)"
    by (auto simp: poll_timeouts_def rbind_Inr_iff)
  define w1 where "w1 = w\<lparr>cw_engine := e, cw_out := cw_out w @ concat (map timeout_line as), cw_pc := Wait_Test t\<rparr>"
  have "w' = w1 \<or> (\<not> ca_summary_only (cw_args w) \<and>
      (\<exists>line. w' = w1\<lparr>cw_out := cw_out w1 @ line, cw_lastPrintedMs := now\<rparr>))"
    using assms by (auto simp: poll_timeouts_def c Let_def rbind_Inr_iff simp flip: w1_def split: if_splits)
  then have "cw_engine w' = e \<and> same_setting w w' \<and> prints w as [] w' \<and> cw_state w' = cw_state w \<and>
      cw_frames w' = cw_frames w \<and> cw_clock w' = cw_clock w \<and> cw_pc w' = Wait_Test t"
    by (elim disjE conjE exE) (simp_all add: w1_def same_setting_def prints_def timeouts_reported [OF c(2)])
  with c(2) show ?thesis by blast
qed

lemma arrive_effect:
  assumes "arrive f w = Inr w'"
  shows "\<exists>as. diag_step (cw_db w) (Frame f) (cw_engine w) = Inr (as, cw_engine w') \<and> same_setting w w' \<and>
     prints w as [] w' \<and> apply_frames (known_pairs (cw_db w) [f]) (cw_state w) = Inr (cw_state w')"
proof (cases "db_find (cw_db w) (rf_can_id f)")
  case None
  then have "w' = w\<lparr>cw_engine := snd (onUnknownFrame f (cw_engine w)),
      cw_out := cw_out w @ unknown_line (fst (onUnknownFrame f (cw_engine w)))\<rparr>"
    using assms by (simp add: arrive_def case_prod_unfold Let_def)
  moreover have "report (fst (onUnknownFrame f (cw_engine w))) = unknown_line (fst (onUnknownFrame f (cw_engine w)))"
    by (simp add: report_def onUnknownFrame_def)
  ultimately show ?thesis using None by (simp add: same_setting_def prints_def case_prod_unfold Let_def)
next
  case (Some msg)
  with assms obtain as e st where c: "onKnownFrame msg f (cw_engine w) = Inr (as, e)" "apply_frame msg f (cw_state w) = Inr st"
    by (auto simp: arrive_def rbind_Inr_iff)
  define w1 where "w1 = w\<lparr>cw_engine := e, cw_state := st, cw_out := cw_out w @ concat (map frame_anomaly_line as)\<rparr>"
  have "w' = w1 \<or> (\<not> ca_summary_only (cw_args w) \<and>
      (\<exists>line. w' = w1\<lparr>cw_out := cw_out w1 @ line, cw_lastPrintedMs := rf_timestamp_ms f\<rparr>))"
    using assms by (auto simp: arrive_def Some c Let_def rbind_Inr_iff simp flip: w1_def split: if_splits)
  then have "cw_engine w' = e \<and> same_setting w w' \<and> prints w as [] w' \<and> cw_state w' = st"
    by (elim disjE conjE exE) (simp_all add: w1_def same_setting_def prints_def frame_anomalies_reported [OF c(1)])
  with c show ?thesis by (simp add: Some)
qed

text \<open>
  The invariant of the replay from its first state \<open>w0\<close>: the engine has seen a sequence of frames and
  polls whose frames are the ones decoded so far, in order, the vehicle state is their fold, and a
  frame is decoded only when its time has come.
\<close>

definition on_target :: "can_world \<Rightarrow> int \<Rightarrow> bool" where
  "on_target w t \<longleftrightarrow> cw_frames w \<noteq> [] \<and> target_wall w (rf_timestamp_ms (hd (cw_frames w))) = Inr t"

definition pc_inv :: "can_world \<Rightarrow> bool" where
  "pc_inv w = (case cw_pc w of
       Next_Frame \<Rightarrow> True
     | Wait_Test t \<Rightarrow> on_target w t
     | Sleep_Calc t \<Rightarrow> on_target w t
     | Sleeping _ t \<Rightarrow> on_target w t
     | Poll_Timeouts t \<Rightarrow> on_target w t
     | Arrive \<Rightarrow> (\<exists>t. on_target w t \<and> t \<le> cw_clock w)
     | Summary \<Rightarrow> cw_frames w = []
     | Can_Done \<Rightarrow> cw_frames w = [])"

definition summary_of :: "can_world \<Rightarrow> string" where
  "summary_of w = (if cw_pc w = Can_Done then
     summary_text (cw_db w) (stats_at (cw_engine w)) (de_unknown_frame_count (cw_engine w)) else [])"

definition replayed :: "can_world \<Rightarrow> diag_event list \<Rightarrow> anomaly list \<Rightarrow> can_world \<Rightarrow> bool" where
  "replayed w0 evs as w \<longleftrightarrow> same_setting w0 w \<and> diag_run (cw_db w0) evs (cw_engine w0) = Inr (as, cw_engine w) \<and>
     all_frames evs @ cw_frames w = cw_frames w0 \<and>
     apply_frames (known_pairs (cw_db w0) (all_frames evs)) (cw_state w0) = Inr (cw_state w) \<and>
     prints w0 as (summary_of w) w"

definition can_inv :: "can_world \<Rightarrow> can_world \<Rightarrow> bool" where
  "can_inv w0 w \<longleftrightarrow> pc_inv w \<and> (\<exists>evs as. replayed w0 evs as w)"

lemma prints_trans:
  "prints w0 as [] w \<Longrightarrow> prints w bs end w' \<Longrightarrow> same_setting w0 w \<Longrightarrow> prints w0 (as @ bs) end w'"
  by (auto simp: prints_def same_setting_def)

lemma replayed_event:
  assumes "replayed w0 evs as w" and "cw_pc w \<noteq> Can_Done" and "cw_pc w' \<noteq> Can_Done"
    and "diag_step (cw_db w) ev (cw_engine w) = Inr (bs, cw_engine w')" and "same_setting w w'" and "prints w bs [] w'"
    and "cw_frames w = all_frames [ev] @ cw_frames w'"
    and "apply_frames (known_pairs (cw_db w) (all_frames [ev])) (cw_state w) = Inr (cw_state w')"
  shows "replayed w0 (evs @ [ev]) (as @ bs) w'"
proof -
  have "prints w0 as [] w" "same_setting w0 w" using assms(1,2) by (simp_all add: replayed_def summary_of_def)
  from prints_trans [OF this(1) assms(6) this(2)] show ?thesis
    using assms by (simp add: replayed_def summary_of_def same_setting_def diag_run_append known_pairs_append apply_frames_append)
qed

lemma replayed_silent:
  assumes "replayed w0 evs as w" and "cw_pc w = Can_Done \<longleftrightarrow> p = Can_Done"
  shows "replayed w0 evs as (w\<lparr>cw_clock := c, cw_pc := p\<rparr>)"
proof -
  have "summary_of (w\<lparr>cw_clock := c, cw_pc := p\<rparr>) = summary_of w" using assms(2) by (simp add: summary_of_def)
  with assms(1) show ?thesis by (simp add: replayed_def same_setting_def prints_def)
qed

lemmas pc_defs = pc_inv_def on_target_def target_wall_def

lemma silent_step:
  assumes "can_step w = Inr w'" and "pc_inv w" and "\<forall>t. cw_pc w \<noteq> Poll_Timeouts t"
    and "cw_pc w \<noteq> Arrive" and "cw_pc w \<noteq> Summary"
  shows "w' = w\<lparr>cw_clock := cw_clock w, cw_pc := cw_pc w'\<rparr> \<and> (cw_pc w = Can_Done \<longleftrightarrow> cw_pc w' = Can_Done) \<and> pc_inv w'"
proof (cases w)
  case (fields c s a db fs e st l out pc)
  then show ?thesis using assms
    by (cases pc) (auto simp: can_step_def pc_defs rbind_Inr_iff Let_def split: list.splits if_splits)
qed

lemma can_inv_poll:
  assumes "poll_timeouts t w = Inr w'" and "cw_pc w = Poll_Timeouts t" and "can_inv w0 w"
  shows "can_inv w0 w'"
proof -
  obtain evs as where r: "replayed w0 evs as w" and pc: "pc_inv w" using assms(3) by (auto simp: can_inv_def)
  from poll_timeouts_effect [OF assms(1)] obtain now bs where
    e: "checkTimeouts now (cw_db w) (cw_engine w) = Inr (bs, cw_engine w')" "same_setting w w'" "prints w bs [] w'"
      "cw_state w' = cw_state w" "cw_frames w' = cw_frames w" "cw_clock w' = cw_clock w" "cw_pc w' = Wait_Test t"
    by blast
  have "replayed w0 (evs @ [Poll now]) (as @ bs) w'"
    by (rule replayed_event [OF r _ _ _ e(2,3)]) (simp_all add: assms(2) e)
  moreover have "pc_inv w'" using pc e(2) by (simp add: pc_defs assms(2) e(5-7) same_setting_def)
  ultimately show ?thesis by (auto simp: can_inv_def)
qed

lemma can_inv_arrive:
  assumes "arrive f w = Inr w1" and "cw_frames w = f # fs" and "cw_pc w = Arrive" and "can_inv w0 w"
  shows "can_inv w0 (w1\<lparr>cw_frames := fs, cw_pc := Next_Frame\<rparr>)"
proof -
  let ?w' = "w1\<lparr>cw_frames := fs, cw_pc := Next_Frame\<rparr>"
  obtain evs as where r: "replayed w0 evs as w" using assms(4) by (auto simp: can_inv_def)
  from arrive_effect [OF assms(1)] obtain bs where
    e: "diag_step (cw_db w) (Frame f) (cw_engine w) = Inr (bs, cw_engine w1)" "same_setting w w1" "prints w bs [] w1"
      "apply_frames (known_pairs (cw_db w) [f]) (cw_state w) = Inr (cw_state w1)"
    by blast
  have "replayed w0 (evs @ [Frame f]) (as @ bs) ?w'"
    using e by (intro replayed_event [OF r])
      (simp_all add: assms(2,3) same_setting_def prints_def del: diag_step.simps known_pairs_simps)
  then show ?thesis by (auto simp: can_inv_def pc_inv_def)
qed

lemma can_inv_summary:
  assumes "can_step w = Inr w'" and "cw_pc w = Summary" and "can_inv w0 w"
  shows "can_inv w0 w'"
proof -
  obtain evs as where r: "replayed w0 evs as w" "cw_frames w = []" using assms(2,3) by (auto simp: can_inv_def pc_inv_def)
  have w': "w' = w\<lparr>cw_out := cw_out w @
        summary_text (cw_db w) (stats_at (cw_engine w)) (de_unknown_frame_count (cw_engine w)),
      cw_pc := Can_Done\<rparr>" using assms(1,2) by (simp add: can_step_def)
  have "replayed w0 evs as w'"
    using r(1) assms(2) by (auto simp: w' replayed_def same_setting_def prints_def summary_of_def)
  moreover have "pc_inv w'" using r(2) by (simp add: w' pc_inv_def)
  ultimately show ?thesis by (auto simp: can_inv_def)
qed

lemma can_inv_act:
  assumes "can_act a w = Inr w'" and "can_inv w0 w"
  shows "can_inv w0 w'"
proof (cases a)
  case (Clock_Advance d)
  obtain evs as where r: "replayed w0 evs as w" "pc_inv w" using assms(2) by (auto simp: can_inv_def)
  have w': "w' = w\<lparr>cw_clock := cw_clock w + int d, cw_pc := cw_pc w\<rparr>"
    using assms(1) Clock_Advance by (cases w) auto
  have "pc_inv w'" using r(2) by (auto simp: pc_defs w' split: can_pc.splits)
  moreover have "replayed w0 evs as w'" unfolding w' by (rule replayed_silent [OF r(1)]) simp
  ultimately show ?thesis by (auto simp: can_inv_def)
next
  case Loop_Step
  then have step: "can_step w = Inr w'" using assms(1) by simp
  show ?thesis
  proof (cases "(\<exists>t. cw_pc w = Poll_Timeouts t) \<or> cw_pc w = Arrive \<or> cw_pc w = Summary")
    case True
    then show ?thesis
    proof (elim disjE exE)
      fix t assume "cw_pc w = Poll_Timeouts t"
      then show ?thesis using step can_inv_poll [OF _ _ assms(2)] by (simp add: can_step_def)
    next
      assume pc: "cw_pc w = Arrive"
      then obtain f fs where f: "cw_frames w = f # fs"
        using assms(2) by (auto simp: can_inv_def pc_inv_def on_target_def neq_Nil_conv)
      with pc step show ?thesis using can_inv_arrive [OF _ f pc assms(2)] by (auto simp: can_step_def rbind_Inr_iff)
    qed (rule can_inv_summary [OF step _ assms(2)])
  next
    case False
    obtain evs as where r: "replayed w0 evs as w" "pc_inv w" using assms(2) by (auto simp: can_inv_def)
    then have p: "w' = w\<lparr>cw_clock := cw_clock w, cw_pc := cw_pc w'\<rparr>" "cw_pc w = Can_Done \<longleftrightarrow> cw_pc w' = Can_Done"
      and "pc_inv w'" using silent_step [OF step] False by simp_all
    moreover have "replayed w0 evs as w'" using replayed_silent [OF r(1) p(2)] p(1) by metis
    ultimately show ?thesis by (auto simp: can_inv_def)
  qed
qed

lemma can_inv_run:
  assumes "can_run acts w = Inr w'" and "can_inv w0 w"
  shows "can_inv w0 w'"
  using assms by (induction acts arbitrary: w) (auto simp: rbind_Inr_iff dest: can_inv_act)

lemma can_inv_start: "can_inv (can_start std_sort now a input) (can_start std_sort now a input)"
proof -
  have "replayed w [] [] w" if "cw_pc w = Next_Frame" for w
    using that by (simp add: replayed_def same_setting_def prints_def summary_of_def)
  moreover have "cw_pc (can_start std_sort now a input) = Next_Frame" by (simp add: can_start_def split_beta)
  ultimately show ?thesis by (auto simp: can_inv_def pc_inv_def)
qed

section \<open>What a run prints and when it decodes\<close>

lemma can_start_simps:
  "cw_db (can_start std_sort now a (db, fs)) = db" "cw_frames (can_start std_sort now a (db, fs)) = std_sort fs"
  "cw_engine (can_start std_sort now a (db, fs)) = new_engine" "cw_state (can_start std_sort now a (db, fs)) = unknown_vehicle"
  "cw_args (can_start std_sort now a (db, fs)) = a"
  by (simp_all add: can_start_def)

lemma can_run_replayed:
  assumes "can_run acts (can_start std_sort now a (db, fs)) = Inr w"
  obtains evs as where "replayed (can_start std_sort now a (db, fs)) evs as w" and "pc_inv w"
  using can_inv_run [OF assms can_inv_start] by (auto simp: can_inv_def)

lemma sort_filter_length:
  "sorts_by key f \<Longrightarrow> length (filter P (f xs)) = length (filter P xs)"
  by (metis mset_filter size_mset sorts_byD(1))

text \<open>What holds when the program has ended.\<close>

lemma finished_replay:
  assumes "sorts_by rf_timestamp_ms std_sort" and "db_ok db" and "\<forall>f \<in> set fs. ev_ok (Frame f)"
    and "can_run acts (can_start std_sort now a (db, fs)) = Inr w" and "cw_pc w = Can_Done"
  obtains evs as lines where "diag_run db evs new_engine = Inr (as, cw_engine w)" and "all_frames evs = std_sort fs"
    and "cw_out w = cw_out (can_start std_sort now a (db, fs)) @ lines @ summary_text db (stats_at (cw_engine w))
       (of_nat (length (filter (\<lambda>f. db_find db (rf_can_id f) = None) fs)))"
    and "ca_summary_only a \<longrightarrow> lines = concat (map report as)"
    and "\<And>k m. (k, m) \<in> set db \<Longrightarrow>
       ms_frames_received (stats_at (cw_engine w) k) = of_nat (length (filter (\<lambda>f. rf_can_id f = k) fs)) \<and>
       ms_counter_faults (stats_at (cw_engine w) k) = of_nat (gaps (counters m (filter (\<lambda>f. rf_can_id f = k) (std_sort fs)))) \<and>
       ms_checksum_faults (stats_at (cw_engine w) k) =
         of_nat (length (filter (\<lambda>f. rf_can_id f = k \<and> \<not> checksum_fine m f) fs))"
proof -
  obtain evs as where r: "replayed (can_start std_sort now a (db, fs)) evs as w" and pc: "pc_inv w"
    using can_run_replayed [OF assms(4)] .
  have fin: "cw_frames w = []" using pc assms(5) by (simp add: pc_inv_def)
  with r have run: "diag_run db evs new_engine = Inr (as, cw_engine w)" "all_frames evs = std_sort fs" "cw_db w = db"
    by (simp_all add: replayed_def can_start_simps same_setting_def)
  from r obtain lines where lines: "cw_out w = cw_out (can_start std_sort now a (db, fs)) @ lines @ summary_of w"
      "ca_summary_only a \<longrightarrow> lines = concat (map report as)"
    by (auto simp: replayed_def prints_def can_start_simps)
  have ok: "\<forall>f \<in> set (all_frames evs). ev_ok (Frame f)" using assms(3) run(2) sorts_byD(3) [OF assms(1)] by simp
  note totals = run_totals [OF assms(2) ok run(1), unfolded run(2)]
  have unknown: "summary_of w = summary_text db (stats_at (cw_engine w))
      (of_nat (length (filter (\<lambda>f. db_find db (rf_can_id f) = None) fs)))"
    using totals(1) assms(5) run(3) by (simp add: summary_of_def sort_filter_length [OF assms(1)])
  show ?thesis
  proof (rule that [OF run(1,2) lines(1) [unfolded unknown] lines(2)])
    fix k m
    assume "(k, m) \<in> set db"
    then show "ms_frames_received (stats_at (cw_engine w) k) = of_nat (length (filter (\<lambda>f. rf_can_id f = k) fs)) \<and>
       ms_counter_faults (stats_at (cw_engine w) k) = of_nat (gaps (counters m (filter (\<lambda>f. rf_can_id f = k) (std_sort fs)))) \<and>
       ms_checksum_faults (stats_at (cw_engine w) k) =
         of_nat (length (filter (\<lambda>f. rf_can_id f = k \<and> \<not> checksum_fine m f) fs))"
      using totals(2) [OF _ refl] by (simp add: totals_def sort_filter_length [OF assms(1)] conj_commute Let_def)
  qed
qed

text \<open>
  C3: the report of the program. When it ends, after any interleaving of clock and loop, its output is
  the first line, the lines of the replay and the summary, where the summary counts every frame of the
  log under its identifier, the gaps of the counter sequence in time order, the frames whose checksum
  is wrong and the frames of unknown identifiers: none of these depends on the clock or on the speed.
  With \<open>--summary-only\<close> the lines in between are exactly the anomalies, in order, of one run of the
  diagnostics engine over the sorted frames.
\<close>

theorem can_replay_report:
  assumes "sorts_by rf_timestamp_ms std_sort" and "db_ok db" and "\<forall>f \<in> set fs. ev_ok (Frame f)"
    and "can_run acts (can_start std_sort now a (db, fs)) = Inr w" and "cw_pc w = Can_Done"
  shows "\<exists>lines evs as e. diag_run db evs new_engine = Inr (as, e) \<and> all_frames evs = std_sort fs \<and>
     cw_out w = cw_out (can_start std_sort now a (db, fs)) @ lines @
       summary_text db (stats_at e) (of_nat (length (filter (\<lambda>f. db_find db (rf_can_id f) = None) fs))) \<and>
     (\<forall>(k, m) \<in> set db.
        ms_frames_received (stats_at e k) = of_nat (length (filter (\<lambda>f. rf_can_id f = k) fs)) \<and>
        ms_counter_faults (stats_at e k) = of_nat (gaps (counters m (filter (\<lambda>f. rf_can_id f = k) (std_sort fs)))) \<and>
        ms_checksum_faults (stats_at e k) =
          of_nat (length (filter (\<lambda>f. rf_can_id f = k \<and> \<not> checksum_fine m f) fs))) \<and>
     (ca_summary_only a \<longrightarrow> lines = concat (map report as))"
proof -
  obtain evs as lines where "diag_run db evs new_engine = Inr (as, cw_engine w)" "all_frames evs = std_sort fs"
    "cw_out w = cw_out (can_start std_sort now a (db, fs)) @ lines @ summary_text db (stats_at (cw_engine w))
       (of_nat (length (filter (\<lambda>f. db_find db (rf_can_id f) = None) fs)))"
    "ca_summary_only a \<longrightarrow> lines = concat (map report as)"
    "\<forall>(k, m) \<in> set db.
       ms_frames_received (stats_at (cw_engine w) k) = of_nat (length (filter (\<lambda>f. rf_can_id f = k) fs)) \<and>
       ms_counter_faults (stats_at (cw_engine w) k) = of_nat (gaps (counters m (filter (\<lambda>f. rf_can_id f = k) (std_sort fs)))) \<and>
       ms_checksum_faults (stats_at (cw_engine w) k) =
         of_nat (length (filter (\<lambda>f. rf_can_id f = k \<and> \<not> checksum_fine m f) fs))"
    by (rule finished_replay [OF assms]) blast
  then show ?thesis by blast
qed

text \<open>
  C20: the replay decodes the frames in time order and none before its time: in every state of the loop
  the frames decoded so far are a first part of the sorted log, the vehicle state is the result of
  applying the known ones among them, and where the next one is decoded the clock has reached its
  target \<open>wallStart + timestamp / speed\<close>.
\<close>

theorem can_frames_on_time:
  assumes "sorts_by rf_timestamp_ms std_sort" and "can_run acts (can_start std_sort now a (db, fs)) = Inr w"
  shows "\<exists>decoded. std_sort fs = decoded @ cw_frames w \<and>
     (\<forall>f \<in> set decoded. \<forall>g \<in> set (cw_frames w). rf_timestamp_ms f \<le> rf_timestamp_ms g) \<and>
     apply_frames (known_pairs db decoded) unknown_vehicle = Inr (cw_state w) \<and>
     (cw_pc w = Arrive \<longrightarrow> (\<exists>f rest t. cw_frames w = f # rest \<and>
        target_wall w (rf_timestamp_ms f) = Inr t \<and> t \<le> cw_clock w)) \<and>
     (cw_pc w = Can_Done \<longrightarrow> cw_frames w = [])"
proof -
  obtain evs as where r: "replayed (can_start std_sort now a (db, fs)) evs as w" and pc: "pc_inv w"
    using can_run_replayed [OF assms(2)] .
  from r have split: "std_sort fs = all_frames evs @ cw_frames w"
      "apply_frames (known_pairs db (all_frames evs)) unknown_vehicle = Inr (cw_state w)"
    by (simp_all add: replayed_def can_start_simps)
  have "sorted (map rf_timestamp_ms (all_frames evs) @ map rf_timestamp_ms (cw_frames w))"
    using sorts_byD(2) [OF assms(1), of fs] by (simp add: split(1))
  then have "\<forall>f \<in> set (all_frames evs). \<forall>g \<in> set (cw_frames w). rf_timestamp_ms f \<le> rf_timestamp_ms g"
    by (auto simp: sorted_append)
  moreover have "\<exists>f rest t. cw_frames w = f # rest \<and> target_wall w (rf_timestamp_ms f) = Inr t \<and> t \<le> cw_clock w"
    if "cw_pc w = Arrive"
    using pc that by (auto simp: pc_inv_def on_target_def neq_Nil_conv)
  moreover have "cw_pc w = Can_Done \<longrightarrow> cw_frames w = []" using pc by (auto simp: pc_inv_def)
  ultimately show ?thesis using split by blast
qed

section \<open>An example run\<close>

lemma default_speed_target:
  assumes "\<bar>ts\<bar> < 2 ^ 33" and "ca_speed (cw_args w) = of_integer 1"
  shows "target_wall w ts = long_add (cw_wallStart w) (ts * 1000000)"
proof -
  have one: "dfinite (of_integer 1) \<and> dval (of_integer 1) = 1" using of_integer_exact [of 1] by simp
  have mega: "dfinite (of_integer 1000000) \<and> dval (of_integer 1000000) = 1000000" using of_integer_exact [of 1000000] by simp
  have x: "dfinite (of_integer ts) \<and> dval (of_integer ts) = of_int ts" using of_integer_exact [of ts] assms(1) by simp
  have "representable \<bar>of_int ts\<bar>" using assms(1) by (intro representable_of_int) simp
  with one x ddiv_exact [of "of_integer ts" "of_integer 1"]
  have q: "dfinite (ddiv (of_integer ts) (of_integer 1)) \<and> dval (ddiv (of_integer ts) (of_integer 1)) = of_int ts"
    by simp
  have "representable \<bar>of_int (ts * 1000000)\<bar>" using assms(1) by (intro representable_of_int) simp
  with q mega dmul_exact [of "ddiv (of_integer ts) (of_integer 1)" "of_integer 1000000"]
  have "cast_long (dmul (ddiv (of_integer ts) (of_integer 1)) (of_integer 1000000)) = Inr (ts * 1000000)"
    using assms(1) by (intro cast_long_exact) auto
  then show ?thesis by (simp add: target_wall_def assms(2))
qed

definition sample_can_args :: can_args where
  "sample_can_args = default_can_args\<lparr>ca_summary_only := True\<rparr>"

definition sample_log :: "raw_frame list" where
  "sample_log = [engine_frame 20 2 0x91, engine_frame 5 0 0x90]"

definition sample_can_schedule :: "can_action list" where
  "sample_can_schedule = [Loop_Step, Clock_Advance 25000000, Loop_Step, Loop_Step, Loop_Step, Loop_Step, Loop_Step,
     Loop_Step, Loop_Step]"

definition sample_can_start :: can_world where
  "sample_can_start = can_start (sort_key rf_timestamp_ms) 0 sample_can_args (sample_db, sample_log)"

lemma sample_sorted: "sort_key rf_timestamp_ms sample_log = [engine_frame 5 0 0x90, engine_frame 20 2 0x91]"
  by (simp add: sample_log_def)

lemma sample_find: "db_find sample_db 0x180 = Some engine_data"
  by (simp add: db_find_def std_find_def sample_db_def)

lemma sample_arrive:
  assumes "cw_db w = sample_db" and "ca_summary_only (cw_args w)" and "onKnownFrame engine_data (engine_frame t c k) (cw_engine w) = Inr (as, e)"
  shows "arrive (engine_frame t c k) w = Inr (w\<lparr>cw_engine := e, cw_out := cw_out w @ concat (map frame_anomaly_line as)\<rparr>)"
proof -
  have "apply_frame engine_data (engine_frame t c k) (cw_state w) = Inr (cw_state w)"
    by (simp add: apply_frame_def engine_data_def findSignal_def sample_signal_def)
  with assms show ?thesis by (simp add: arrive_def sample_find)
qed

lemma sample_can_run:
  "\<exists>w. can_run sample_can_schedule sample_can_start = Inr w \<and> cw_pc w = Can_Done"
proof -
  have "\<forall>ev \<in> set [Frame (engine_frame 5 0 0x90), Frame (engine_frame 20 2 0x91)]. ev_ok ev"
    by (simp add: engine_frame_ok del: ev_ok.simps)
  from engine_run [OF sample_db_ok this new_engine_related]
  obtain as e where "diag_run sample_db [Frame (engine_frame 5 0 0x90), Frame (engine_frame 20 2 0x91)] new_engine = Inr (as, e)"
    by blast
  then obtain as1 e1 as2 e2 where 1: "onKnownFrame engine_data (engine_frame 5 0 0x90) new_engine = Inr (as1, e1)"
    and 2: "onKnownFrame engine_data (engine_frame 20 2 0x91) e1 = Inr (as2, e2)"
    by (auto simp: rbind_Inr_iff sample_find)
  show ?thesis
    by (simp add: sample_can_schedule_def sample_can_start_def can_start_def sample_can_args_def default_can_args_def
      can_step_def default_speed_target long_add_def long_check_def sample_sorted sample_arrive 1 2)
qed

theorem can_replay_report_witness:
  "\<exists>w lines evs as e. can_run sample_can_schedule sample_can_start = Inr w \<and>
     diag_run sample_db evs new_engine = Inr (as, e) \<and> all_frames evs = sort_key rf_timestamp_ms sample_log \<and>
     cw_out w = cw_out sample_can_start @ lines @ summary_text sample_db (stats_at e) 0 \<and>
     ms_frames_received (stats_at e 0x180) = 2 \<and> ms_counter_faults (stats_at e 0x180) = 1 \<and>
     ms_checksum_faults (stats_at e 0x180) = 1 \<and> lines = concat (map report as)"
proof -
  obtain w where w: "can_run sample_can_schedule sample_can_start = Inr w" "cw_pc w = Can_Done" using sample_can_run by blast
  have ok: "\<forall>f \<in> set sample_log. ev_ok (Frame f)" by (simp add: sample_log_def engine_frame_ok del: ev_ok.simps)
  have mem: "(0x180, engine_data) \<in> set sample_db" by (simp add: sample_db_def)
  have "filter (\<lambda>f. db_find sample_db (rf_can_id f) = None) sample_log = []" by (simp add: sample_log_def sample_find)
  moreover have "filter (\<lambda>f. rf_can_id f = 0x180) sample_log = sample_log" "length sample_log = 2"
    by (simp_all add: sample_log_def)
  moreover have "gaps (counters engine_data (filter (\<lambda>f. rf_can_id f = 0x180) (sort_key rf_timestamp_ms sample_log))) = 1"
    by (simp add: sample_sorted sample_counters)
  moreover have "length (filter (\<lambda>f. rf_can_id f = 0x180 \<and> \<not> checksum_fine engine_data f) sample_log) = 1"
    by (simp add: sample_log_def sample_checksums)
  moreover obtain lines evs as e where "diag_run sample_db evs new_engine = Inr (as, e)"
      "all_frames evs = sort_key rf_timestamp_ms sample_log"
      "cw_out w = cw_out sample_can_start @ lines @ summary_text sample_db (stats_at e)
         (of_nat (length (filter (\<lambda>f. db_find sample_db (rf_can_id f) = None) sample_log)))"
      "\<forall>(k, m) \<in> set sample_db.
        ms_frames_received (stats_at e k) = of_nat (length (filter (\<lambda>f. rf_can_id f = k) sample_log)) \<and>
        ms_counter_faults (stats_at e k) =
          of_nat (gaps (counters m (filter (\<lambda>f. rf_can_id f = k) (sort_key rf_timestamp_ms sample_log)))) \<and>
        ms_checksum_faults (stats_at e k) =
          of_nat (length (filter (\<lambda>f. rf_can_id f = k \<and> \<not> checksum_fine m f) sample_log))"
      "ca_summary_only sample_can_args \<longrightarrow> lines = concat (map report as)"
    using can_replay_report [OF sorts_by_sort_key sample_db_ok ok w(1) [unfolded sample_can_start_def] w(2), folded sample_can_start_def]
    by (elim exE conjE) (rule that)
  moreover have "ca_summary_only sample_can_args" by (simp add: sample_can_args_def)
  ultimately show ?thesis
    by (intro exI [of _ w] exI [of _ lines] exI [of _ evs] exI [of _ as] exI [of _ e]) (auto simp: w(1) sample_db_def)
qed

theorem can_frames_on_time_witness:
  "\<exists>w t. can_run (take 3 sample_can_schedule) sample_can_start = Inr w \<and> cw_pc w = Arrive \<and>
     target_wall w 5 = Inr t \<and> t \<le> cw_clock w"
proof -
  obtain w where w: "can_run (take 3 sample_can_schedule) sample_can_start = Inr w" "cw_pc w = Arrive"
      "cw_frames w = [engine_frame 5 0 0x90, engine_frame 20 2 0x91]"
    by (simp add: sample_can_schedule_def sample_can_start_def can_start_def sample_can_args_def default_can_args_def
      can_step_def default_speed_target long_add_def long_check_def sample_sorted)
  from can_frames_on_time [OF sorts_by_sort_key w(1) [unfolded sample_can_start_def]] w show ?thesis by auto
qed

end
