(* ===== verification/Cpp_Double_Bounds.thy ===== *)
theory Cpp_Double_Bounds
  imports Cpp_Double
begin

text \<open>
  Ranges of floating-point results without exactness: the result of a conversion, a product or a
  quotient of non-negative numbers of moderate size is finite, non-negative and at most about twice
  the exact value, and its conversion to an integer is defined.
\<close>

section \<open>Rounding\<close>

lemma round_frac_bound:
  assumes "den \<noteq> 0" and "(of_nat num :: rat) / of_nat den \<le> 2 ^ 100"
  shows "dfinite (round_frac s num den) \<and>
     (\<exists>v. dval (round_frac s num den) = sgn_of s * v \<and> 0 \<le> v \<and> v \<le> 2 * (of_nat num / of_nat den) + 1 \<and>
        (num = 0 \<longrightarrow> v = 0))"
proof (cases "num = 0")
  case True
  then show ?thesis by (auto simp: round_frac_def dzero_def sgn_of_def)
next
  case False
  define x where "x = (of_nat num :: rat) / of_nat den"
  have x: "x \<le> 2 ^ 100" "0 \<le> x" using assms(2) by (simp_all add: x_def)
  obtain m e where r: "round_frac s num den = (if 971 < e then Infinite s else Finite s m e)"
    and me: "2 ^ 52 \<le> m \<or> e = -1074" and err: "\<bar>of_nat m * 2 powi e - x\<bar> \<le> 2 powi e / 2"
    by (rule round_frac_spec [OF False assms(1), of s]) (auto simp: x_def)
  define P where "P = (2::rat) powi e"
  define A where "A = of_nat m * P"
  have P: "0 < P" by (simp add: P_def)
  have A: "A \<le> x + P / 2" "x \<le> A + P / 2" "0 \<le> A"
    using err P by (simp_all only: abs_le_iff flip: A_def P_def) (linarith, linarith, simp add: A_def)
  have bound: "A \<le> 2 * x + 1 \<and> \<not> 971 < e"
  proof (cases "e = -1074")
    case True
    have "P \<le> 2 powi 0" unfolding P_def powi_le_iff using True by simp
    then show ?thesis using A(1) x True by simp
  next
    case neq: False
    with me have "2 ^ 52 \<le> m" by simp
    then have "(of_nat (2 ^ 52) :: rat) \<le> of_nat m" by (simp only: of_nat_le_iff)
    then have big: "2 ^ 52 * P \<le> A" unfolding A_def using P by (intro mult_right_mono) simp_all
    then have "P \<le> A" using P by simp
    with A x have up: "A \<le> 2 * x + 1" by linarith
    have "\<not> 971 < e"
    proof
      assume "971 < e"
      then have "(2::rat) powi 102 \<le> P" unfolding P_def powi_le_iff by simp
      then have "(2::rat) ^ 102 \<le> P" by (simp add: power_int_def)
      with \<open>P \<le> A\<close> up x(1) show False by simp
    qed
    with up show ?thesis by simp
  qed
  then have "round_frac s num den = Finite s m e" "dval (Finite s m e) = sgn_of s * A"
    using r by (simp_all add: A_def P_def dval_Finite del: dval.simps)
  then show ?thesis using bound A(3) False unfolding x_def [symmetric] by (auto simp del: dval.simps)
qed

lemma round_dyadic_bound:
  assumes "of_nat m * (2::rat) powi e \<le> 2 ^ 100"
  shows "dfinite (round_dyadic s m e) \<and>
     (\<exists>v. dval (round_dyadic s m e) = sgn_of s * v \<and> 0 \<le> v \<and> v \<le> 2 * (of_nat m * 2 powi e) + 1 \<and> (m = 0 \<longrightarrow> v = 0))"
proof -
  have "(of_nat (m * 2 ^ nat e) :: rat) / of_nat (2 ^ nat (- e)) = of_nat m * 2 powi e"
    by (simp add: powi_split)
  with assms round_frac_bound [of "2 ^ nat (- e)" "m * 2 ^ nat e" s] show ?thesis
    unfolding round_dyadic_def by (simp only:) simp
qed

section \<open>Operations on non-negative numbers\<close>

definition dnonneg :: "double \<Rightarrow> rat \<Rightarrow> bool" where
  "dnonneg x b \<longleftrightarrow> dfinite x \<and> 0 \<le> dval x \<and> dval x \<le> b"

lemma of_integer_nonneg: "0 \<le> i \<Longrightarrow> i < 2 ^ 64 \<Longrightarrow> dnonneg (of_integer i) (2 * of_int i + 1)"
proof -
  assume i: "0 \<le> i" "i < 2 ^ 64"
  have "(of_int i :: rat) < of_int (2 ^ 64)" using i(2) by (simp only: of_int_less_iff)
  then have "of_nat (nat \<bar>i\<bar>) * (2::rat) powi 0 \<le> 2 ^ 100" using i(1) by simp
  from round_dyadic_bound [OF this, of "i < 0"] i show ?thesis
    by (auto simp: of_integer_def dnonneg_def sgn_of_def)
qed

text \<open>The sign of a result that is rounded away from a non-negative exact value.\<close>

lemma signed_bound:
  assumes "dfinite z \<and> (\<exists>v. dval z = sgn_of s * v \<and> 0 \<le> v \<and> v \<le> 2 * y + 1 \<and> (y = 0 \<longrightarrow> v = 0))"
    and "0 \<le> y" and "0 \<le> sgn_of s * y" and "sgn_of s * y \<le> c"
  shows "dnonneg z (2 * c + 1)"
proof (cases s)
  case True
  with assms show ?thesis by (auto simp: dnonneg_def sgn_of_def)
next
  case False
  with assms show ?thesis by (auto simp: dnonneg_def sgn_of_def)
qed

lemma dmul_nonneg:
  assumes "dnonneg a p" and "dnonneg b q" and "p * q \<le> 2 ^ 100"
  shows "dnonneg (dmul a b) (2 * (p * q) + 1)"
proof -
  obtain s1 m1 e1 s2 m2 e2 where ab: "a = Finite s1 m1 e1" "b = Finite s2 m2 e2"
    using assms(1,2) by (cases a; cases b) (auto simp: dnonneg_def)
  define y where "y = of_nat (m1 * m2) * (2::rat) powi (e1 + e2)"
  have prod: "dval a * dval b = sgn_of (s1 \<noteq> s2) * y"
    by (auto simp: ab sgn_of_def y_def simp flip: powi_add)
  have le: "0 \<le> dval a * dval b" "dval a * dval b \<le> p * q"
    using assms(1,2) by (auto simp: dnonneg_def intro: mult_mono order_trans)
  have y: "0 \<le> y" "y = 0 \<longleftrightarrow> m1 * m2 = 0" by (auto simp: y_def)
  have "y \<le> 2 ^ 100" using le y(1) assms(3) unfolding prod by (auto simp: sgn_of_def split: if_splits)
  from round_dyadic_bound [of "m1 * m2" "e1 + e2" "s1 \<noteq> s2", folded y_def, OF this]
  have "dfinite (dmul a b) \<and> (\<exists>v. dval (dmul a b) = sgn_of (s1 \<noteq> s2) * v \<and> 0 \<le> v \<and> v \<le> 2 * y + 1 \<and> (y = 0 \<longrightarrow> v = 0))"
    unfolding ab dmul.simps y(2) .
  from signed_bound [OF this y(1)] le show ?thesis unfolding prod by blast
qed

lemma ddiv_nonneg:
  assumes "dnonneg a p" and "dfinite b" and "q \<le> dval b" and "0 < q" and "p / q \<le> 2 ^ 100"
  shows "dnonneg (ddiv a b) (2 * (p / q) + 1)"
proof -
  obtain s1 m1 e1 s2 m2 e2 where ab: "a = Finite s1 m1 e1" "b = Finite s2 m2 e2"
    using assms(1,2) by (cases a; cases b) (auto simp: dnonneg_def)
  have m2: "m2 \<noteq> 0" using assms(3,4) by (cases "m2 = 0") (simp_all add: ab)
  define num where "num = m1 * 2 ^ nat (e1 - e2)"
  define den where "den = m2 * 2 ^ nat (e2 - e1)"
  define y where "y = (of_nat num :: rat) / of_nat den"
  have "(2::rat) powi e1 / 2 powi e2 = 2 ^ nat (e1 - e2) / 2 ^ nat (e2 - e1)"
    unfolding powi_divide using powi_split [of "e1 - e2"] by simp
  then have "y = of_nat m1 * 2 powi e1 / (of_nat m2 * 2 powi e2)"
    unfolding y_def num_def den_def by (simp add: times_divide_times_eq [symmetric] del: times_divide_eq_right times_divide_eq_left)
  then have quot: "dval a / dval b = sgn_of (s1 \<noteq> s2) * y"
    by (auto simp: ab sgn_of_def)
  have pq: "0 \<le> dval a" "dval a \<le> p" "0 < dval b" using assms by (auto simp: dnonneg_def)
  then have le: "0 \<le> dval a / dval b" "dval a / dval b \<le> p / q"
    using assms(3,4) by (auto intro!: frac_le)
  have y: "0 \<le> y" "y = 0 \<longleftrightarrow> num = 0" "den \<noteq> 0" using m2 by (auto simp: y_def den_def)
  have "y \<le> 2 ^ 100" using le y(1) assms(5) unfolding quot by (auto simp: sgn_of_def split: if_splits)
  from round_frac_bound [of den num "s1 \<noteq> s2", folded y_def, OF y(3) this]
  have "dfinite (ddiv a b) \<and> (\<exists>v. dval (ddiv a b) = sgn_of (s1 \<noteq> s2) * v \<and> 0 \<le> v \<and> v \<le> 2 * y + 1 \<and> (y = 0 \<longrightarrow> v = 0))"
    using m2 unfolding ab ddiv.simps y(2) num_def den_def by simp
  from signed_bound [OF this y(1)] le show ?thesis unfolding quot by blast
qed

lemma cast_long_nonneg:
  assumes "dnonneg x b" and "b < of_int n" and "n \<le> 2 ^ 63"
  obtains i where "cast_long x = Inr i" and "0 \<le> i" and "i < n"
proof -
  obtain s m e where x: "x = Finite s m e" using assms(1) by (cases x) (auto simp: dnonneg_def)
  define k where "k = (if 0 \<le> e then m * 2 ^ nat e else m div 2 ^ nat (- e))"
  define i where "i = (if s then - int k else int k)"
  have k: "(of_nat k :: rat) \<le> of_nat m * 2 powi e"
  proof (cases "0 \<le> e")
    case True
    then show ?thesis by (simp add: k_def power_int_def)
  next
    case False
    have "(of_nat (m div 2 ^ nat (- e)) :: rat) \<le> of_nat m / of_nat (2 ^ nat (- e))"
      by (rule of_nat_div_le_of_nat)
    with False show ?thesis by (simp add: k_def power_int_def field_simps)
  qed
  have v: "0 \<le> dval x" "dval x < of_int n" using assms(1,2) by (auto simp: dnonneg_def)
  have "k = 0" if s
  proof -
    have "of_nat m * (2::rat) powi e \<le> 0" using v(1) that by (simp add: x)
    with k have "(of_nat k :: rat) \<le> 0" by linarith
    then show ?thesis by simp
  qed
  moreover have "int k < n" if "\<not> s"
  proof -
    have "(of_int (int k) :: rat) < of_int n" using v(2) k that by (simp add: x)
    then show ?thesis by (simp only: of_int_less_iff)
  qed
  moreover have "0 < n"
  proof -
    have "(of_int 0 :: rat) < of_int n" using v by simp
    then show ?thesis by (simp only: of_int_less_iff)
  qed
  ultimately have i: "0 \<le> i" "i < n" by (auto simp: i_def)
  have "dtrunc x = Some i" by (simp add: x i_def Let_def flip: k_def)
  then have "cast_long x = Inr i" using i assms(3) by (simp add: cast_long_def)
  then show ?thesis using i by (rule that)
qed

section \<open>Replay speeds\<close>

text \<open>The speeds for which the scaled times of both replay programs stay in range.\<close>

definition speed_ok :: "double \<Rightarrow> bool" where
  "speed_ok x \<longleftrightarrow> dfinite x \<and> 1 / 100 \<le> dval x \<and> dval x \<le> 100"

lemma int_bound: "i < n \<Longrightarrow> (of_int i :: rat) < of_int n"
  by (simp only: of_int_less_iff)

end
