(* ===== verification/Can_Main_Live.thy ===== *)
theory Can_Main_Live
  imports Can_Main Cpp_Double_Bounds
begin

text \<open>
  That the replay loop of the CAN decoder, \<open>task3_can_decoder/src/main.cpp\<close>, computes nothing undefined
  and comes to its end: every step is defined in a sane range of times and speeds, and once the clock
  has reached the time of the last frame a few steps per frame remain.
\<close>

section \<open>Defined times\<close>

lemma mega: "dfinite (of_integer 1000000)" "dval (of_integer 1000000) = 1000000"
  using of_integer_exact [of 1000000] by simp_all

lemma log_time_defined:
  assumes "speed_ok x" and "0 \<le> t" and "t < 2 ^ 60"
  obtains ms where "cast_long (dmul (ddiv (of_integer t) (of_integer 1000000)) x) = Inr ms" and "time_ok ms"
proof -
  have t: "(of_int t :: rat) < 2 ^ 60" "0 \<le> (of_int t :: rat)" using int_bound [OF assms(3)] assms(2) by simp_all
  have "dnonneg (of_integer t) (2 * of_int t + 1)" by (rule of_integer_nonneg) (use assms in simp_all)
  from ddiv_nonneg [OF this mega(1), of 1000000] t
  have "dnonneg (ddiv (of_integer t) (of_integer 1000000)) (2 * ((2 * of_int t + 1) / 1000000) + 1)"
    by (simp add: mega(2))
  moreover have "dnonneg x 100" using assms(1) by (auto simp: speed_ok_def dnonneg_def)
  ultimately have "dnonneg (dmul (ddiv (of_integer t) (of_integer 1000000)) x)
      (2 * ((2 * ((2 * of_int t + 1) / 1000000) + 1) * 100) + 1)"
    by (rule dmul_nonneg) (use t in simp)
  then show ?thesis
    by (rule cast_long_nonneg [where n = "2 ^ 52"]) (use t in \<open>auto simp: time_ok_def intro: that\<close>)
qed

lemma target_defined:
  assumes "speed_ok (ca_speed (cw_args w))" and "0 \<le> ts" and "ts < 2 ^ 32" and "0 \<le> cw_wallStart w" and "cw_wallStart w < 2 ^ 60"
  obtains t where "target_wall w ts = Inr t"
proof -
  let ?x = "ca_speed (cw_args w)"
  have t: "(of_int ts :: rat) < 2 ^ 32" "0 \<le> (of_int ts :: rat)" using int_bound [OF assms(3)] assms(2) by simp_all
  have x: "dfinite ?x" "1 / 100 \<le> dval ?x" using assms(1) by (auto simp: speed_ok_def)
  have "dnonneg (of_integer ts) (2 * of_int ts + 1)" by (rule of_integer_nonneg) (use assms(2,3) in simp_all)
  from ddiv_nonneg [OF this x] t
  have "dnonneg (ddiv (of_integer ts) ?x) (2 * ((2 * of_int ts + 1) * 100) + 1)" by simp
  moreover have "dnonneg (of_integer 1000000) 1000000" using mega by (simp add: dnonneg_def)
  ultimately have "dnonneg (dmul (ddiv (of_integer ts) ?x) (of_integer 1000000))
      (2 * ((2 * ((2 * of_int ts + 1) * 100) + 1) * 1000000) + 1)"
    by (rule dmul_nonneg) (use t in simp)
  then obtain d where "cast_long (dmul (ddiv (of_integer ts) ?x) (of_integer 1000000)) = Inr d" "0 \<le> d" "d < 2 ^ 62"
    by (rule cast_long_nonneg [where n = "2 ^ 62"]) (use t in simp_all)
  then show ?thesis using assms(4,5) that by (auto simp: target_wall_def long_add_def long_check_def)
qed

section \<open>Every step is defined\<close>

text \<open>Engine speeds that fit \<open>int\<close>, the type the status line converts them to.\<close>

definition rpm_fits :: "dbc_database \<Rightarrow> raw_frame list \<Rightarrow> bool" where
  "rpm_fits db fs \<longleftrightarrow> (\<forall>f \<in> set fs. \<forall>m x. db_find db (rf_can_id f) = Some m \<longrightarrow> md_name m = ''EngineData'' \<longrightarrow>
     physical_field m f ''rpm'' None = Some x \<longrightarrow> (\<exists>i. cast_int x = Inr i))"

definition input_ok :: "dbc_database \<Rightarrow> raw_frame list \<Rightarrow> can_args \<Rightarrow> bool" where
  "input_ok db fs a \<longleftrightarrow> db_ok db \<and> (\<forall>(k, m) \<in> set db. signals_ok m) \<and>
     (\<forall>f \<in> set fs. payload_ok (rf_data f) \<and> 0 \<le> rf_timestamp_ms f \<and> rf_timestamp_ms f < 2 ^ 32) \<and>
     speed_ok (ca_speed a) \<and> (ca_summary_only a \<or> rpm_fits db fs)"

definition can_sane :: "can_world \<Rightarrow> bool" where
  "can_sane w \<longleftrightarrow> input_ok (cw_db w) (cw_frames w) (cw_args w) \<and> (\<exists>mo. all_related (cw_db w) (cw_engine w) mo) \<and>
     (ca_summary_only (cw_args w) \<or> (\<forall>x. cv_rpm (cw_state w) = Some x \<longrightarrow> (\<exists>i. cast_int x = Inr i))) \<and>
     -1000 \<le> cw_lastPrintedMs w \<and> cw_lastPrintedMs w < 2 ^ 52 \<and> 0 \<le> cw_wallStart w \<and> cw_wallStart w \<le> cw_clock w"

lemma related_step:
  assumes "db_ok db" and "ev_ok ev" and "all_related db e mo"
  shows "\<exists>as e' mo'. diag_step db ev e = Inr (as, e') \<and> all_related db e' mo'"
proof -
  define mo' where "mo' k = snd (mon_step (the (db_find db k)) k ev (mo k))" for k
  have find: "the (db_find db k) = m" if "(k, m) \<in> set db" for k m
    using that db_okD(4) [OF assms(1)] by (metis option.sel)
  obtain as e' where s: "diag_step db ev e = Inr (as, e')"
    "\<forall>(k, m) \<in> set db. mon_rel e' k (snd (mon_step m k ev (mo k)))"
    using engine_step [OF assms] by blast
  have "mon_ok (mo' k)" if "(k, m) \<in> set db" for k m
    using that assms(3) db_okD(3) [OF assms(1)] mon_ok_step [OF _ assms(2)]
    by (auto simp: mo'_def all_related_def find)
  with s(2) have "all_related db e' mo'" by (auto simp: all_related_def mo'_def find)
  with s(1) show ?thesis by blast
qed

lemma query_defined:
  assumes "db_ok db" and "all_related db e mo" and "time_ok now"
  shows "\<exists>b. isCurrentlyTimedOut db k now e = Inr b"
proof (cases "db_find db k")
  case None
  then show ?thesis by (auto simp: isCurrentlyTimedOut_def)
next
  case (Some m)
  then have "(k, m) \<in> set db" using db_okD(4) [OF assms(1)] by blast
  then have "mon_rel e k (mo k)" "mon_ok (mo k)" using assms(2) by (auto simp: all_related_def)
  from query_exact [OF assms(1) Some this assms(3)] show ?thesis by blast
qed

lemma first_timed_out_defined:
  assumes "db_ok db" and "all_related db e mo" and "time_ok now"
  shows "\<exists>r. first_timed_out db ms now e = Inr r"
proof (induction ms)
  case (Cons x ms)
  obtain k m where x: "x = (k, m)" by (cases x)
  obtain b where "isCurrentlyTimedOut db k now e = Inr b" using query_defined [OF assms] by blast
  with Cons show ?case by (auto simp: x)
qed simp

lemma status_defined:
  assumes "\<forall>x. cv_rpm st = Some x \<longrightarrow> (\<exists>i. cast_int x = Inr i)"
  shows "\<exists>line. printStatusLine t st healthy reason = Inr line"
  using assms by (cases "cv_rpm st") (auto simp: printStatusLine_def)

lemma poll_defined:
  assumes "can_sane w" and "cw_clock w < 2 ^ 60"
  shows "\<exists>w'. poll_timeouts t w = Inr w' \<and> can_sane w'"
proof -
  note sane = assms(1) [unfolded can_sane_def input_ok_def]
  obtain mo where mo: "all_related (cw_db w) (cw_engine w) mo" using sane by blast
  have db: "db_ok (cw_db w)" using sane by simp
  have "0 \<le> cw_clock w - cw_wallStart w" "cw_clock w - cw_wallStart w < 2 ^ 60" using sane assms(2) by simp_all
  then obtain ms where ms: "logMsNow w = Inr ms" "time_ok ms"
    using log_time_defined [of "ca_speed (cw_args w)" "cw_clock w - cw_wallStart w"] sane
    unfolding logMsNow_def by blast
  obtain as e mo' where e: "checkTimeouts ms (cw_db w) (cw_engine w) = Inr (as, e)" "all_related (cw_db w) e mo'"
    using related_step [OF db _ mo, of "Poll ms"] ms(2) by auto
  have last: "-1000 \<le> ms" "ms < 2 ^ 52" using ms(2) by (simp_all add: time_ok_def)
  show ?thesis
  proof (cases "ca_summary_only (cw_args w) \<or> ms - cw_lastPrintedMs w < 100")
    case True
    have "long_sub ms (cw_lastPrintedMs w) = Inr (ms - cw_lastPrintedMs w)"
      using sane last by (auto simp: long_sub_def long_check_def)
    with True ms(1) e sane show ?thesis
      by (auto simp: poll_timeouts_def Let_def can_sane_def input_ok_def)
  next
    case False
    have sub: "long_sub ms (cw_lastPrintedMs w) = Inr (ms - cw_lastPrintedMs w)"
      using sane last by (auto simp: long_sub_def long_check_def)
    obtain r where r: "first_timed_out (cw_db w) (cw_db w) ms e = Inr r"
      using first_timed_out_defined [OF db e(2) ms(2)] by blast
    have "\<exists>line. printStatusLine ms (cw_state w) healthy reason = Inr line" for healthy reason
      using sane False by (intro status_defined) simp
    then obtain line where line: "printStatusLine ms (cw_state w) (r = None)
        (case r of None \<Rightarrow> '''' | Some msg \<Rightarrow> md_name msg @ '' missing'') = Inr line" by blast
    have "poll_timeouts t w = Inr (w\<lparr>cw_engine := e, cw_out := cw_out w @ concat (map timeout_line as) @ line,
        cw_pc := Wait_Test t, cw_lastPrintedMs := ms\<rparr>)"
      using False by (simp add: poll_timeouts_def ms(1) e(1) Let_def sub r line)
    then show ?thesis using sane last e(2) by (auto simp: can_sane_def input_ok_def)
  qed
qed


lemma sane_frames:
  assumes "can_sane w" and "cw_frames w = f # fs"
  shows "payload_ok (rf_data f)" "time_ok (rf_timestamp_ms f)" "0 \<le> rf_timestamp_ms f" "rf_timestamp_ms f < 2 ^ 32"
    and "input_ok (cw_db w) fs (cw_args w)"
  using assms by (auto simp: can_sane_def input_ok_def time_ok_def rpm_fits_def)

lemma applied_rpm:
  assumes "db_find db (rf_can_id f) = Some m" and "rpm_fits db (f # fs)"
    and "\<forall>x. cv_rpm st = Some x \<longrightarrow> (\<exists>i. cast_int x = Inr i)"
  shows "\<forall>x. cv_rpm (owned_update m f st) = Some x \<longrightarrow> (\<exists>i. cast_int x = Inr i)"
  using assms unfolding owned_update_def rpm_fits_def
  by (subst physical_field_split) (auto split: option.splits)

lemma arrive_defined:
  assumes "can_sane w" and "cw_frames w = f # fs"
  shows "\<exists>w1. arrive f w = Inr w1 \<and> can_sane (w1\<lparr>cw_frames := fs, cw_pc := Next_Frame\<rparr>)"
proof -
  note sane = assms(1) [unfolded can_sane_def]
  note f = sane_frames [OF assms]
  obtain mo where mo: "all_related (cw_db w) (cw_engine w) mo" using sane by blast
  have db: "db_ok (cw_db w)" using sane by (simp add: input_ok_def)
  have "ev_ok (Frame f)" using f(1,2) by simp
  then obtain as e mo' where e: "diag_step (cw_db w) (Frame f) (cw_engine w) = Inr (as, e)" "all_related (cw_db w) e mo'"
    using related_step [OF db _ mo] by blast
  have last: "-1000 \<le> rf_timestamp_ms f" "rf_timestamp_ms f < 2 ^ 52" using f(3,4) by simp_all
  show ?thesis
  proof (cases "db_find (cw_db w) (rf_can_id f)")
    case None
    with e(1) have "arrive f w = Inr (w\<lparr>cw_engine := e, cw_out := cw_out w @ unknown_line (fst (onUnknownFrame f (cw_engine w)))\<rparr>)"
      by (auto simp: arrive_def case_prod_unfold Let_def)
    then show ?thesis using sane f(5) e(2) by (auto simp: can_sane_def)
  next
    case (Some m)
    then have "(rf_can_id f, m) \<in> set (cw_db w)" using db_okD(4) [OF db] by blast
    then have "signals_ok m" using sane by (auto simp: input_ok_def)
    then have st: "apply_frame m f (cw_state w) = Inr (owned_update m f (cw_state w))" using f(1) by (rule apply_frame_eq)
    have k: "onKnownFrame m f (cw_engine w) = Inr (as, e)" using e(1) Some by simp
    define w1 where "w1 = w\<lparr>cw_engine := e, cw_state := owned_update m f (cw_state w),
        cw_out := cw_out w @ concat (map frame_anomaly_line as)\<rparr>"
    have rpm: "ca_summary_only (cw_args w) \<or>
        (\<forall>x. cv_rpm (owned_update m f (cw_state w)) = Some x \<longrightarrow> (\<exists>i. cast_int x = Inr i))"
      using sane applied_rpm [OF Some, of fs "cw_state w"] by (auto simp: input_ok_def assms(2))
    show ?thesis
    proof (cases "ca_summary_only (cw_args w)")
      case True
      then have "arrive f w = Inr w1" by (simp add: arrive_def Some k st w1_def)
      then show ?thesis using sane f(5) e(2) True by (auto simp: can_sane_def w1_def)
    next
      case False
      obtain late where late: "isCurrentlyTimedOut (cw_db w) (rf_can_id f) (rf_timestamp_ms f) e = Inr late"
        using query_defined [OF db e(2) f(2)] by blast
      obtain line where line: "printStatusLine (rf_timestamp_ms f) (owned_update m f (cw_state w)) (\<not> late)
          (if late then md_name m @ '' missing'' else '''') = Inr line"
        using rpm False status_defined by blast
      have "arrive f w = Inr (w1\<lparr>cw_out := cw_out w1 @ line, cw_lastPrintedMs := rf_timestamp_ms f\<rparr>)"
        using False by (simp add: arrive_def Some k st Let_def late line w1_def)
      then show ?thesis using sane f(5) e(2) rpm False last by (auto simp: can_sane_def w1_def)
    qed
  qed
qed

lemma step_defined:
  assumes "can_sane w" and "pc_inv w" and "cw_clock w < 2 ^ 60"
  shows "\<exists>w'. can_step w = Inr w' \<and> can_sane w'"
proof (cases "cw_pc w")
  case Next_Frame
  show ?thesis
  proof (cases "cw_frames w")
    case Nil
    then show ?thesis using Next_Frame assms(1) by (simp add: can_step_def can_sane_def)
  next
    case (Cons f fs)
    have "0 \<le> cw_wallStart w" "cw_wallStart w < 2 ^ 60" "speed_ok (ca_speed (cw_args w))"
      using assms(1,3) by (simp_all add: can_sane_def input_ok_def)
    then obtain t where "target_wall w (rf_timestamp_ms f) = Inr t"
      using target_defined sane_frames(3,4) [OF assms(1) Cons] by blast
    then show ?thesis using Next_Frame assms(1) Cons by (simp add: can_step_def can_sane_def)
  qed
next
  case (Poll_Timeouts t)
  then show ?thesis using poll_defined [OF assms(1,3)] by (simp add: can_step_def)
next
  case Arrive
  with assms(2) obtain f fs where f: "cw_frames w = f # fs" by (auto simp: pc_inv_def on_target_def neq_Nil_conv)
  from arrive_defined [OF assms(1) f] show ?thesis by (auto simp: can_step_def Arrive f)
qed (use assms(1) in \<open>auto simp: can_step_def can_sane_def Let_def\<close>)


section \<open>The loop ends\<close>

fun advances :: "can_action list \<Rightarrow> int" where
  "advances [] = 0"
| "advances (Clock_Advance d # acts) = int d + advances acts"
| "advances (Loop_Step # acts) = advances acts"

lemma advances_append: "advances (xs @ ys) = advances xs + advances ys"
  by (induction xs rule: advances.induct) simp_all

lemma advances_nonneg: "0 \<le> advances acts"
  by (induction acts rule: advances.induct) simp_all

lemma can_run_append: "can_run (xs @ ys) w = rbind (can_run xs w) (can_run ys)"
  by (induction xs arbitrary: w) (auto simp: rbind_def split: sum.splits)

text \<open>A sleep ends no later than the target of the frame, or at once.\<close>

definition sleep_inv :: "can_world \<Rightarrow> bool" where
  "sleep_inv w = (case cw_pc w of Sleeping s t \<Rightarrow> s \<le> max t (cw_clock w) | _ \<Rightarrow> True)"

lemma trunc_div_le: "0 < b \<Longrightarrow> trunc_div a b * b \<le> max 0 a"
proof (cases "0 \<le> a")
  case True
  assume "0 < b"
  moreover from this have "a div b * b \<le> a" using div_mult_mod_eq [of a b] pos_mod_sign [of b a] by linarith
  ultimately show ?thesis using True by (simp add: trunc_div_nonneg)
next
  case False
  assume b: "0 < b"
  then have "0 \<le> \<bar>a\<bar> div \<bar>b\<bar>" by (simp add: pos_imp_zdiv_nonneg_iff)
  then have "trunc_div a b \<le> 0" using False b by (simp add: trunc_div_def)
  then show ?thesis using b False by (simp add: mult_nonpos_nonneg)
qed

lemma arrive_clock: "arrive f w = Inr w' \<Longrightarrow> cw_clock w' = cw_clock w"
  by (auto simp: arrive_def rbind_Inr_iff Let_def onUnknownFrame_def split: option.splits if_splits)

lemma can_step_clock: "can_step w = Inr w' \<Longrightarrow> cw_clock w' = cw_clock w"
  using poll_timeouts_effect
  by (auto simp: can_step_def rbind_Inr_iff Let_def dest: arrive_clock split: can_pc.splits list.splits if_splits; blast)

lemma sleep_inv_step:
  assumes "can_step w = Inr w'" and "sleep_inv w"
  shows "sleep_inv w'"
proof (cases "cw_pc w")
  case (Sleep_Calc t)
  have "min pollInterval (trunc_div (t - cw_clock w) 1000000) * 1000000 \<le> trunc_div (t - cw_clock w) 1000000 * 1000000"
    by simp
  also have "\<dots> \<le> max 0 (t - cw_clock w)" by (rule trunc_div_le) simp
  finally show ?thesis using assms(1) by (auto simp: can_step_def Sleep_Calc sleep_inv_def Let_def)
next
  case (Poll_Timeouts t)
  then have "cw_pc w' = Wait_Test t" using assms(1) poll_timeouts_effect [of t w w'] by (auto simp: can_step_def)
  then show ?thesis by (simp add: sleep_inv_def)
qed (use assms in \<open>auto simp: can_step_def sleep_inv_def rbind_Inr_iff split: list.splits if_splits\<close>)

text \<open>Once every remaining frame is due, each step of the loop comes closer to the end.\<close>

definition all_due :: "can_world \<Rightarrow> bool" where
  "all_due w \<longleftrightarrow> (\<forall>f \<in> set (cw_frames w). \<exists>t. target_wall w (rf_timestamp_ms f) = Inr t \<and> t \<le> cw_clock w)"

fun pc_steps :: "can_pc \<Rightarrow> nat" where
  "pc_steps Next_Frame = 2"
| "pc_steps (Wait_Test _) = 1"
| "pc_steps (Sleep_Calc _) = 4"
| "pc_steps (Sleeping _ _) = 3"
| "pc_steps (Poll_Timeouts _) = 2"
| "pc_steps Arrive = 0"
| "pc_steps Summary = 1"
| "pc_steps Can_Done = 0"

definition steps_left :: "can_world \<Rightarrow> nat" where
  "steps_left w = 3 * length (cw_frames w) + pc_steps (cw_pc w)"

lemma steps_left_0: "pc_inv w \<Longrightarrow> steps_left w = 0 \<Longrightarrow> cw_pc w = Can_Done"
  by (cases "cw_pc w") (auto simp: steps_left_def pc_inv_def on_target_def)

lemma steps_left_less:
  assumes "can_step w = Inr w'" and "pc_inv w" and "sleep_inv w" and "all_due w" and "cw_pc w \<noteq> Can_Done"
  shows "steps_left w' < steps_left w"
proof (cases "cw_pc w")
  case (Wait_Test t)
  then have "t \<le> cw_clock w" using assms(2,4) by (cases "cw_frames w") (auto simp: pc_inv_def on_target_def all_due_def)
  then show ?thesis using assms(1,2) by (auto simp: can_step_def Wait_Test steps_left_def pc_inv_def on_target_def)
next
  case (Sleeping s t)
  then have "s \<le> cw_clock w" using assms(2-4)
    by (cases "cw_frames w") (auto simp: pc_inv_def on_target_def all_due_def sleep_inv_def)
  then show ?thesis using assms(1) by (auto simp: can_step_def Sleeping steps_left_def)
next
  case (Poll_Timeouts t)
  then show ?thesis using assms(1) poll_timeouts_effect [of t w w'] by (auto simp: can_step_def steps_left_def)
qed (use assms(1,2,5) in \<open>auto simp: can_step_def rbind_Inr_iff steps_left_def Let_def pc_inv_def on_target_def split: list.splits\<close>)


definition live :: "can_world \<Rightarrow> can_world \<Rightarrow> bool" where
  "live w0 w \<longleftrightarrow> can_sane w \<and> can_inv w0 w \<and> sleep_inv w"

lemma target_wall_cong: "same_setting w w' \<Longrightarrow> target_wall w' t = target_wall w t"
  by (simp add: target_wall_def same_setting_def)

lemma live_act:
  assumes "live w0 w" and "cw_clock w + advances [a] < 2 ^ 60"
  obtains w' where "can_act a w = Inr w'" and "live w0 w'" and "cw_clock w' = cw_clock w + advances [a]"
proof (cases a)
  case (Clock_Advance d)
  let ?w' = "w\<lparr>cw_clock := cw_clock w + int d\<rparr>"
  have "can_act a w = Inr ?w'" by (simp add: Clock_Advance)
  moreover from this have "live w0 ?w'"
    using assms(1) can_inv_act by (fastforce simp: live_def can_sane_def sleep_inv_def split: can_pc.splits)
  ultimately show ?thesis using that by (simp add: Clock_Advance)
next
  case Loop_Step
  have "pc_inv w" using assms(1) by (auto simp: live_def can_inv_def)
  then obtain w' where w': "can_step w = Inr w'" "can_sane w'"
    using step_defined [of w] assms by (auto simp: live_def Loop_Step)
  then have "live w0 w'" using assms(1) can_inv_act [of Loop_Step w w'] sleep_inv_step by (simp add: live_def)
  with w' can_step_clock show ?thesis using that by (simp add: Loop_Step)
qed

lemma live_run:
  assumes "live w0 w" and "cw_clock w + advances acts < 2 ^ 60"
  obtains w' where "can_run acts w = Inr w'" and "live w0 w'" and "cw_clock w' = cw_clock w + advances acts"
  using assms
proof (induction acts arbitrary: w thesis)
  case (Cons a acts)
  have adv: "advances (a # acts) = advances [a] + advances acts" by (cases a) simp_all
  with Cons.prems(3) advances_nonneg [of acts] have "cw_clock w + advances [a] < 2 ^ 60" by linarith
  with Cons.prems(2) obtain w1 where 1: "can_act a w = Inr w1" "live w0 w1" "cw_clock w1 = cw_clock w + advances [a]"
    by (rule live_act)
  with adv Cons.prems(3) obtain w' where "can_run acts w1 = Inr w'" "live w0 w'" "cw_clock w' = cw_clock w1 + advances acts"
    using Cons.IH [OF _ 1(2)] by (metis add.assoc)
  with 1 adv show ?case by (intro Cons.prems(1) [of w']) simp_all
qed simp

text \<open>The frames left, and what is due, along a run.\<close>

lemma live_frames:
  assumes "live w0 w"
  shows "set (cw_frames w) \<subseteq> set (cw_frames w0)" and "same_setting w0 w" and "pc_inv w"
  using assms by (auto simp: live_def can_inv_def replayed_def) (metis Un_iff set_append)

lemma all_due_at:
  assumes "live w0 w" and "\<forall>f \<in> set (cw_frames w0). \<exists>t. target_wall w0 (rf_timestamp_ms f) = Inr t \<and> t \<le> cw_clock w"
  shows "all_due w"
  using assms(2) live_frames [OF assms(1)] by (auto simp: all_due_def target_wall_cong)

abbreviation loop_steps :: "can_action list \<Rightarrow> nat" where
  "loop_steps acts \<equiv> length (filter (\<lambda>a. a = Loop_Step) acts)"

lemma run_ends:
  assumes "live w0 w" and "\<forall>f \<in> set (cw_frames w0). \<exists>t. target_wall w0 (rf_timestamp_ms f) = Inr t \<and> t \<le> cw_clock w"
    and "cw_clock w + advances acts < 2 ^ 60" and "steps_left w \<le> loop_steps acts" and "can_run acts w = Inr w'"
  shows "cw_pc w' = Can_Done"
  using assms
proof (induction acts arbitrary: w)
  case Nil
  then show ?case using steps_left_0 [of w] live_frames(3) [of w0 w] by simp
next
  case (Cons a acts)
  have adv: "advances (a # acts) = advances [a] + advances acts" by (cases a) simp_all
  with Cons.prems(3) advances_nonneg [of acts] have "cw_clock w + advances [a] < 2 ^ 60" by linarith
  then obtain w1 where 1: "can_act a w = Inr w1" "live w0 w1" "cw_clock w1 = cw_clock w + advances [a]"
    using live_act [OF Cons.prems(1)] by metis
  have later: "cw_clock w \<le> cw_clock w1" using 1(3) advances_nonneg [of "[a]"] by simp
  have "steps_left w1 \<le> loop_steps acts"
  proof (cases a)
    case (Clock_Advance d)
    then show ?thesis using 1(1) Cons.prems(4) by (auto simp: steps_left_def)
  next
    case Loop_Step
    have w: "pc_inv w" "sleep_inv w" "all_due w" "can_step w = Inr w1"
      using Cons.prems(1) 1(1) all_due_at [OF Cons.prems(1,2)] by (auto simp: live_def Loop_Step can_inv_def)
    show ?thesis
    proof (cases "cw_pc w = Can_Done")
      case True
      then have "w1 = w" "cw_frames w = []" using w(1,4) by (auto simp: can_step_def pc_inv_def)
      then show ?thesis using True by (simp add: steps_left_def)
    next
      case False
      from steps_left_less [OF w(4,1-3) False] Cons.prems(4) show ?thesis by (simp add: Loop_Step)
    qed
  qed
  moreover have "\<forall>f \<in> set (cw_frames w0). \<exists>t. target_wall w0 (rf_timestamp_ms f) = Inr t \<and> t \<le> cw_clock w1"
    using Cons.prems(2) later by (meson order_trans)
  ultimately show ?case using Cons.IH [OF 1(2)] Cons.prems(3,5) 1(1,3) adv by simp
qed

lemma steps_left_bound: "live w0 w \<Longrightarrow> steps_left w \<le> 3 * length (cw_frames w0) + 4"
proof -
  assume "live w0 w"
  then obtain evs where "all_frames evs @ cw_frames w = cw_frames w0" by (auto simp: live_def can_inv_def replayed_def)
  then have "length (cw_frames w) \<le> length (cw_frames w0)" by (metis le_add2 length_append)
  moreover have "pc_steps (cw_pc w) \<le> 4" by (cases "cw_pc w") simp_all
  ultimately show ?thesis by (simp add: steps_left_def)
qed

lemma live_start:
  assumes "sorts_by rf_timestamp_ms std_sort" and "input_ok db fs a" and "0 \<le> now"
  shows "live (can_start std_sort now a (db, fs)) (can_start std_sort now a (db, fs))"
proof -
  have set: "set (std_sort fs) = set fs" using sorts_byD(3) [OF assms(1)] .
  have "input_ok db (std_sort fs) a" using assms(2) by (simp add: input_ok_def set rpm_fits_def)
  moreover have "all_related db new_engine (\<lambda>_. idle_monitor)" by (rule new_engine_related)
  ultimately have "can_sane (can_start std_sort now a (db, fs))"
    using assms(3) by (auto simp: can_sane_def can_start_def unknown_vehicle_def)
  moreover have "cw_pc (can_start std_sort now a (db, fs)) = Next_Frame" by (simp add: can_start_def)
  ultimately show ?thesis using can_inv_start by (simp add: live_def sleep_inv_def)
qed

lemma replay_completes:
  assumes "sorts_by rf_timestamp_ms std_sort" and "input_ok db fs a" and "0 \<le> now"
    and "now + advances (before @ after) < 2 ^ 60"
    and "\<forall>f \<in> set fs. \<exists>t. target_wall (can_start std_sort now a (db, fs)) (rf_timestamp_ms f) = Inr t \<and> t \<le> now + advances before"
    and "3 * length fs + 4 \<le> loop_steps after"
  shows "\<exists>w. can_run (before @ after) (can_start std_sort now a (db, fs)) = Inr w \<and> cw_pc w = Can_Done"
proof -
  let ?w0 = "can_start std_sort now a (db, fs)"
  note live0 = live_start [OF assms(1-3)]
  have w0: "cw_clock ?w0 = now" "set (cw_frames ?w0) = set fs" "length (cw_frames ?w0) = length fs"
    using sorts_byD(3,4) [OF assms(1)] by (simp_all add: can_start_def)
  have t: "now + advances before + advances after < 2 ^ 60" "0 \<le> advances after"
    using assms(4) by (simp_all add: advances_append advances_nonneg)
  then obtain w1 where 1: "can_run before ?w0 = Inr w1" "live ?w0 w1" "cw_clock w1 = now + advances before"
    using live_run [OF live0, of before] w0(1) by (metis add_increasing2 le_less_trans order_refl)
  obtain w where w: "can_run after w1 = Inr w" using live_run [OF 1(2)] t(1) 1(3) by metis
  have "cw_pc w = Can_Done"
  proof (rule run_ends [OF 1(2) _ _ _ w])
    show "steps_left w1 \<le> loop_steps after" using steps_left_bound [OF 1(2)] assms(6) w0(3) by simp
  qed (use assms(5) t(1) 1(3) w0(2) in simp_all)
  with w show ?thesis using 1(1) by (auto simp: can_run_append)
qed

text \<open>
  C9: the replay of the CAN program is defined and ends. On a sane database and log, with a speed
  between 1/100 and 100, no interleaving of clock and loop makes it compute anything undefined for
  thirty years of clock time; and once the clock has reached the target of every frame, four steps of
  the loop and three per frame bring it to its end.
\<close>

theorem can_replay_ends:
  assumes "sorts_by rf_timestamp_ms std_sort" and "input_ok db fs a"
    and "0 \<le> now" and "now + advances (before @ after) < 2 ^ 60"
  shows "\<exists>w. can_run (before @ after) (can_start std_sort now a (db, fs)) = Inr w \<and>
     ((\<forall>f \<in> set fs. \<exists>t. target_wall (can_start std_sort now a (db, fs)) (rf_timestamp_ms f) = Inr t \<and>
          t \<le> now + advances before) \<and>
      3 * length fs + 4 \<le> loop_steps after \<longrightarrow> cw_pc w = Can_Done)"
proof -
  let ?w0 = "can_start std_sort now a (db, fs)"
  have "cw_clock ?w0 = now" by (simp add: can_start_def)
  then obtain w where "can_run (before @ after) ?w0 = Inr w"
    using live_run [OF live_start [OF assms(1-3)], of "before @ after"] assms(4) by metis
  then show ?thesis using replay_completes [OF assms(1-4)] by fastforce
qed

theorem can_replay_ends_witness:
  "\<exists>w. can_run ([Clock_Advance 25000000] @ replicate 10 Loop_Step)
     (can_start (sort_key rf_timestamp_ms) 0 sample_can_args (sample_db, sample_log)) = Inr w \<and> cw_pc w = Can_Done"
proof -
  have one: "dfinite (of_integer 1) \<and> dval (of_integer 1) = 1" using of_integer_exact [of 1] by simp
  have "signals_ok engine_data"
    by (simp add: signals_ok_def engine_data_def signal_ok_def sample_signal_def default_signal_def)
  then have "input_ok sample_db sample_log sample_can_args"
    using sample_db_ok one
    by (simp add: input_ok_def speed_ok_def sample_can_args_def default_can_args_def sample_db_def sample_log_def
        engine_frame_def payload_ok_def)
  note ends = can_replay_ends [OF sorts_by_sort_key this, of 0 "[Clock_Advance 25000000]" "replicate 10 Loop_Step"]
  have "advances (replicate n Loop_Step) = 0" for n by (induction n) simp_all
  then have "0 + advances ([Clock_Advance 25000000] @ replicate 10 Loop_Step) < 2 ^ 60" by (simp add: advances_append)
  note ends = ends [OF order_refl this]
  have "\<forall>f \<in> set sample_log. \<exists>t. target_wall (can_start (sort_key rf_timestamp_ms) 0 sample_can_args (sample_db, sample_log))
      (rf_timestamp_ms f) = Inr t \<and> t \<le> 0 + advances [Clock_Advance 25000000]"
    by (simp add: sample_log_def default_speed_target can_start_def sample_can_args_def default_can_args_def
      long_add_def long_check_def)
  moreover have "3 * length sample_log + 4 \<le> loop_steps (replicate 10 Loop_Step)" by (simp add: sample_log_def)
  ultimately show ?thesis using ends by blast
qed


text \<open>
  The sleep is cut to whole milliseconds: in the last millisecond before a frame the loop does not
  sleep at all but polls again and again without any time passing.
\<close>

lemma last_millisecond_spins:
  assumes "cw_pc w = Sleep_Calc t" and "cw_clock w \<le> t" and "t - cw_clock w < 1000000"
  shows "can_run [Loop_Step, Loop_Step] w = Inr (w\<lparr>cw_pc := Poll_Timeouts t\<rparr>)"
proof -
  have "trunc_div (t - cw_clock w) 1000000 = 0" using assms(2,3) by (simp add: trunc_div_nonneg)
  then show ?thesis using assms(1) by (simp add: can_step_def pollInterval_def)
qed

end
