(* ===== verification/Can_Sample.thy ===== *)
theory Can_Sample
  imports Can_Main_Live
begin

text \<open>
  The signal database of the repository, \<open>task3_can_decoder/data/dbc.json\<close>: its text, the message
  table the loader makes of it, and that this table meets what the theorems about the CAN decoder ask
  of a database.
\<close>

section \<open>The value of the file\<close>

definition quarter :: double where "quarter = Finite False 4503599627370496 (-54)"

definition tenth :: double where "tenth = Finite False 7205759403792794 (-56)"

definition hundredth :: double where "hundredth = Finite False 5764607523034235 (-59)"

definition entry_json :: "signal_def \<Rightarrow> json" where
  "entry_json s = Json_Object
     ((if sd_enum_values s = [] then []
       else [(''enum'', Json_Object (map (\<lambda>(i, t). (dec_int i, Json_String t)) (sd_enum_values s)))]) @
      [(''length'', number (sd_length s)), (''offset'', Json_Number (sd_offset s)),
       (''scale'', Json_Number (sd_scale s)), (''signed'', Json_Bool (sd_is_signed s)),
       (''start_bit'', number (sd_start_bit s)), (''unit'', Json_String (sd_unit s))])"

definition entry :: "string \<Rightarrow> int \<Rightarrow> int \<Rightarrow> signal_def" where
  "entry name start len = \<lparr>sd_name = name, sd_start_bit = start, sd_length = len, sd_scale = of_integer 1,
     sd_offset = of_integer 0, sd_is_signed = False, sd_unit = '''', sd_enum_values = []\<rparr>"

definition engine_message :: message_def where
  "engine_message = \<lparr>md_id = 0x180, md_name = ''EngineData'', md_period_ms = 20, md_byte_order = Intel,
     md_signals = [entry ''checksum'' 24 8, entry ''counter'' 16 4,
       (entry ''rpm'' 0 16)\<lparr>sd_scale := quarter, sd_unit := ''rpm''\<rparr>]\<rparr>"

definition brake_message :: message_def where
  "brake_message = \<lparr>md_id = 0x1A0, md_name = ''BrakeStatus'', md_period_ms = 20, md_byte_order = Intel,
     md_signals = [(entry ''brake_pressed'' 0 1)\<lparr>sd_unit := ''bool''\<rparr>, entry ''checksum'' 8 8, entry ''counter'' 4 4]\<rparr>"

definition speed_message :: message_def where
  "speed_message = \<lparr>md_id = 0x220, md_name = ''VehicleSpeed'', md_period_ms = 20, md_byte_order = Intel,
     md_signals = [entry ''checksum'' 24 8, entry ''counter'' 20 4,
       (entry ''gear'' 16 4)\<lparr>sd_enum_values :=
         [(0, ''P''), (1, ''R''), (2, ''N''), (3, ''D1''), (4, ''D2''), (5, ''D3'')]\<rparr>,
       (entry ''speed'' 0 16)\<lparr>sd_scale := hundredth, sd_unit := ''km/h''\<rparr>]\<rparr>"

definition steering_message :: message_def where
  "steering_message = \<lparr>md_id = 0x2B0, md_name = ''SteeringData'', md_period_ms = 10, md_byte_order = Motorola,
     md_signals = [entry ''checksum'' 24 8, entry ''counter'' 16 4,
       (entry ''steering_angle'' 0 16)\<lparr>sd_scale := tenth, sd_is_signed := True, sd_unit := ''deg''\<rparr>]\<rparr>"

definition message_entry :: "message_def \<Rightarrow> json" where
  "message_entry m = Json_Object
     [(''byte_order'', Json_String (case md_byte_order m of Intel \<Rightarrow> ''intel'' | Motorola \<Rightarrow> ''motorola'')),
      (''name'', Json_String (md_name m)), (''period_ms'', number (md_period_ms m)),
      (''signals'', Json_Object (map (\<lambda>s. (sd_name s, entry_json s)) (md_signals m)))]"

definition vehicle_db :: dbc_database where
  "vehicle_db = [(0x180, engine_message), (0x1A0, brake_message), (0x220, speed_message), (0x2B0, steering_message)]"

definition vehicle_json :: json where
  "vehicle_json = Json_Object [(''0x180'', message_entry engine_message), (''0x1A0'', message_entry brake_message),
     (''0x220'', message_entry speed_message), (''0x2B0'', message_entry steering_message)]"

section \<open>The text of the file\<close>

text \<open>
  The file is the indented text of the document below, character by character: members in this order,
  two blanks per level, no newline at the end.
\<close>

definition doc_signal :: "int \<Rightarrow> int \<Rightarrow> json_doc \<Rightarrow> bool \<Rightarrow> string \<Rightarrow> (string \<times> json_doc) list \<Rightarrow> json_doc" where
  "doc_signal start len scale neg unit extra = Doc_Object
     ([(''start_bit'', Doc_Integer start), (''length'', Doc_Integer len), (''scale'', scale), (''offset'', Doc_Integer 0),
       (''signed'', Doc_Bool neg), (''unit'', Doc_String unit)] @ extra)"

definition doc_message :: "string \<Rightarrow> int \<Rightarrow> string \<Rightarrow> (string \<times> json_doc) list \<Rightarrow> json_doc" where
  "doc_message name period order signals = Doc_Object
     [(''name'', Doc_String name), (''period_ms'', Doc_Integer period), (''byte_order'', Doc_String order),
      (''signals'', Doc_Object signals)]"

definition engine_doc :: json_doc where
  "engine_doc = doc_message ''EngineData'' 20 ''intel''
     [(''rpm'', doc_signal 0 16 (Doc_Decimal ''0.25'' quarter) False ''rpm'' []),
      (''counter'', doc_signal 16 4 (Doc_Integer 1) False '''' []),
      (''checksum'', doc_signal 24 8 (Doc_Integer 1) False '''' [])]"

definition speed_doc :: json_doc where
  "speed_doc = doc_message ''VehicleSpeed'' 20 ''intel''
     [(''speed'', doc_signal 0 16 (Doc_Decimal ''0.01'' hundredth) False ''km/h'' []),
      (''gear'', doc_signal 16 4 (Doc_Integer 1) False '''' [(''enum'', Doc_Object
         [(''0'', Doc_String ''P''), (''1'', Doc_String ''R''), (''2'', Doc_String ''N''), (''3'', Doc_String ''D1''),
          (''4'', Doc_String ''D2''), (''5'', Doc_String ''D3'')])]),
      (''counter'', doc_signal 20 4 (Doc_Integer 1) False '''' []),
      (''checksum'', doc_signal 24 8 (Doc_Integer 1) False '''' [])]"

definition steering_doc :: json_doc where
  "steering_doc = doc_message ''SteeringData'' 10 ''motorola''
     [(''steering_angle'', doc_signal 0 16 (Doc_Decimal ''0.1'' tenth) True ''deg'' []),
      (''counter'', doc_signal 16 4 (Doc_Integer 1) False '''' []),
      (''checksum'', doc_signal 24 8 (Doc_Integer 1) False '''' [])]"

definition brake_doc :: json_doc where
  "brake_doc = doc_message ''BrakeStatus'' 20 ''intel''
     [(''brake_pressed'', doc_signal 0 1 (Doc_Integer 1) False ''bool'' []),
      (''counter'', doc_signal 4 4 (Doc_Integer 1) False '''' []),
      (''checksum'', doc_signal 8 8 (Doc_Integer 1) False '''' [])]"

definition vehicle_doc :: json_doc where
  "vehicle_doc = Doc_Object
     [(''0x180'', engine_doc), (''0x220'', speed_doc), (''0x2B0'', steering_doc), (''0x1A0'', brake_doc)]"

lemma scale_texts: "number_text ''0.25'' quarter" "number_text ''0.01'' hundredth" "number_text ''0.1'' tenth"
proof -
  have d: "decimal_digits ''0''" "decimal_digits ''25''" "decimal_digits ''01''" "decimal_digits ''1''"
    by (simp_all add: decimal_digits_def)
  have "nearest_double False 25 100 quarter" "nearest_double False 1 100 hundredth" "nearest_double False 1 10 tenth"
    by (simp_all add: nearest_double_def double_eval quarter_def hundredth_def tenth_def)
  then show "number_text ''0.25'' quarter" "number_text ''0.01'' hundredth" "number_text ''0.1'' tenth"
    using number_textI [OF _ d(1) d(2), of False] number_textI [OF _ d(1) d(3), of False] number_textI [OF _ d(1) d(4), of False]
    by (simp_all add: decimal_def)
qed

lemmas doc_defs = engine_doc_def speed_doc_def steering_doc_def brake_doc_def doc_message_def doc_signal_def

lemma vehicle_doc_ok: "doc_ok vehicle_doc"
  by (simp add: vehicle_doc_def doc_defs scale_texts plain_text_def)

lemma doc_values:
  "doc_value engine_doc = message_entry engine_message" "doc_value speed_doc = message_entry speed_message"
  "doc_value steering_doc = message_entry steering_message" "doc_value brake_doc = message_entry brake_message"
  by (simp_all add: doc_defs message_entry_def engine_message_def speed_message_def steering_message_def
      brake_message_def entry_json_def entry_def number_def emplace_all_def dec_int_def dec_nat_def text_eval)

lemma vehicle_doc_value: "doc_value vehicle_doc = vehicle_json"
  by (simp add: vehicle_doc_def vehicle_json_def doc_values emplace_all_def)

section \<open>Loading\<close>

lemma enum_texts: "stoi (dec_int i) = Inr i" if "int_min \<le> i" "i \<le> int_max"
  using stoi_dec_int that by simp

lemma load_entry:
  assumes "int_min \<le> sd_start_bit s" "sd_start_bit s \<le> int_max" "int_min \<le> sd_length s" "sd_length s \<le> int_max"
    and "load_enum (map (\<lambda>(i, t). (dec_int i, Json_String t)) (sd_enum_values s)) [] = Inr (sd_enum_values s)"
  shows "load_signal (sd_name s) (entry_json s) = Inr s"
proof -
  have "int_member (entry_json s) ''start_bit'' = Inr (sd_start_bit s)" "int_member (entry_json s) ''length'' = Inr (sd_length s)"
    using assms(1-4) by (intro int_member_number; simp add: entry_json_def at_key_object)+
  then show ?thesis using assms(5)
    by (simp add: load_signal_def entry_json_def at_key_object asDouble_def asBool_def asString_def members_def)
qed

lemma load_entries:
  "\<forall>s \<in> set ss. load_signal (sd_name s) (entry_json s) = Inr s \<Longrightarrow>
     load_signals (map (\<lambda>s. (sd_name s, entry_json s)) ss) = Inr ss"
  by (induction ss) simp_all

lemma load_message_entry:
  assumes "\<forall>s \<in> set (md_signals m). load_signal (sd_name s) (entry_json s) = Inr s"
    and "parseHexId k = Inr (md_id m)" and "int_min \<le> md_period_ms m" and "md_period_ms m \<le> int_max"
  shows "load_message k (message_entry m) = Inr m"
proof -
  have "int_member (message_entry m) ''period_ms'' = Inr (md_period_ms m)"
    using assms(3,4) by (intro int_member_number; simp add: message_entry_def at_key_object)
  then show ?thesis
    using load_entries [OF assms(1)] assms(2)
    by (simp add: load_message_def message_entry_def at_key_object members_def asString_def split: byte_order.split)
qed

lemma vehicle_messages:
  assumes "m \<in> {engine_message, brake_message, speed_message, steering_message}"
  shows "\<forall>s \<in> set (md_signals m). load_signal (sd_name s) (entry_json s) = Inr s"
    and "int_min \<le> md_period_ms m \<and> md_period_ms m \<le> int_max"
  using assms
  by (auto intro!: load_entry
      simp: engine_message_def brake_message_def speed_message_def steering_message_def entry_def enum_texts asString_def)

lemma vehicle_ids:
  "parseHexId ''0x180'' = Inr 0x180" "parseHexId ''0x1A0'' = Inr 0x1A0"
  "parseHexId ''0x220'' = Inr 0x220" "parseHexId ''0x2B0'' = Inr 0x2B0"
  by (simp_all add: parseHexId_def text_eval)

lemma vehicle_json_loads: "load_messages (members vehicle_json) [] = Inr vehicle_db"
proof -
  have ids: "md_id engine_message = 0x180" "md_id brake_message = 0x1A0" "md_id speed_message = 0x220"
      "md_id steering_message = 0x2B0"
    by (simp_all add: engine_message_def brake_message_def speed_message_def steering_message_def)
  have load: "load_message k (message_entry m) = Inr m"
    if "m \<in> {engine_message, brake_message, speed_message, steering_message}" and "parseHexId k = Inr (md_id m)" for m k
    using load_message_entry [OF vehicle_messages(1) [OF that(1)] that(2)] vehicle_messages(2) [OF that(1)] by simp
  have "load_message ''0x180'' (message_entry engine_message) = Inr engine_message"
      "load_message ''0x1A0'' (message_entry brake_message) = Inr brake_message"
      "load_message ''0x220'' (message_entry speed_message) = Inr speed_message"
      "load_message ''0x2B0'' (message_entry steering_message) = Inr steering_message"
    by (rule load; simp add: ids vehicle_ids)+
  then show ?thesis
    by (simp add: members_def vehicle_json_def ids vehicle_db_def)
qed

lemma vehicle_file_loads: "loadFromJsonFile path (Some (doc_text 0 vehicle_doc)) = Inr vehicle_db"
  using json_parse_doc [OF vehicle_doc_ok, of 0] vehicle_json_loads
  by (simp add: loadFromJsonFile_def vehicle_doc_value isObject_def vehicle_json_def)

section \<open>The hypotheses of the theorems hold\<close>

lemma vehicle_db_ok: "db_ok vehicle_db"
  by (simp add: db_ok_def vehicle_db_def engine_message_def brake_message_def speed_message_def steering_message_def
      entry_def msg_ok_def findSignal_def counter_layout_ok_def checksum_layout_ok_def std_ordered_def)

lemma vehicle_signals_ok: "\<forall>(k, m) \<in> set vehicle_db. signals_ok m"
  by (simp add: vehicle_db_def engine_message_def brake_message_def speed_message_def steering_message_def
      entry_def signals_ok_def signal_ok_def)

text \<open>Whatever the payload, the engine speed of the status line fits \<open>int\<close>.\<close>

lemma quarter_value: "dnonneg quarter (1 / 4)"
  by (simp add: dnonneg_def quarter_def power_int_def power_one_over)

lemma cast_int_nonneg:
  assumes "dnonneg x b" and "b < 2 ^ 31"
  shows "\<exists>i. cast_int x = Inr i"
proof -
  obtain i where i: "cast_long x = Inr i" "0 \<le> i" "i < 2 ^ 31"
    by (rule cast_long_nonneg [OF assms(1), of "2 ^ 31"]) (use assms(2) in simp_all)
  then have "dtrunc x = Some i" by (auto simp: cast_long_def split: option.splits if_splits)
  with i show ?thesis by (simp add: cast_int_def)
qed

lemma vehicle_rpm_fits: "\<forall>f \<in> set fs. payload_ok (rf_data f) \<Longrightarrow> rpm_fits vehicle_db fs"
  unfolding rpm_fits_def
proof (intro ballI allI impI)
  fix f m x
  assume ok: "\<forall>f \<in> set fs. payload_ok (rf_data f)" "f \<in> set fs"
    and m: "db_find vehicle_db (rf_can_id f) = Some m" "md_name m = ''EngineData''" and x: "physical_field m f ''rpm'' None = Some x"
  have "(rf_can_id f, m) \<in> set vehicle_db" using m(1) db_okD(4) [OF vehicle_db_ok] by blast
  with m(2) have "m = engine_message"
    by (auto simp: vehicle_db_def brake_message_def speed_message_def steering_message_def)
  define s where "s = (entry ''rpm'' 0 16)\<lparr>sd_scale := quarter, sd_unit := ''rpm''\<rparr>"
  have s: "sd_start_bit s = 0" "sd_length s = 16" "\<not> sd_is_signed s" "sd_scale s = quarter" "sd_offset s = of_integer 0"
    by (simp_all add: s_def entry_def)
  have "findSignal m ''rpm'' = Some s" "md_byte_order m = Intel"
    by (simp_all add: \<open>m = engine_message\<close> engine_message_def findSignal_def entry_def s_def)
  define w where "w = field_spec Intel 0 16 (rf_data f)"
  have "extractRaw (rf_data f) s Intel = Inr w"
    using extractRaw_eq [of "rf_data f" s Intel] ok by (simp add: s w_def)
  then have "x = dadd (dmul (of_integer (uint w)) quarter) (dzero False)"
    using x \<open>findSignal m ''rpm'' = Some s\<close> \<open>md_byte_order m = Intel\<close>
    by (simp add: physical_field_def decodePhysical_def s zero_double)
  moreover have "uint w < 2 ^ 30" using field_small(1) [of 16] by (simp add: w_def)
  then have u: "(of_int (uint w) :: rat) < 2 ^ 30" "(0 :: rat) \<le> of_int (uint w)"
    using int_bound [of "uint w" "2 ^ 30"] by (simp_all only: of_int_0_le_iff uint_nonnegative) simp
  have "dnonneg (of_integer (uint w)) (2 * of_int (uint w) + 1)"
    by (rule of_integer_nonneg) (use \<open>uint w < 2 ^ 30\<close> in simp_all)
  from dmul_nonneg [OF this quarter_value] u
  have "dnonneg (dmul (of_integer (uint w)) quarter) (2 * ((2 * of_int (uint w) + 1) * (1 / 4)) + 1)" by simp
  ultimately have "dnonneg x (2 * ((2 * of_int (uint w) + 1) * (1 / 4)) + 1)"
    using dadd_zero by (simp add: dnonneg_def)
  then show "\<exists>i. cast_int x = Inr i" by (rule cast_int_nonneg) (use u in simp)
qed

lemma vehicle_input_ok:
  assumes "\<forall>f \<in> set fs. payload_ok (rf_data f) \<and> 0 \<le> rf_timestamp_ms f \<and> rf_timestamp_ms f < 2 ^ 32" and "speed_ok (ca_speed a)"
  shows "input_ok vehicle_db fs a"
  using assms vehicle_db_ok vehicle_signals_ok vehicle_rpm_fits [of fs] by (simp add: input_ok_def)

end
