(* ===== verification/Can_Sample_Log.thy ===== *)
theory Can_Sample_Log
  imports Can_Sample
begin

text \<open>
  The frame log of the repository, \<open>task3_can_decoder/data/frames.log\<close>, and the program on it: whatever
  the clock does, its summary reports the faults that were put into the log, the jump of a counter and
  the wrong checksum, and no others.
\<close>

section \<open>The log\<close>

text \<open>Time in ms, identifier and payload of the frames; the first byte is the most significant one.\<close>

definition log_entries :: "(int \<times> u32 \<times> int) list" where
  "log_entries = [
    (0, 0x180, 0x9C0C009000000000), (0, 0x1A0, 0x0000000000000000), (0, 0x220, 0x0700040300000000),
    (0, 0x2B0, 0xFF8B007400000000), (10, 0x2B0, 0xFFEC100300000000), (20, 0x180, 0x350D013900000000),
    (20, 0x1A0, 0x1010000000000000), (20, 0x220, 0x6400147000000000), (20, 0x2B0, 0xFFF2202D00000000),
    (30, 0x2B0, 0x008830B800000000), (40, 0x180, 0xEF0D02E000000000), (40, 0x1A0, 0x2020000000000000),
    (40, 0x220, 0xFE0024DA00000000), (40, 0x2B0, 0x0071403100000000), (50, 0x2B0, 0xFFB9501600000000),
    (60, 0x180, 0x2E0E032300000000), (60, 0x1A0, 0x3030000000000000), (60, 0x220, 0x5401346100000000),
    (60, 0x2B0, 0x0000606000000000), (70, 0x2B0, 0xFFA0702F00000000), (80, 0x180, 0xF70E04FD00000000),
    (80, 0x1A0, 0x4040000000000000), (80, 0x220, 0xD901449C00000000), (80, 0x2B0, 0x007C80FC00000000),
    (90, 0x2B0, 0x006F90FF00000000), (100, 0x180, 0x680F056200000000), (100, 0x1A0, 0x5050000000000000),
    (100, 0x220, 0x7502542300000000), (100, 0x2B0, 0xFFC4A09B00000000), (110, 0x2B0, 0x002AB09A00000000),
    (120, 0x180, 0x1E10060800000000), (120, 0x1A0, 0x6060000000000000), (120, 0x220, 0xD80264BE00000000),
    (120, 0x2B0, 0x0021C0E100000000), (130, 0x2B0, 0xFF98D0B700000000), (140, 0x180, 0xE11007F600000000),
    (140, 0x1A0, 0x7171000000000000), (140, 0x220, 0x4B03743C00000000), (140, 0x2B0, 0x004FE0AF00000000),
    (150, 0x2B0, 0x000CF0FC00000000), (160, 0x180, 0x4711085E00000000), (160, 0x1A0, 0x8181000000000000),
    (160, 0x220, 0xCB03844C00000000), (160, 0x2B0, 0x0054005400000000), (170, 0x2B0, 0x0009101900000000),
    (180, 0x180, 0xFC1109E400000000), (180, 0x1A0, 0x9191000000000000), (180, 0x220, 0x4D0494DD00000000),
    (180, 0x2B0, 0xFF6A20B500000000), (190, 0x2B0, 0xFFCB300400000000), (200, 0x180, 0xD2120ACA00000000),
    (200, 0x1A0, 0xA0A0000000000000), (200, 0x220, 0xC104A46100000000), (200, 0x2B0, 0xFF7040CF00000000),
    (210, 0x2B0, 0x008150D100000000), (220, 0x180, 0x65130B7D00000000), (220, 0x1A0, 0xB0B0000000000000),
    (220, 0x220, 0x1805B4A900000000), (220, 0x2B0, 0x0072601200000000), (230, 0x2B0, 0x0063701300000000),
    (240, 0x180, 0xDE130CC100000000), (240, 0x1A0, 0xC0C0000000000000), (240, 0x220, 0x8405C44500000000),
    (240, 0x2B0, 0xFFC680B900000000), (250, 0x2B0, 0xFF7B901400000000), (260, 0x180, 0xAB140DB200000000),
    (260, 0x1A0, 0xD0D0000000000000), (260, 0x220, 0x0D06D4DF00000000), (260, 0x2B0, 0x0071A0D100000000),
    (270, 0x2B0, 0x0086B03600000000), (280, 0x180, 0x65150E7E00000000), (280, 0x1A0, 0xE0E0000000000000),
    (280, 0x220, 0x8206E46000000000), (280, 0x2B0, 0xFF84C0BB00000000), (290, 0x2B0, 0xFFFCD0D300000000),
    (300, 0x180, 0xA5150FBF00000000), (300, 0x1A0, 0xF0F0000000000000), (300, 0x220, 0xF706F40500000000),
    (300, 0x2B0, 0xFF7FE06000000000), (310, 0x2B0, 0x004EF0BE00000000), (320, 0x180, 0xA51600B300000000),
    (320, 0x1A0, 0x0000000000000000), (320, 0x220, 0x9B07049800000000), (320, 0x2B0, 0x0050005000000000),
    (330, 0x2B0, 0xFF91107E00000000), (340, 0x180, 0x3817012E00000000), (340, 0x1A0, 0x1111000000000000),
    (340, 0x220, 0x0F08141300000000), (340, 0x2B0, 0xFFF9202600000000), (350, 0x2B0, 0x000F303F00000000),
    (360, 0x180, 0xAD1702B800000000), (360, 0x1A0, 0x2121000000000000), (360, 0x220, 0x6508244900000000),
    (360, 0x2B0, 0xFFBA400500000000), (370, 0x2B0, 0x0070502000000000), (380, 0x180, 0x3718032C00000000),
    (380, 0x1A0, 0x3131000000000000), (380, 0x220, 0xF10834CD00000000), (380, 0x2B0, 0xFFE9607600000000),
    (390, 0x2B0, 0xFFAA702500000000), (400, 0x180, 0x3719042A00000000), (400, 0x1A0, 0x4040000000000000),
    (400, 0x220, 0x5A09441700000000), (420, 0x180, 0x8C19059000000000), (420, 0x1A0, 0x5050000000000000),
    (420, 0x220, 0xF10954AC00000000), (440, 0x180, 0x0F1A061300000000), (440, 0x1A0, 0x6060000000000000),
    (440, 0x220, 0x4E0A642000000000), (460, 0x180, 0xB01A07AD00000000), (460, 0x1A0, 0x7070000000000000),
    (460, 0x220, 0xBA0A74C400000000), (480, 0x180, 0xAA1B08B900000000), (480, 0x1A0, 0x8080000000000000),
    (480, 0x220, 0x310B84BE00000000), (500, 0x180, 0x2C1C093900000000), (500, 0x1A0, 0x9090000000000000),
    (500, 0x220, 0xBC0BB40300000000), (520, 0x180, 0xE51C0AF300000000), (520, 0x1A0, 0xA0A0000000000000),
    (520, 0x220, 0x220CC4EA00000000), (540, 0x180, 0x7C1D0B6A00000000), (540, 0x1A0, 0xB1B1000000000000),
    (540, 0x220, 0xAD0CD47500000000), (560, 0x180, 0x041E0C1600000000), (560, 0x1A0, 0xC1C1000000000000),
    (560, 0x220, 0x380DE4D100000000), (580, 0x180, 0xD91E0DCA00000000), (580, 0x1A0, 0xD1D1000000000000),
    (580, 0x220, 0x920DF46B00000000), (600, 0x180, 0x311F0EDF00000000), (600, 0x1A0, 0xE0E0000000000000),
    (600, 0x220, 0xFF0D04F600000000), (620, 0x180, 0xE61F0FF600000000), (620, 0x1A0, 0xF0F0000000000000),
    (620, 0x220, 0xA60E14BC00000000), (640, 0x180, 0xA820008800000000), (640, 0x1A0, 0x0000000000000000),
    (640, 0x220, 0x010F242A00000000), (660, 0x180, 0x2E21010E00000000), (660, 0x1A0, 0x1010000000000000),
    (660, 0x220, 0x5F0F346400000000), (680, 0x180, 0xEB2102C800000000), (680, 0x1A0, 0x2020000000000000),
    (680, 0x220, 0xD50F449E00000000), (700, 0x180, 0x6922034800000000), (700, 0x1A0, 0x3030000000000000),
    (700, 0x220, 0x5110541500000000), (700, 0x2B0, 0x0006808600000000), (710, 0x2B0, 0x002290B200000000),
    (720, 0x180, 0x1923043E00000000), (720, 0x1A0, 0x4040000000000000), (720, 0x220, 0xE810649C00000000),
    (720, 0x2B0, 0xFFD3A08C00000000), (730, 0x2B0, 0xFFE4B0AB00000000), (740, 0x180, 0x6923054F00000000),
    (740, 0x1A0, 0x5151000000000000), (740, 0x220, 0x6A11740F00000000), (740, 0x2B0, 0x004AC08A00000000),
    (750, 0x2B0, 0x0016D0C600000000), (760, 0x180, 0x1F24063D00000000), (760, 0x1A0, 0x6161000000000000),
    (760, 0x220, 0xCB11845E00000000), (760, 0x2B0, 0xFFF7E0E800000000), (770, 0x2B0, 0x0003F0F300000000),
    (780, 0x180, 0xC72407E400000000), (780, 0x1A0, 0x7171000000000000), (780, 0x220, 0x2E1294A800000000),
    (780, 0x2B0, 0xFFC7003800000000), (790, 0x2B0, 0xFFD7103800000000), (800, 0x180, 0x4E25086300000000),
    (800, 0x1A0, 0x8080000000000000), (800, 0x220, 0xB912A40F00000000), (800, 0x2B0, 0xFFE8203700000000),
    (810, 0x2B0, 0x000D303D00000000), (820, 0x180, 0x0026092F00000000), (820, 0x1A0, 0x9090000000000000),
    (820, 0x220, 0x5613B4F100000000), (820, 0x2B0, 0xFFD8406700000000), (830, 0x2B0, 0xFFD6507900000000),
    (840, 0x180, 0x90260ABC00000000), (840, 0x1A0, 0xA0A0000000000000), (840, 0x220, 0xB213C46500000000),
    (840, 0x2B0, 0xFFC0605F00000000), (850, 0x2B0, 0x0014706400000000), (860, 0x180, 0x45270B6900000000),
    (860, 0x1A0, 0xB0B0000000000000), (860, 0x220, 0x4414D48400000000), (860, 0x2B0, 0xFFD780A800000000),
    (870, 0x2B0, 0x003D90AD00000000), (880, 0x180, 0x10280C3400000000), (880, 0x1A0, 0xC0C0000000000000),
    (880, 0x220, 0xB614E44600000000), (880, 0x2B0, 0x0036A09600000000), (890, 0x2B0, 0xFFC0B08F00000000),
    (900, 0x180, 0x90280DB500000000), (900, 0x1A0, 0xD0D0000000000000), (900, 0x220, 0xFB14F41B00000000),
    (900, 0x2B0, 0xFFD9C0E600000000), (910, 0x2B0, 0x0019D0C900000000), (920, 0x180, 0x30290E1700000000),
    (920, 0x1A0, 0xE0E0000000000000), (920, 0x220, 0x9D15048C00000000), (920, 0x2B0, 0xFFD5E0CA00000000),
    (930, 0x2B0, 0xFFC9F0C600000000), (940, 0x180, 0xBD290F9B00000000), (940, 0x1A0, 0xF1F1000000000000),
    (940, 0x220, 0x1316141100000000), (940, 0x2B0, 0x0041004100000000), (950, 0x2B0, 0x000B101B00000000),
    (960, 0x180, 0x642A004E00000000), (960, 0x1A0, 0x0101000000000000), (960, 0x220, 0x821624B000000000),
    (960, 0x2B0, 0xFFFC202300000000), (970, 0x2B0, 0x002B301B00000000), (980, 0x180, 0x542B017E00000000),
    (980, 0x1A0, 0x1111000000000000), (980, 0x220, 0xEA1634C800000000), (980, 0x2B0, 0x002E406E00000000),
    (990, 0x2B0, 0xFFD2507D00000000), (1000, 0x180, 0xD22B02FB00000000), (1000, 0x1A0, 0x2020000000000000),
    (1000, 0x220, 0x7817442B00000000), (1000, 0x2B0, 0xFFC4605B00000000)]"

definition payload_bytes :: "int \<Rightarrow> frame_payload" where
  "payload_bytes w = map (\<lambda>n. word_of_int (w div 2 ^ n)) [56, 48, 40, 32, 24, 16, 8, 0]"

definition log_frame :: "int \<times> u32 \<times> int \<Rightarrow> raw_frame" where
  "log_frame = (\<lambda>(t, k, w). \<lparr>rf_timestamp_ms = t, rf_can_id = k, rf_data = payload_bytes w, rf_dlc = 8\<rparr>)"

definition vehicle_log :: "raw_frame list" where
  "vehicle_log = map log_frame log_entries"

definition entries_of :: "u32 \<Rightarrow> (int \<times> u32 \<times> int) list" where
  "entries_of k = filter (\<lambda>e. fst (snd e) = k) log_entries"

lemma log_frame_simps [simp]:
  "rf_timestamp_ms (log_frame e) = fst e" "rf_can_id (log_frame e) = fst (snd e)"
  "rf_data (log_frame e) = payload_bytes (snd (snd e))" "rf_dlc (log_frame e) = 8"
  by (simp_all add: log_frame_def split_beta)

lemma length_payload_bytes [simp]: "length (payload_bytes w) = 8"
  by (simp add: payload_bytes_def)

section \<open>Counters and checksums of a payload\<close>

lemma uint_widen: "uint (ucast (b :: u8) :: u64) = uint b"
  by (simp add: uint_up_ucast is_up)

lemma nibble_low:
  assumes "\<And>n. bit (v :: u64) n \<longleftrightarrow> n < 4 \<and> bit (b :: u8) n"
  shows "uint v = uint b mod 16"
proof -
  have "v = ucast (take_bit 4 b)" by (rule bit_word_eqI) (auto simp: assms bit_simps)
  then have "uint v = uint (take_bit 4 b)" by (simp only: uint_widen)
  then show ?thesis by (simp add: take_bit_eq_mod uint_mod_distrib)
qed

lemma nibble_high:
  assumes "\<And>n. bit (v :: u64) n \<longleftrightarrow> n < 4 \<and> bit (b :: u8) (n + 4)"
  shows "uint v = uint b div 16"
proof -
  have "\<not> bit b (n + 4)" if "\<not> n < 4" for n using that bit_imp_le_length [of b "n + 4"] by auto
  then have "v = ucast (drop_bit 4 b)"
    by (intro bit_word_eqI) (auto simp: assms bit_simps add.commute)
  then have "uint v = uint (drop_bit 4 b)" by (simp only: uint_widen)
  then show ?thesis by (simp add: drop_bit_eq_div uint_div_distrib)
qed

lemma counter_nibbles:
  assumes "length data = 8"
  shows "uint (field_spec Intel 16 4 data) = uint (data ! 2) mod 16"
    and "uint (field_spec Intel 4 4 data) = uint (data ! 0) div 16"
    and "uint (field_spec Intel 20 4 data) = uint (data ! 2) div 16"
    and "uint (field_spec Motorola 16 4 data) = uint (data ! 2) div 16"
proof -
  have small: "m = 0 \<or> m = 1 \<or> m = 2 \<or> m = 3" if "m < 4" for m :: nat using that by linarith
  show "uint (field_spec Intel 16 4 data) = uint (data ! 2) mod 16"
    by (rule nibble_low) (use assms in \<open>auto simp: field_spec_def bit_simps bit_payload_le dest!: small\<close>)
  show "uint (field_spec Intel 4 4 data) = uint (data ! 0) div 16"
    by (rule nibble_high) (use assms in \<open>auto simp: field_spec_def bit_simps bit_payload_le dest!: small\<close>)
  show "uint (field_spec Intel 20 4 data) = uint (data ! 2) div 16"
    by (rule nibble_high) (use assms in \<open>auto simp: field_spec_def bit_simps bit_payload_le dest!: small\<close>)
  show "uint (field_spec Motorola 16 4 data) = uint (data ! 2) div 16"
    by (rule nibble_high) (use assms in \<open>auto simp: field_spec_def bit_simps bit_payload_be dest!: small\<close>)
qed

lemma payload_byte: "payload_bytes w ! 0 = word_of_int (w div 2 ^ 56)" "payload_bytes w ! 2 = word_of_int (w div 2 ^ 40)"
  by (simp_all add: payload_bytes_def)

lemma xor_bytes_of_int: "xor_bytes (map word_of_int xs) = word_of_int (foldr (XOR) xs 0)"
  by (induction xs) (simp_all add: xor_bytes_def of_int_xor_eq)

definition parity :: "int \<Rightarrow> int" where
  "parity w = foldr (XOR) (map (\<lambda>n. w div 2 ^ n) [56, 48, 40, 32, 24, 16, 8, 0]) 0 mod 256"

lemma checksum_parity: "xor_bytes (payload_bytes w) = 0 \<longleftrightarrow> parity w = 0"
proof -
  define xs where "xs = map (\<lambda>n. w div 2 ^ n) [56, 48, 40, 32, 24, 16, 8, 0]"
  have "payload_bytes w = map word_of_int xs" by (simp add: payload_bytes_def xs_def)
  then have "xor_bytes (payload_bytes w) = word_of_int (foldr (XOR) xs 0)" by (simp only: xor_bytes_of_int)
  also have "\<dots> = 0 \<longleftrightarrow> foldr (XOR) xs 0 mod 2 ^ 8 = (0 :: int)"
    by (simp add: word_of_int_eq_0_iff mod_eq_0_iff_dvd)
  finally show ?thesis unfolding parity_def xs_def by simp
qed

section \<open>The facts of the log\<close>

lemma log_times: "list_all (\<lambda>e. 0 \<le> fst e \<and> fst e \<le> 1000) log_entries"
  by code_simp

lemma log_ids: "list_all (\<lambda>e. fst (snd e) \<in> {0x180, 0x1A0, 0x220, 0x2B0}) log_entries"
  by code_simp

lemma log_lengths:
  "length (entries_of 0x180) = 51" "length (entries_of 0x1A0) = 51" "length (entries_of 0x220) = 51" "length (entries_of 0x2B0) = 71"
  by code_simp+

lemma log_ascending:
  "sorted_wrt (<) (map fst (entries_of 0x180))" "sorted_wrt (<) (map fst (entries_of 0x1A0))"
  "sorted_wrt (<) (map fst (entries_of 0x220))" "sorted_wrt (<) (map fst (entries_of 0x2B0))"
  by code_simp+

lemma log_gaps:
  "gaps (map (\<lambda>e. snd (snd e) div 2 ^ 40 mod 16) (entries_of 0x180)) = 0"
  "gaps (map (\<lambda>e. snd (snd e) div 2 ^ 60 mod 16) (entries_of 0x1A0)) = 0"
  "gaps (map (\<lambda>e. snd (snd e) div 2 ^ 44 mod 16) (entries_of 0x220)) = 1"
  "gaps (map (\<lambda>e. snd (snd e) div 2 ^ 44 mod 16) (entries_of 0x2B0)) = 0"
  by code_simp+

lemma log_checksums:
  "length (filter (\<lambda>e. parity (snd (snd e)) \<noteq> 0) (entries_of 0x180)) = 1"
  "filter (\<lambda>e. parity (snd (snd e)) \<noteq> 0) (entries_of 0x1A0) = []"
  "filter (\<lambda>e. parity (snd (snd e)) \<noteq> 0) (entries_of 0x220) = []"
  "filter (\<lambda>e. parity (snd (snd e)) \<noteq> 0) (entries_of 0x2B0) = []"
  by code_simp+

section \<open>The program on its files\<close>

lemma vehicle_log_loggable: "\<forall>f \<in> set vehicle_log. loggable f"
  using log_times by (auto simp: vehicle_log_def list_all_iff loggable_def payload_ok_def)

lemma vehicle_log_events: "\<forall>f \<in> set vehicle_log. ev_ok (Frame f)"
  using log_times by (auto simp: vehicle_log_def list_all_iff payload_ok_def time_ok_def)

lemma vehicle_log_filter: "filter (\<lambda>f. rf_can_id f = k) vehicle_log = map log_frame (entries_of k)"
  by (simp add: vehicle_log_def entries_of_def filter_map comp_def)

text \<open>The frames of one identifier have different times: sorting the log does not reorder them.\<close>

lemma sorted_unique:
  fixes key :: "'a \<Rightarrow> int"
  assumes "sorted (map key xs)" and "sorted_wrt (<) (map key ys)" and "mset xs = mset ys"
  shows "xs = ys"
proof -
  have ys: "sorted (map key ys)" "distinct (map key ys)"
    using assms(2) by (simp_all add: strict_sorted_iff)
  have "mset (map key xs) = mset (map key ys)" using assms(3) by simp
  then have "map key xs = map key ys"
    using properties_for_sort [OF _ assms(1)] properties_for_sort [OF _ ys(1)] by metis
  moreover have "inj_on key (set xs \<union> set ys)"
    using ys(2) mset_eq_setD [OF assms(3)] by (simp add: distinct_map)
  ultimately show ?thesis by (rule map_inj_on)
qed

lemma sort_keeps_entries:
  assumes "sorts_by rf_timestamp_ms std_sort" and "sorted_wrt (<) (map fst (entries_of k))"
  shows "filter (\<lambda>f. rf_can_id f = k) (std_sort vehicle_log) = map log_frame (entries_of k)"
proof (rule sorted_unique [where key = rf_timestamp_ms])
  show "sorted (map rf_timestamp_ms (filter (\<lambda>f. rf_can_id f = k) (std_sort vehicle_log)))"
    using sorts_byD(2) [OF assms(1)] by (rule sorted_filter)
  show "sorted_wrt (<) (map rf_timestamp_ms (map log_frame (entries_of k)))"
    using assms(2) by (simp add: comp_def)
  show "mset (filter (\<lambda>f. rf_can_id f = k) (std_sort vehicle_log)) = mset (map log_frame (entries_of k))"
    unfolding vehicle_log_filter [symmetric] by (simp only: mset_filter sorts_byD(1) [OF assms(1)])
qed

lemma log_counters:
  assumes "findSignal m ''counter'' = Some s"
    and "\<And>w. uint (field_spec (md_byte_order m) (nat (sd_start_bit s)) (nat (sd_length s)) (payload_bytes w)) = g w"
  shows "counters m (map log_frame es) = map (\<lambda>e. g (snd (snd e))) es"
  by (induction es) (simp_all add: counter_of_def assms)

lemma vehicle_counters:
  "counters engine_message (map log_frame es) = map (\<lambda>e. snd (snd e) div 2 ^ 40 mod 16) es"
  "counters brake_message (map log_frame es) = map (\<lambda>e. snd (snd e) div 2 ^ 60 mod 16) es"
  "counters speed_message (map log_frame es) = map (\<lambda>e. snd (snd e) div 2 ^ 44 mod 16) es"
  "counters steering_message (map log_frame es) = map (\<lambda>e. snd (snd e) div 2 ^ 44 mod 16) es"
proof -
  have div: "w div 2 ^ 40 mod 256 div 16 = w div 2 ^ 44 mod 16" "w div 2 ^ 56 mod 256 div 16 = w div 2 ^ 60 mod 16"
    "w div 2 ^ 40 mod 256 mod 16 = w div 2 ^ 40 mod 16" for w :: int
  proof -
    have "v mod 256 = 16 * (v div 16 mod 16) + v mod 16" for v :: int using zmod_zmult2_eq [of 16 v 16] by simp
    then have "v mod 256 div 16 = v div 16 mod 16" for v :: int by simp
    then show "w div 2 ^ 40 mod 256 div 16 = w div 2 ^ 44 mod 16" "w div 2 ^ 56 mod 256 div 16 = w div 2 ^ 60 mod 16"
      by (simp_all add: zdiv_zmult2_eq [symmetric])
  qed (simp add: mod_mod_cancel)
  note nib = counter_nibbles [OF length_payload_bytes] payload_byte uint_word_of_int div [simplified]
  show "counters engine_message (map log_frame es) = map (\<lambda>e. snd (snd e) div 2 ^ 40 mod 16) es"
    by (rule log_counters [where s = "entry ''counter'' 16 4"])
      (simp_all add: engine_message_def findSignal_def entry_def nib)
  show "counters brake_message (map log_frame es) = map (\<lambda>e. snd (snd e) div 2 ^ 60 mod 16) es"
    by (rule log_counters [where s = "entry ''counter'' 4 4"])
      (simp_all add: brake_message_def findSignal_def entry_def nib)
  show "counters speed_message (map log_frame es) = map (\<lambda>e. snd (snd e) div 2 ^ 44 mod 16) es"
    by (rule log_counters [where s = "entry ''counter'' 20 4"])
      (simp_all add: speed_message_def findSignal_def entry_def nib)
  show "counters steering_message (map log_frame es) = map (\<lambda>e. snd (snd e) div 2 ^ 44 mod 16) es"
    by (rule log_counters [where s = "entry ''counter'' 16 4"])
      (simp_all add: steering_message_def findSignal_def entry_def nib)
qed

lemma vehicle_checksums:
  assumes "m \<in> {engine_message, brake_message, speed_message, steering_message}"
  shows "length (filter (\<lambda>f. rf_can_id f = k \<and> \<not> checksum_fine m f) vehicle_log) =
    length (filter (\<lambda>e. parity (snd (snd e)) \<noteq> 0) (entries_of k))"
proof -
  have "findSignal m ''checksum'' \<noteq> None"
    using assms by (auto simp: engine_message_def brake_message_def speed_message_def steering_message_def findSignal_def entry_def)
  then have "\<not> checksum_fine m (log_frame e) \<longleftrightarrow> parity (snd (snd e)) \<noteq> 0" for e
    by (simp add: checksum_fine_def checksum_parity)
  then show ?thesis by (simp add: vehicle_log_def entries_of_def filter_map comp_def conj_commute)
qed

lemma vehicle_files_load:
  assumes "files (dir @ ''/dbc.json'') = Some (doc_text 0 vehicle_doc)"
    and "files (dir @ ''/frames.log'') = Some (log_text vehicle_log)"
  shows "can_load files dir = Inr (vehicle_db, vehicle_log)"
  using assms by (simp add: can_load_def vehicle_file_loads readAll_log_text [OF vehicle_log_loggable])

lemma vehicle_known: "filter (\<lambda>f. db_find vehicle_db (rf_can_id f) = None) vehicle_log = []"
proof -
  have "db_find vehicle_db k \<noteq> None" if "k \<in> {0x180, 0x1A0, 0x220, 0x2B0}" for k
    using that by (auto simp: vehicle_db_def db_find_def std_find_def)
  then show ?thesis using log_ids by (auto simp: vehicle_log_def list_all_iff filter_empty_conv)
qed

definition counted :: "nat \<Rightarrow> nat \<Rightarrow> nat \<Rightarrow> message_stats \<Rightarrow> bool" where
  "counted frames jumps bad st \<longleftrightarrow> ms_frames_received st = of_nat frames \<and> ms_counter_faults st = of_nat jumps \<and>
     ms_checksum_faults st = of_nat bad"

text \<open>
  C10: the program on the data of its repository. Started with a data directory that holds the two files,
  at any speed and with or without \<open>--summary-only\<close>, and under any behaviour of the clock: once it is
  done, its output ends with a summary of 51 frames of each of three messages and 71 of the fourth, one
  counter fault of \<open>VehicleSpeed\<close>, one checksum fault of \<open>EngineData\<close>, no other of these faults and no
  unknown frame.
\<close>

theorem sample_replay_summary:
  assumes "sorts_by rf_timestamp_ms std_sort" and "can_prepare std_sort files now argv = Inr (Running w0)"
    and "files (ca_data_dir (cw_args w0) @ ''/dbc.json'') = Some (doc_text 0 vehicle_doc)"
    and "files (ca_data_dir (cw_args w0) @ ''/frames.log'') = Some (log_text vehicle_log)"
    and "can_run acts w0 = Inr w" and "cw_pc w = Can_Done"
  shows "\<exists>lines stats. cw_out w = cw_out w0 @ lines @ summary_text vehicle_db stats 0 \<and>
     counted 51 0 1 (stats 0x180) \<and> counted 51 0 0 (stats 0x1A0) \<and> counted 51 1 0 (stats 0x220) \<and> counted 71 0 0 (stats 0x2B0)"
proof -
  obtain a db fs where "can_load files (ca_data_dir a) = Inr (db, fs)" "w0 = can_start std_sort now a (db, fs)"
  proof -
    obtain st where "(case st of Exited status out err \<Rightarrow> Inr (Exited status out err)
       | Running a \<Rightarrow>
           catch_exception (\<lambda>what. Inr (Exited 1 [] (''Error loading input data: '' @ what @ [newline])))
             (rbind (can_load files (ca_data_dir a)) (\<lambda>input. Inr (Running (can_start std_sort now a input))))) = Inr (Running w0)"
      using assms(2) by (auto simp: can_prepare_def rbind_Inr_iff)
    then show ?thesis using that by (cases st) (auto simp: catch_exception_Inr rbind_Inr_iff)
  qed
  with vehicle_files_load [OF assms(3,4)] have w0: "w0 = can_start std_sort now a (vehicle_db, vehicle_log)"
    by (simp add: can_start_simps)
  obtain lines where out: "cw_out w = cw_out w0 @ lines @ summary_text vehicle_db (stats_at (cw_engine w)) 0"
    and counts: "\<And>k m. (k, m) \<in> set vehicle_db \<Longrightarrow> sorted_wrt (<) (map fst (entries_of k)) \<Longrightarrow>
       counted (length (entries_of k)) (gaps (counters m (map log_frame (entries_of k))))
         (length (filter (\<lambda>f. rf_can_id f = k \<and> \<not> checksum_fine m f) vehicle_log)) (stats_at (cw_engine w) k)"
  proof (rule finished_replay [OF assms(1) vehicle_db_ok vehicle_log_events assms(5) [unfolded w0] assms(6)])
  qed (auto simp: w0 vehicle_known counted_def vehicle_log_filter sort_keeps_entries [OF assms(1)] intro: that)
  have mem: "(0x180, engine_message) \<in> set vehicle_db" "(0x1A0, brake_message) \<in> set vehicle_db"
      "(0x220, speed_message) \<in> set vehicle_db" "(0x2B0, steering_message) \<in> set vehicle_db"
    by (simp_all add: vehicle_db_def)
  note facts = vehicle_counters log_lengths log_gaps log_checksums list.size(3)
  have "counted 51 0 1 (stats_at (cw_engine w) 0x180)"
    using counts [OF mem(1) log_ascending(1)] vehicle_checksums [of engine_message] by (simp only: facts insert_iff simp_thms)
  moreover have "counted 51 0 0 (stats_at (cw_engine w) 0x1A0)"
    using counts [OF mem(2) log_ascending(2)] vehicle_checksums [of brake_message] by (simp only: facts insert_iff simp_thms)
  moreover have "counted 51 1 0 (stats_at (cw_engine w) 0x220)"
    using counts [OF mem(3) log_ascending(3)] vehicle_checksums [of speed_message] by (simp only: facts insert_iff simp_thms)
  moreover have "counted 71 0 0 (stats_at (cw_engine w) 0x2B0)"
    using counts [OF mem(4) log_ascending(4)] vehicle_checksums [of steering_message] by (simp only: facts insert_iff simp_thms)
  ultimately show ?thesis using out by blast
qed

definition sample_data :: "string \<Rightarrow> string option" where
  "sample_data p = (if p = ''data/dbc.json'' then Some (doc_text 0 vehicle_doc)
     else if p = ''data/frames.log'' then Some (log_text vehicle_log) else None)"

definition sample_argv :: "string list" where
  "sample_argv = [''can_decoder_demo'', ''--data-dir'', ''data'', ''--summary-only'']"

definition sample_acts :: "can_action list" where
  "sample_acts = [Clock_Advance 2000000000] @ replicate 676 Loop_Step"

theorem sample_replay_summary_witness:
  "\<exists>w0 w lines stats. can_prepare (sort_key rf_timestamp_ms) sample_data 0 sample_argv = Inr (Running w0) \<and>
     can_run sample_acts w0 = Inr w \<and> cw_out w = cw_out w0 @ lines @ summary_text vehicle_db stats 0 \<and>
     counted 51 0 1 (stats 0x180) \<and> counted 51 1 0 (stats 0x220)"
proof -
  define a where "a = default_can_args\<lparr>ca_data_dir := ''data'', ca_summary_only := True\<rparr>"
  define w0 where "w0 = can_start (sort_key rf_timestamp_ms) 0 a (vehicle_db, vehicle_log)"
  have files: "sample_data (''data'' @ ''/dbc.json'') = Some (doc_text 0 vehicle_doc)"
      "sample_data (''data'' @ ''/frames.log'') = Some (log_text vehicle_log)"
    by (simp_all add: sample_data_def)
  have "can_parseArgs sample_argv = Inr (Running a)" by (simp add: sample_argv_def can_parseArgs_def with_next_def a_def)
  then have prep: "can_prepare (sort_key rf_timestamp_ms) sample_data 0 sample_argv = Inr (Running w0)"
    using vehicle_files_load [OF files] by (simp add: can_prepare_def catch_exception_def a_def w0_def)
  have one: "dfinite (of_integer 1) \<and> dval (of_integer 1) = 1" using of_integer_exact [of 1] by simp
  have times: "0 \<le> rf_timestamp_ms f \<and> rf_timestamp_ms f \<le> 1000" if "f \<in> set vehicle_log" for f
    using that log_times by (auto simp: vehicle_log_def list_all_iff)
  have speed: "ca_speed a = of_integer 1" by (simp add: a_def default_can_args_def)
  have "input_ok vehicle_db vehicle_log a"
  proof (rule vehicle_input_ok)
    have "payload_ok (rf_data f)" if "f \<in> set vehicle_log" for f
      using that by (auto simp: vehicle_log_def payload_ok_def)
    then show "\<forall>f \<in> set vehicle_log. payload_ok (rf_data f) \<and> 0 \<le> rf_timestamp_ms f \<and> rf_timestamp_ms f < 2 ^ 32"
      using times by force
    show "speed_ok (ca_speed a)" using one speed by (simp add: speed_ok_def)
  qed
  moreover have "advances (replicate n Loop_Step) = 0" "length (filter (\<lambda>a. a = Loop_Step) (replicate n Loop_Step)) = n" for n
    by (induction n) simp_all
  moreover have "\<exists>t. target_wall w0 (rf_timestamp_ms f) = Inr t \<and> t \<le> 2000000000" if "f \<in> set vehicle_log" for f
    using times [OF that] speed
    by (subst default_speed_target) (simp_all add: w0_def can_start_def long_add_def long_check_def)
  moreover have "length vehicle_log = 224" unfolding vehicle_log_def length_map by code_simp
  ultimately obtain w where w: "can_run sample_acts w0 = Inr w" "cw_pc w = Can_Done"
    using replay_completes [OF sorts_by_sort_key, of vehicle_db vehicle_log a 0 "[Clock_Advance 2000000000]" "replicate 676 Loop_Step"]
    unfolding sample_acts_def w0_def by (auto simp: advances_append)
  have dir: "ca_data_dir (cw_args w0) = ''data''" by (simp add: w0_def can_start_simps a_def)
  show ?thesis
    using sample_replay_summary [OF sorts_by_sort_key prep files [folded dir] w] prep w(1) by blast
qed

end
