(* ===== verification/Can_Tests.thy ===== *)
theory Can_Tests
  imports Diagnostics Unit_Check
begin

text \<open>
  The unit tests of the CAN decoder, \<open>tests/test_can_decoder.cpp\<close>: each test as the checks it executes
  on the models of the signal codec and the diagnostics engine, and the outcome of the program, in
  which all 9 checks hold.
\<close>

section \<open>The tests\<close>

text \<open>The comparison \<open>==\<close> of two doubles.\<close>

definition double_eq :: "double \<Rightarrow> double \<Rightarrow> bool" where
  "double_eq x y \<longleftrightarrow> x \<noteq> NaN \<and> y \<noteq> NaN \<and> \<not> dless x y \<and> \<not> dless y x"

text \<open>A decimal literal is the double nearest to the fraction; the minus sign of a negative one is an operator.\<close>

abbreviation literal :: "nat \<Rightarrow> nat \<Rightarrow> double" where
  "literal num den \<equiv> round_frac False num den"

abbreviation neg_literal :: "nat \<Rightarrow> nat \<Rightarrow> double" where
  "neg_literal num den \<equiv> round_frac True num den"

definition test_intel_unsigned_decode :: "check list result" where
  "test_intel_unsigned_decode =
     (let data = [0x9C, 0x0C, 0x00, 0x90, 0x00, 0x00, 0x00, 0x00];
          rpm = default_signal\<lparr>sd_start_bit := 0, sd_length := 16, sd_scale := literal 1 4,
            sd_offset := of_integer 0, sd_is_signed := False\<rparr> in
      rbind (decodePhysical data rpm Intel) (\<lambda>val.
        Inr [(33, ''val == 807.0'', double_eq val (literal 807 1))]))"

definition test_intel_counter_and_checksum_fields :: "check list result" where
  "test_intel_counter_and_checksum_fields =
     (let data = [0x9C, 0x0C, 0x05, 0x90, 0x00, 0x00, 0x00, 0x00];
          counter = default_signal\<lparr>sd_start_bit := 16, sd_length := 4, sd_scale := of_integer 1,
            sd_is_signed := False\<rparr> in
      rbind (extractRaw data counter Intel) (\<lambda>c. Inr [(42, ''c == 0x5'', c = 0x5)]))"

definition test_motorola_signed_decode :: "check list result" where
  "test_motorola_signed_decode =
     (let data = [0xFF, 0x8B, 0x00, 0x74, 0x00, 0x00, 0x00, 0x00];
          steer = default_signal\<lparr>sd_start_bit := 0, sd_length := 16, sd_scale := literal 1 10,
            sd_offset := of_integer 0, sd_is_signed := True\<rparr> in
      rbind (decodePhysical data steer Motorola) (\<lambda>val.
        Inr [(52, ''val > -11.71 && val < -11.69'',
              dless (neg_literal 1171 100) val \<and> dless val (neg_literal 1169 100))]))"

definition test_motorola_counter_nibble :: "check list result" where
  "test_motorola_counter_nibble =
     (let data = [0xFF, 0x8B, 0xA0, 0x74, 0x00, 0x00, 0x00, 0x00];
          counter = default_signal\<lparr>sd_start_bit := 16, sd_length := 4, sd_scale := of_integer 1,
            sd_is_signed := False\<rparr> in
      rbind (extractRaw data counter Motorola) (\<lambda>c. Inr [(61, ''c == 0xA'', c = 0xA)]))"

text \<open>The test has its own copy of the loop over the payload, which skips byte 3.\<close>

definition test_checksum_xor_matches_sample_frame :: "check list result" where
  "test_checksum_xor_matches_sample_frame =
     (let data = [0xFF, 0x8B, 0x00, 0x74, 0x00, 0x00, 0x00, 0x00] in
      rbind (checksum_loop data 3 [0..7] 0) (\<lambda>computed.
        Inr [(74, ''computed == 0x74'', computed = 0x74)]))"

definition test_signed_sign_extension :: "check list result" where
  "test_signed_sign_extension =
     (let data = [0x08, 0, 0, 0, 0, 0, 0, 0];
          sig = default_signal\<lparr>sd_start_bit := 0, sd_length := 4, sd_scale := of_integer 1,
            sd_offset := of_integer 0, sd_is_signed := True\<rparr> in
      rbind (extractSigned data sig Intel) (\<lambda>val. Inr [(84, ''val == -8'', val = -8)]))"

definition gap_message :: message_def where
  "gap_message =
     (let counter = default_signal\<lparr>sd_name := ''counter'', sd_start_bit := 20, sd_length := 4, sd_scale := of_integer 1\<rparr>;
          checksum = default_signal\<lparr>sd_name := ''checksum'', sd_start_bit := 24, sd_length := 8, sd_scale := of_integer 1\<rparr>
      in default_message\<lparr>md_id := 0x220, md_name := ''VehicleSpeed'', md_period_ms := 20, md_byte_order := Intel,
        md_signals := [counter, checksum]\<rparr>)"

definition test_diagnostics_counter_gap_detection :: "check list result" where
  "test_diagnostics_counter_gap_detection =
     (let f1 = default_frame\<lparr>rf_timestamp_ms := 0, rf_can_id := 0x220, rf_dlc := 8,
            rf_data := [0x00, 0x00, 0x00, 0x00, 0x00, 0x00, 0x00, 0x00][3 := 0]\<rparr>;
          f2 = f1\<lparr>rf_timestamp_ms := 20, rf_data := (rf_data f1)[2 := 0x20]\<rparr> in
      rbind (onKnownFrame gap_message f1 new_engine) (\<lambda>(a1, diag).
      rbind (onKnownFrame gap_message f2 diag) (\<lambda>(a2, diag).
        let foundGap = list_ex (\<lambda>a. an_kind a = CounterGap) a2 in
        Inr [(119, ''foundGap'', foundGap)])))"

definition test_diagnostics_unknown_id :: "check list result" where
  "test_diagnostics_unknown_id =
     (let f = default_frame\<lparr>rf_timestamp_ms := 5, rf_can_id := 0x999, rf_dlc := 8\<rparr>;
          (a, diag) = onUnknownFrame f new_engine in
      Inr [(128, ''a.kind == AnomalyKind::UnknownId'', an_kind a = UnknownId),
           (129, ''diag.unknownFrameCount() == 1'', de_unknown_frame_count diag = 1)])"

section \<open>The program\<close>

definition can_tests :: "check list result list" where
  "can_tests =
     [test_intel_unsigned_decode, test_intel_counter_and_checksum_fields, test_motorola_signed_decode,
      test_motorola_counter_nibble, test_checksum_xor_matches_sample_frame, test_signed_sign_extension,
      test_diagnostics_counter_gap_detection, test_diagnostics_unknown_id]"

lemmas test_eval = extractRaw_eq extractSigned_eq payload_ok_def default_signal_def field_spec_def payload_be_def Let_def

lemma literals:
  "literal 1 4 = Finite False 4503599627370496 (-54)" "literal 807 1 = Finite False 7098447068921856 (-43)"
  "literal 1 10 = Finite False 7205759403792794 (-56)" "of_integer 3228 = Finite False 7098447068921856 (-41)"
  "neg_literal 1171 100 = Finite True 6592143954563564 (-49)" "neg_literal 1169 100 = Finite True 6580884955495137 (-49)"
  by (simp_all add: double_eval)

lemma raw_field_tests:
  "test_intel_counter_and_checksum_fields = Inr [(42, ''c == 0x5'', True)]"
  "test_motorola_counter_nibble = Inr [(61, ''c == 0xA'', True)]"
  "test_signed_sign_extension = Inr [(84, ''val == -8'', True)]"
  by (simp_all add: test_intel_counter_and_checksum_fields_def test_motorola_counter_nibble_def
      test_signed_sign_extension_def test_eval)

lemma unsigned_test: "test_intel_unsigned_decode = Inr [(33, ''val == 807.0'', True)]"
  by (simp add: test_intel_unsigned_decode_def decodePhysical_def test_eval literals double_eq_def double_eval)

lemma steering_test: "test_motorola_signed_decode = Inr [(52, ''val > -11.71 && val < -11.69'', True)]"
  by (simp add: test_motorola_signed_decode_def decodePhysical_def test_eval literals steering_product double_eval)

lemma checksum_test: "test_checksum_xor_matches_sample_frame = Inr [(74, ''computed == 0x74'', True)]"
  by (simp add: test_checksum_xor_matches_sample_frame_def upto.simps array_get_def)

lemma unknown_test:
  "test_diagnostics_unknown_id = Inr [(128, ''a.kind == AnomalyKind::UnknownId'', True),
     (129, ''diag.unknownFrameCount() == 1'', True)]"
  by (simp add: test_diagnostics_unknown_id_def onUnknownFrame_def new_engine_def)

lemma gap_test: "test_diagnostics_counter_gap_detection = Inr [(119, ''foundGap'', True)]"
  by (simp add: test_diagnostics_counter_gap_detection_def gap_message_def onKnownFrame_def counter_check_def
      checksum_check_def findSignal_def default_message_def default_frame_def new_engine_def
      update_stats_def u64_to_int_def int_add_def trunc_div_def trunc_mod_def upto.simps array_get_def test_eval)

lemma can_tests_pass:
  "test_main file can_tests = Inr (0, [newline] @ ''9/9 checks passed'' @ [newline])"
proof -
  have "list_all2 passes [1, 1, 1, 1, 1, 1, 1, 2] can_tests"
    by (simp add: can_tests_def passes_def raw_field_tests unsigned_test steering_test checksum_test unknown_test gap_test)
  from test_main_pass [OF this] show ?thesis by (simp add: dec_nat_def to_base.simps digit_char_def)
qed

end
