(* ===== verification/Agg_Vehicle_State.thy ===== *)
theory Agg_Vehicle_State
  imports Cpp_Double
begin

text \<open>
  The shared state of the sensor aggregator, \<open>task2_sensor_aggregator/src/vehicle_state.cpp\<close>: the
  three update operations and the snapshot with its staleness flags, each as one step that reads the
  clock once (\<open>Agg_Threads\<close> justifies this under the mutex), and what a snapshot shows of each sensor.
  Points in time are readings of the steady clock in nanoseconds, from 0 on.
\<close>

section \<open>Samples, state and snapshot\<close>

record gps_sample =
  gps_lat :: double
  gps_lon :: double
  gps_alt_m :: double
  gps_fix_quality :: int

record imu_sample =
  imu_accel_x :: double
  imu_accel_y :: double
  imu_accel_z :: double
  imu_gyro_x :: double
  imu_gyro_y :: double
  imu_gyro_z :: double

record encoder_sample =
  enc_left_ticks :: int
  enc_right_ticks :: int
  enc_speed_mps :: double

text \<open>Durations in milliseconds, and their conversion to the nanoseconds of the clock.\<close>

definition kGpsStaleAfter :: int where "kGpsStaleAfter = 500"

definition kImuStaleAfter :: int where "kImuStaleAfter = 50"

definition kEncoderStaleAfter :: int where "kEncoderStaleAfter = 100"

definition ms_to_ns :: "int \<Rightarrow> int" where
  "ms_to_ns d = d * 1000000"

record vehicle_snapshot =
  vs_gps :: "gps_sample option"
  vs_imu :: "imu_sample option"
  vs_encoder :: "encoder_sample option"
  vs_gps_stale :: bool
  vs_imu_stale :: bool
  vs_encoder_stale :: bool
  vs_gps_source_ts_ms :: int
  vs_imu_source_ts_ms :: int
  vs_encoder_source_ts_ms :: int

definition default_snapshot :: vehicle_snapshot where
  "default_snapshot = \<lparr>vs_gps = None, vs_imu = None, vs_encoder = None, vs_gps_stale = True,
     vs_imu_stale = True, vs_encoder_stale = True, vs_gps_source_ts_ms = -1, vs_imu_source_ts_ms = -1,
     vs_encoder_source_ts_ms = -1\<rparr>"

record agg_manager =
  am_gps :: "gps_sample option"
  am_imu :: "imu_sample option"
  am_encoder :: "encoder_sample option"
  am_gps_last_update :: int
  am_imu_last_update :: int
  am_encoder_last_update :: int
  am_gps_source_ts_ms :: int
  am_imu_source_ts_ms :: int
  am_encoder_source_ts_ms :: int

definition new_manager :: agg_manager where
  "new_manager = \<lparr>am_gps = None, am_imu = None, am_encoder = None, am_gps_last_update = 0,
     am_imu_last_update = 0, am_encoder_last_update = 0, am_gps_source_ts_ms = -1,
     am_imu_source_ts_ms = -1, am_encoder_source_ts_ms = -1\<rparr>"

section \<open>The operations\<close>

text \<open>\<open>now\<close> is the reading of \<open>Clock::now()\<close> inside the operation.\<close>

definition updateGps :: "gps_sample \<Rightarrow> int \<Rightarrow> int \<Rightarrow> agg_manager \<Rightarrow> agg_manager" where
  "updateGps s source_ts_ms now m =
     m\<lparr>am_gps := Some s, am_gps_last_update := now, am_gps_source_ts_ms := source_ts_ms\<rparr>"

definition updateImu :: "imu_sample \<Rightarrow> int \<Rightarrow> int \<Rightarrow> agg_manager \<Rightarrow> agg_manager" where
  "updateImu s source_ts_ms now m =
     m\<lparr>am_imu := Some s, am_imu_last_update := now, am_imu_source_ts_ms := source_ts_ms\<rparr>"

definition updateEncoder :: "encoder_sample \<Rightarrow> int \<Rightarrow> int \<Rightarrow> agg_manager \<Rightarrow> agg_manager" where
  "updateEncoder s source_ts_ms now m =
     m\<lparr>am_encoder := Some s, am_encoder_last_update := now, am_encoder_source_ts_ms := source_ts_ms\<rparr>"

definition snapshot :: "int \<Rightarrow> agg_manager \<Rightarrow> vehicle_snapshot" where
  "snapshot now m =
     default_snapshot\<lparr>vs_gps := am_gps m, vs_imu := am_imu m, vs_encoder := am_encoder m,
       vs_gps_source_ts_ms := am_gps_source_ts_ms m, vs_imu_source_ts_ms := am_imu_source_ts_ms m,
       vs_encoder_source_ts_ms := am_encoder_source_ts_ms m,
       vs_gps_stale := am_gps m = None \<or> ms_to_ns kGpsStaleAfter < now - am_gps_last_update m,
       vs_imu_stale := am_imu m = None \<or> ms_to_ns kImuStaleAfter < now - am_imu_last_update m,
       vs_encoder_stale := am_encoder m = None \<or> ms_to_ns kEncoderStaleAfter < now - am_encoder_last_update m\<rparr>"

text \<open>A call of one of the operations, and its effect as one step.\<close>

datatype agg_call =
    Update_Gps gps_sample int
  | Update_Imu imu_sample int
  | Update_Encoder encoder_sample int
  | Take_Snapshot

fun call_state :: "agg_call \<Rightarrow> int \<Rightarrow> agg_manager \<Rightarrow> agg_manager" where
  "call_state (Update_Gps s ts) now m = updateGps s ts now m"
| "call_state (Update_Imu s ts) now m = updateImu s ts now m"
| "call_state (Update_Encoder s ts) now m = updateEncoder s ts now m"
| "call_state Take_Snapshot now m = m"

fun call_value :: "agg_call \<Rightarrow> int \<Rightarrow> agg_manager \<Rightarrow> vehicle_snapshot option" where
  "call_value Take_Snapshot now m = Some (snapshot now m)"
| "call_value _ now m = None"

text \<open>A sequence of calls with their clock readings: the final state and the values returned.\<close>

fun state_after :: "(agg_call \<times> int) list \<Rightarrow> agg_manager \<Rightarrow> agg_manager" where
  "state_after [] m = m"
| "state_after ((c, now) # h) m = state_after h (call_state c now m)"

fun values_of :: "(agg_call \<times> int) list \<Rightarrow> agg_manager \<Rightarrow> vehicle_snapshot option list" where
  "values_of [] m = []"
| "values_of ((c, now) # h) m = call_value c now m # values_of h (call_state c now m)"

lemma state_after_append: "state_after (h @ h') m = state_after h' (state_after h m)"
  by (induction h m rule: state_after.induct) simp_all

lemma values_of_append: "values_of (h @ h') m = values_of h m @ values_of h' (state_after h m)"
  by (induction h m rule: state_after.induct) simp_all

lemma length_values_of [simp]: "length (values_of h m) = length h"
  by (induction h m rule: state_after.induct) simp_all

section \<open>One slot per sensor\<close>

text \<open>
  The contract the three sensors share: a view of the state that exactly one kind of call
  replaces.
\<close>

type_synonym 's slot = "'s option \<times> int \<times> int"

definition slot_of :: "('s \<times> int \<times> int) option \<Rightarrow> 's slot" where
  "slot_of u = (case u of None \<Rightarrow> (None, -1, 0) | Some (s, ts, now) \<Rightarrow> (Some s, ts, now))"

text \<open>What an update of one sensor leaves behind: the sample, its source time and the clock reading.\<close>

definition updates_by :: "(agg_call \<Rightarrow> ('s \<times> int) option) \<Rightarrow> agg_call \<times> int \<Rightarrow> ('s \<times> int \<times> int) option" where
  "updates_by f = (\<lambda>(c, now). map_option (\<lambda>(s, ts). (s, ts, now)) (f c))"

locale sensor_slot =
  fixes view :: "agg_manager \<Rightarrow> 's slot"
    and sample :: "agg_call \<Rightarrow> ('s \<times> int) option"
  assumes view_new: "view new_manager = (None, -1, 0)"
    and view_update: "sample c = Some (s, ts) \<Longrightarrow> view (call_state c now m) = (Some s, ts, now)"
    and view_other: "sample c = None \<Longrightarrow> view (call_state c now m) = view m"
begin

lemma view_step:
  "view (call_state c now m) =
     (case updates_by sample (c, now) of None \<Rightarrow> view m | Some u \<Rightarrow> slot_of (Some u))"
  by (cases "sample c") (auto simp: updates_by_def slot_of_def view_update view_other)

lemma view_after: "view m = slot_of old \<Longrightarrow> view (state_after h m) = slot_of (latest (updates_by sample) h old)"
proof (induction h m arbitrary: old rule: state_after.induct)
  case (2 c now h m)
  then show ?case by (auto simp: view_step intro!: "2.IH" split: option.split)
qed simp

lemma view_latest: "view (state_after h new_manager) = slot_of (latest (updates_by sample) h None)"
  by (rule view_after) (simp add: view_new slot_of_def)

end

definition gps_view :: "agg_manager \<Rightarrow> gps_sample slot" where
  "gps_view m = (am_gps m, am_gps_source_ts_ms m, am_gps_last_update m)"

definition imu_view :: "agg_manager \<Rightarrow> imu_sample slot" where
  "imu_view m = (am_imu m, am_imu_source_ts_ms m, am_imu_last_update m)"

definition encoder_view :: "agg_manager \<Rightarrow> encoder_sample slot" where
  "encoder_view m = (am_encoder m, am_encoder_source_ts_ms m, am_encoder_last_update m)"

fun gps_call :: "agg_call \<Rightarrow> (gps_sample \<times> int) option" where
  "gps_call (Update_Gps s ts) = Some (s, ts)"
| "gps_call _ = None"

fun imu_call :: "agg_call \<Rightarrow> (imu_sample \<times> int) option" where
  "imu_call (Update_Imu s ts) = Some (s, ts)"
| "imu_call _ = None"

fun encoder_call :: "agg_call \<Rightarrow> (encoder_sample \<times> int) option" where
  "encoder_call (Update_Encoder s ts) = Some (s, ts)"
| "encoder_call _ = None"

lemmas manager_defs = new_manager_def updateGps_def updateImu_def updateEncoder_def gps_view_def
  imu_view_def encoder_view_def

interpretation gps: sensor_slot gps_view gps_call
proof (unfold_locales, goal_cases)
  case (2 c s ts now m)
  then show ?case by (cases c) (simp_all add: manager_defs)
next
  case (3 c now m)
  then show ?case by (cases c) (simp_all add: manager_defs)
qed (simp add: manager_defs)

interpretation imu: sensor_slot imu_view imu_call
proof (unfold_locales, goal_cases)
  case (2 c s ts now m)
  then show ?case by (cases c) (simp_all add: manager_defs)
next
  case (3 c now m)
  then show ?case by (cases c) (simp_all add: manager_defs)
qed (simp add: manager_defs)

interpretation encoder: sensor_slot encoder_view encoder_call
proof (unfold_locales, goal_cases)
  case (2 c s ts now m)
  then show ?case by (cases c) (simp_all add: manager_defs)
next
  case (3 c now m)
  then show ?case by (cases c) (simp_all add: manager_defs)
qed (simp add: manager_defs)

section \<open>What a snapshot shows\<close>

text \<open>
  A sensor's part of a snapshot against the last update of the sensor: its sample, its source time,
  and whether it is older than a limit in milliseconds.
\<close>

definition shows_update :: "int \<Rightarrow> int \<Rightarrow> ('s \<times> int \<times> int) option \<Rightarrow> 's option \<Rightarrow> int \<Rightarrow> bool \<Rightarrow> bool" where
  "shows_update limit now u s ts stale =
     (case u of
        None \<Rightarrow> s = None \<and> ts = -1 \<and> stale
      | Some (s', ts', seen) \<Rightarrow> s = Some s' \<and> ts = ts' \<and> (stale \<longleftrightarrow> limit * 1000000 < now - seen))"

lemma shows_slot:
  "(s, ts, seen) = slot_of u \<Longrightarrow> shows_update limit now u s ts (s = None \<or> limit * 1000000 < now - seen)"
  by (auto simp: slot_of_def shows_update_def split: option.splits)

lemma slots_after:
  "(am_gps (state_after h new_manager), am_gps_source_ts_ms (state_after h new_manager),
      am_gps_last_update (state_after h new_manager)) = slot_of (latest (updates_by gps_call) h None)"
  "(am_imu (state_after h new_manager), am_imu_source_ts_ms (state_after h new_manager),
      am_imu_last_update (state_after h new_manager)) = slot_of (latest (updates_by imu_call) h None)"
  "(am_encoder (state_after h new_manager), am_encoder_source_ts_ms (state_after h new_manager),
      am_encoder_last_update (state_after h new_manager)) = slot_of (latest (updates_by encoder_call) h None)"
  using gps.view_latest [of h] imu.view_latest [of h] encoder.view_latest [of h]
  by (simp_all add: gps_view_def imu_view_def encoder_view_def)

text \<open>
  C19: after any sequence of updates and snapshots, a snapshot shows for each sensor the sample and
  the source time of its last update and flags it stale exactly when there was none or more than
  500, 50 and 100 milliseconds have passed since that update.
\<close>

theorem snapshot_shows_latest:
  "let snap = snapshot now (state_after h new_manager) in
     shows_update 500 now (latest (updates_by gps_call) h None) (vs_gps snap) (vs_gps_source_ts_ms snap)
       (vs_gps_stale snap) \<and>
     shows_update 50 now (latest (updates_by imu_call) h None) (vs_imu snap) (vs_imu_source_ts_ms snap)
       (vs_imu_stale snap) \<and>
     shows_update 100 now (latest (updates_by encoder_call) h None) (vs_encoder snap)
       (vs_encoder_source_ts_ms snap) (vs_encoder_stale snap)"
  using shows_slot [OF slots_after(1), of 500 now] shows_slot [OF slots_after(2), of 50 now]
    shows_slot [OF slots_after(3), of 100 now]
  by (simp add: snapshot_def default_snapshot_def ms_to_ns_def kGpsStaleAfter_def kImuStaleAfter_def
      kEncoderStaleAfter_def Let_def)

end
