(* ===== verification/Agg_Threads.thy ===== *)
theory Agg_Threads
  imports Agg_Vehicle_State
begin

text \<open>
  The threads of the sensor aggregator around the one mutex of \<open>VehicleStateManager\<close>: any number of
  threads call its operations, whose bodies run one assignment or one reading of the clock at a
  time. Every run is equivalent to the atomic operations of \<open>Agg_Vehicle_State\<close> in the order in
  which the mutex was taken.
\<close>

section \<open>Bodies in single steps\<close>

text \<open>The local variables of a call: \<open>now\<close> and \<open>snap\<close>.\<close>

record call_frame =
  cf_now :: int
  cf_snap :: vehicle_snapshot

definition start_frame :: call_frame where
  "start_frame = \<lparr>cf_now = 0, cf_snap = default_snapshot\<rparr>"

text \<open>A step reads the clock and changes the shared state or the local variables.\<close>

type_synonym micro = "int \<Rightarrow> agg_manager \<times> call_frame \<Rightarrow> agg_manager \<times> call_frame"

definition on_shared :: "(int \<Rightarrow> agg_manager \<Rightarrow> agg_manager) \<Rightarrow> micro" where
  "on_shared f now = (\<lambda>(m, fr). (f now m, fr))"

definition on_snap :: "(agg_manager \<Rightarrow> call_frame \<Rightarrow> vehicle_snapshot) \<Rightarrow> micro" where
  "on_snap f now = (\<lambda>(m, fr). (m, fr\<lparr>cf_snap := f m fr\<rparr>))"

definition read_clock :: micro where
  "read_clock now = (\<lambda>(m, fr). (m, fr\<lparr>cf_now := now\<rparr>))"

fun call_body :: "agg_call \<Rightarrow> micro list" where
  "call_body (Update_Gps s ts) =
     [on_shared (\<lambda>_ m. m\<lparr>am_gps := Some s\<rparr>),
      on_shared (\<lambda>now m. m\<lparr>am_gps_last_update := now\<rparr>),
      on_shared (\<lambda>_ m. m\<lparr>am_gps_source_ts_ms := ts\<rparr>)]"
| "call_body (Update_Imu s ts) =
     [on_shared (\<lambda>_ m. m\<lparr>am_imu := Some s\<rparr>),
      on_shared (\<lambda>now m. m\<lparr>am_imu_last_update := now\<rparr>),
      on_shared (\<lambda>_ m. m\<lparr>am_imu_source_ts_ms := ts\<rparr>)]"
| "call_body (Update_Encoder s ts) =
     [on_shared (\<lambda>_ m. m\<lparr>am_encoder := Some s\<rparr>),
      on_shared (\<lambda>now m. m\<lparr>am_encoder_last_update := now\<rparr>),
      on_shared (\<lambda>_ m. m\<lparr>am_encoder_source_ts_ms := ts\<rparr>)]"
| "call_body Take_Snapshot =
     [read_clock,
      on_snap (\<lambda>m fr. (cf_snap fr)\<lparr>vs_gps := am_gps m\<rparr>),
      on_snap (\<lambda>m fr. (cf_snap fr)\<lparr>vs_imu := am_imu m\<rparr>),
      on_snap (\<lambda>m fr. (cf_snap fr)\<lparr>vs_encoder := am_encoder m\<rparr>),
      on_snap (\<lambda>m fr. (cf_snap fr)\<lparr>vs_gps_source_ts_ms := am_gps_source_ts_ms m\<rparr>),
      on_snap (\<lambda>m fr. (cf_snap fr)\<lparr>vs_imu_source_ts_ms := am_imu_source_ts_ms m\<rparr>),
      on_snap (\<lambda>m fr. (cf_snap fr)\<lparr>vs_encoder_source_ts_ms := am_encoder_source_ts_ms m\<rparr>),
      on_snap (\<lambda>m fr. (cf_snap fr)\<lparr>vs_gps_stale :=
        am_gps m = None \<or> ms_to_ns kGpsStaleAfter < cf_now fr - am_gps_last_update m\<rparr>),
      on_snap (\<lambda>m fr. (cf_snap fr)\<lparr>vs_imu_stale :=
        am_imu m = None \<or> ms_to_ns kImuStaleAfter < cf_now fr - am_imu_last_update m\<rparr>),
      on_snap (\<lambda>m fr. (cf_snap fr)\<lparr>vs_encoder_stale :=
        am_encoder m = None \<or> ms_to_ns kEncoderStaleAfter < cf_now fr - am_encoder_last_update m\<rparr>)]"

fun call_result :: "agg_call \<Rightarrow> call_frame \<Rightarrow> vehicle_snapshot option" where
  "call_result Take_Snapshot fr = Some (cf_snap fr)"
| "call_result _ fr = None"

text \<open>Running steps, each at its own clock reading.\<close>

fun exec_micros :: "micro list \<Rightarrow> int list \<Rightarrow> agg_manager \<times> call_frame \<Rightarrow> agg_manager \<times> call_frame" where
  "exec_micros (f # fs) (n # ns) st = exec_micros fs ns (f n st)"
| "exec_micros _ _ st = st"

lemma exec_micros_append:
  "length ns = length fs \<Longrightarrow> exec_micros (fs @ gs) (ns @ ks) st = exec_micros gs ks (exec_micros fs ns st)"
  by (induction fs ns st rule: exec_micros.induct) auto

text \<open>A whole body has the effect of the operation at one of its clock readings.\<close>

lemma body_effect:
  assumes "length ns = length (call_body c)" and "exec_micros (call_body c) ns (m, start_frame) = (m', fr)"
  shows "\<exists>n \<in> set ns. m' = call_state c n m \<and> call_result c fr = call_value c n m"
proof (cases c)
  case (Update_Gps s ts)
  with assms show ?thesis
    by (auto simp: length_Suc_conv on_shared_def updateGps_def)
next
  case (Update_Imu s ts)
  with assms show ?thesis
    by (auto simp: length_Suc_conv on_shared_def updateImu_def)
next
  case (Update_Encoder s ts)
  with assms show ?thesis
    by (auto simp: length_Suc_conv on_shared_def updateEncoder_def)
next
  case Take_Snapshot
  then obtain n ks where ns: "ns = n # ks" "length ks = 9" using assms(1) by (cases ns) auto
  then obtain k1 k2 k3 k4 k5 k6 k7 k8 k9 where ks: "ks = [k1, k2, k3, k4, k5, k6, k7, k8, k9]"
    by (auto simp: length_Suc_conv numeral_eq_Suc)
  have "m' = m" and "fr = \<lparr>cf_now = n, cf_snap = snapshot n m\<rparr>"
    using assms(2) unfolding Take_Snapshot ns(1) ks
    by (auto simp: read_clock_def on_snap_def start_frame_def snapshot_def default_snapshot_def)
  then show ?thesis by (simp add: Take_Snapshot ns(1))
qed

section \<open>The machine\<close>

datatype thread_control = Outside | Inside agg_call "micro list" call_frame

record agg_system =
  sy_clock :: int
  sy_mutex :: "nat option"
  sy_shared :: agg_manager
  sy_program :: "nat \<Rightarrow> agg_call list"
  sy_control :: "nat \<Rightarrow> thread_control"
  sy_log :: "(nat \<times> agg_call \<times> vehicle_snapshot option) list"

definition start_system :: "(nat \<Rightarrow> agg_call list) \<Rightarrow> agg_system" where
  "start_system progs = \<lparr>sy_clock = 0, sy_mutex = None, sy_shared = new_manager, sy_program = progs,
     sy_control = (\<lambda>_. Outside), sy_log = []\<rparr>"

text \<open>
  The scheduler lets the clock advance or one thread make one step: take the mutex and enter the
  body of its next call, run one step of the body, or leave it and record the value returned. Only
  taking the mutex asks whether it is free.
\<close>

inductive agg_step :: "agg_system \<Rightarrow> agg_system \<Rightarrow> bool" where
  tick: "0 \<le> d \<Longrightarrow> agg_step s (s\<lparr>sy_clock := sy_clock s + d\<rparr>)"
| acquire: "sy_control s t = Outside \<Longrightarrow> sy_program s t = c # cs \<Longrightarrow> sy_mutex s = None \<Longrightarrow>
    agg_step s (s\<lparr>sy_mutex := Some t, sy_program := (sy_program s)(t := cs),
      sy_control := (sy_control s)(t := Inside c (call_body c) start_frame)\<rparr>)"
| body: "sy_control s t = Inside c (f # fs) fr \<Longrightarrow> f (sy_clock s) (sy_shared s, fr) = (m', fr') \<Longrightarrow>
    agg_step s (s\<lparr>sy_shared := m', sy_control := (sy_control s)(t := Inside c fs fr')\<rparr>)"
| release: "sy_control s t = Inside c [] fr \<Longrightarrow>
    agg_step s (s\<lparr>sy_mutex := None, sy_control := (sy_control s)(t := Outside),
      sy_log := sy_log s @ [(t, c, call_result c fr)]\<rparr>)"

inductive agg_reachable :: "(nat \<Rightarrow> agg_call list) \<Rightarrow> agg_system \<Rightarrow> bool" for progs where
  init: "agg_reachable progs (start_system progs)"
| step: "agg_reachable progs s \<Longrightarrow> agg_step s s' \<Longrightarrow> agg_reachable progs s'"

section \<open>Equivalence with the atomic operations\<close>

definition log_calls :: "agg_system \<Rightarrow> agg_call list" where
  "log_calls s = map (\<lambda>(t, c, v). c) (sy_log s)"

definition log_values :: "agg_system \<Rightarrow> vehicle_snapshot option list" where
  "log_values s = map (\<lambda>(t, c, v). v) (sy_log s)"

definition thread_calls :: "nat \<Rightarrow> agg_system \<Rightarrow> agg_call list" where
  "thread_calls t s = map (\<lambda>(_, c, v). c) (filter (\<lambda>(t', c, v). t' = t) (sy_log s))"

text \<open>The calls completed so far, each at one clock reading, explain values and state.\<close>

definition explained :: "int list \<Rightarrow> agg_system \<Rightarrow> bool" where
  "explained rs s \<longleftrightarrow>
     length rs = length (sy_log s) \<and> sorted rs \<and> (\<forall>n \<in> set rs. n \<le> sy_clock s) \<and>
     log_values s = values_of (zip (log_calls s) rs) new_manager"

definition settled :: "int list \<Rightarrow> agg_system \<Rightarrow> agg_manager" where
  "settled rs s = state_after (zip (log_calls s) rs) new_manager"

text \<open>The thread inside a body has run some of its steps on the settled state.\<close>

definition half_way :: "int list \<Rightarrow> agg_call \<Rightarrow> micro list \<Rightarrow> call_frame \<Rightarrow> agg_system \<Rightarrow> bool" where
  "half_way rs c rest fr s \<longleftrightarrow>
     (\<exists>ds ns. call_body c = ds @ rest \<and> length ns = length ds \<and> sorted (rs @ ns) \<and>
        (\<forall>n \<in> set ns. n \<le> sy_clock s) \<and>
        exec_micros ds ns (settled rs s, start_frame) = (sy_shared s, fr))"

definition mutex_inv :: "agg_system \<Rightarrow> bool" where
  "mutex_inv s \<longleftrightarrow>
     (\<exists>rs. explained rs s \<and>
        (case sy_mutex s of
           None \<Rightarrow> (\<forall>t. sy_control s t = Outside) \<and> sy_shared s = settled rs s
         | Some t \<Rightarrow> (\<forall>t'. t' \<noteq> t \<longrightarrow> sy_control s t' = Outside) \<and>
             (\<exists>c rest fr. sy_control s t = Inside c rest fr \<and> half_way rs c rest fr s)))"

lemma explained_mono: "explained rs s \<Longrightarrow> sy_log s' = sy_log s \<Longrightarrow> sy_clock s \<le> sy_clock s' \<Longrightarrow> explained rs s'"
  by (force simp: explained_def log_values_def log_calls_def)

lemma half_way_start: "explained rs s \<Longrightarrow> sy_shared s = settled rs s \<Longrightarrow> half_way rs c (call_body c) start_frame s"
  unfolding half_way_def by (intro exI [of _ "[]"]) (simp add: explained_def)

lemma half_way_cong:
  "sy_log s' = sy_log s \<Longrightarrow> sy_shared s' = sy_shared s \<Longrightarrow> sy_clock s \<le> sy_clock s' \<Longrightarrow>
     half_way rs c rest fr s \<Longrightarrow> half_way rs c rest fr s'"
  unfolding half_way_def settled_def log_calls_def by (elim exE) (rule_tac x = ds in exI, force)

lemma half_way_step:
  assumes "half_way rs c (f # fs) fr s" and "explained rs s"
    and "f (sy_clock s) (sy_shared s, fr) = (m', fr')"
    and "sy_log s' = sy_log s" and "sy_clock s' = sy_clock s" and "sy_shared s' = m'"
  shows "half_way rs c fs fr' s'"
proof -
  obtain ds ns where h: "call_body c = ds @ f # fs" "length ns = length ds" "sorted (rs @ ns)"
      "\<forall>n \<in> set ns. n \<le> sy_clock s" "exec_micros ds ns (settled rs s, start_frame) = (sy_shared s, fr)"
    using assms(1) unfolding half_way_def by blast
  have "sorted (rs @ ns @ [sy_clock s])"
    using h(3,4) assms(2) by (auto simp: sorted_append explained_def)
  moreover have "exec_micros (ds @ [f]) (ns @ [sy_clock s]) (settled rs s, start_frame) = (m', fr')"
    using h(5) assms(3) by (simp add: exec_micros_append [OF h(2)])
  ultimately show ?thesis
    unfolding half_way_def settled_def log_calls_def assms(4,5,6)
    using h by (intro exI [of _ "ds @ [f]"] exI [of _ "ns @ [sy_clock s]"])
      (auto simp: settled_def log_calls_def)
qed

lemma half_way_end:
  assumes "half_way rs c [] fr s" and "explained rs s"
    and "sy_log s' = sy_log s @ [(t, c, call_result c fr)]" and "sy_clock s' = sy_clock s" and "sy_shared s' = sy_shared s"
  shows "\<exists>n. explained (rs @ [n]) s' \<and> sy_shared s' = settled (rs @ [n]) s'"
proof -
  obtain ns where h: "length ns = length (call_body c)" "sorted (rs @ ns)" "\<forall>n \<in> set ns. n \<le> sy_clock s"
      "exec_micros (call_body c) ns (settled rs s, start_frame) = (sy_shared s, fr)"
    using assms(1) unfolding half_way_def by auto
  obtain n where n: "n \<in> set ns" "sy_shared s = call_state c n (settled rs s)"
      "call_result c fr = call_value c n (settled rs s)"
    using body_effect [OF h(1,4)] by blast
  have len: "length (log_calls s) = length rs" using assms(2) by (simp add: explained_def log_calls_def)
  have "explained (rs @ [n]) s'"
    using assms(2) n h(2,3) len
    by (auto simp: explained_def assms(3,4) log_values_def log_calls_def values_of_append settled_def sorted_append)
  moreover have "sy_shared s' = settled (rs @ [n]) s'"
    using n(2) len by (simp add: settled_def log_calls_def assms(3,5) state_after_append)
  ultimately show ?thesis by blast
qed

lemma mutex_inv_start: "mutex_inv (start_system progs)"
  unfolding mutex_inv_def
  by (rule exI [of _ "[]"])
     (simp add: start_system_def explained_def settled_def log_values_def log_calls_def)

lemma mutex_inv_step: "agg_step s s' \<Longrightarrow> mutex_inv s \<Longrightarrow> mutex_inv s'"
proof (induction rule: agg_step.induct)
  case (tick d s)
  then obtain rs where e: "explained rs s" and
    c: "case sy_mutex s of
           None \<Rightarrow> (\<forall>t. sy_control s t = Outside) \<and> sy_shared s = settled rs s
         | Some t \<Rightarrow> (\<forall>t'. t' \<noteq> t \<longrightarrow> sy_control s t' = Outside) \<and>
             (\<exists>c rest fr. sy_control s t = Inside c rest fr \<and> half_way rs c rest fr s)"
    unfolding mutex_inv_def by blast
  let ?s = "s\<lparr>sy_clock := sy_clock s + d\<rparr>"
  have "explained rs ?s" using e tick(1) by (intro explained_mono [OF e]) simp_all
  moreover have "half_way rs c rest fr s \<Longrightarrow> half_way rs c rest fr ?s" for c rest fr
    using tick(1) by (intro half_way_cong [of ?s s]) simp_all
  ultimately show ?case using c
    unfolding mutex_inv_def by (intro exI [of _ rs]) (auto simp: settled_def log_calls_def split: option.splits)
next
  case (acquire s t c cs)
  then obtain rs where e: "explained rs s" and c: "\<forall>t. sy_control s t = Outside" "sy_shared s = settled rs s"
    unfolding mutex_inv_def by auto
  let ?s = "s\<lparr>sy_mutex := Some t, sy_program := (sy_program s)(t := cs),
      sy_control := (sy_control s)(t := Inside c (call_body c) start_frame)\<rparr>"
  have e': "explained rs ?s" by (rule explained_mono [OF e]) simp_all
  moreover have "half_way rs c (call_body c) start_frame ?s"
    using c(2) by (intro half_way_start [OF e']) (simp add: settled_def log_calls_def)
  ultimately show ?case using c(1) unfolding mutex_inv_def by (intro exI [of _ rs]) auto
next
  case (body s t c f fs fr m' fr')
  then obtain rs where e: "explained rs s" and mt: "sy_mutex s = Some t" and
    c: "\<forall>t'. t' \<noteq> t \<longrightarrow> sy_control s t' = Outside" "half_way rs c (f # fs) fr s"
    unfolding mutex_inv_def by (auto split: option.splits) (metis thread_control.distinct(1) thread_control.inject)
  let ?s = "s\<lparr>sy_shared := m', sy_control := (sy_control s)(t := Inside c fs fr')\<rparr>"
  have "explained rs ?s" by (rule explained_mono [OF e]) simp_all
  moreover have "half_way rs c fs fr' ?s" by (rule half_way_step [OF c(2) e body(2)]) simp_all
  ultimately show ?case using c(1) mt unfolding mutex_inv_def by (intro exI [of _ rs]) auto
next
  case (release s t c fr)
  then obtain rs where e: "explained rs s" and mt: "sy_mutex s = Some t" and
    c: "\<forall>t'. t' \<noteq> t \<longrightarrow> sy_control s t' = Outside" "half_way rs c [] fr s"
    unfolding mutex_inv_def by (auto split: option.splits) (metis thread_control.distinct(1) thread_control.inject)
  let ?s = "s\<lparr>sy_mutex := None, sy_control := (sy_control s)(t := Outside),
      sy_log := sy_log s @ [(t, c, call_result c fr)]\<rparr>"
  obtain n where "explained (rs @ [n]) ?s" "sy_shared ?s = settled (rs @ [n]) ?s"
    using half_way_end [OF c(2) e, of ?s t] by auto
  then show ?case using c(1) unfolding mutex_inv_def by (intro exI [of _ "rs @ [n]"]) auto
qed

lemma reachable_mutex_inv: "agg_reachable progs s \<Longrightarrow> mutex_inv s"
  by (induction rule: agg_reachable.induct) (auto intro: mutex_inv_start mutex_inv_step)

text \<open>Every thread makes its calls in the order of its program.\<close>

definition ongoing :: "nat \<Rightarrow> agg_system \<Rightarrow> agg_call list" where
  "ongoing t s = (case sy_control s t of Outside \<Rightarrow> [] | Inside c _ _ \<Rightarrow> [c])"

lemma program_order_step:
  "agg_step s s' \<Longrightarrow> thread_calls t s' @ ongoing t s' @ sy_program s' t = thread_calls t s @ ongoing t s @ sy_program s t"
  by (induction rule: agg_step.induct) (auto simp: thread_calls_def ongoing_def)

lemma program_order: "agg_reachable progs s \<Longrightarrow> thread_calls t s @ ongoing t s @ sy_program s t = progs t"
proof (induction rule: agg_reachable.induct)
  case init
  show ?case by (simp add: start_system_def thread_calls_def ongoing_def)
next
  case (step s s')
  then show ?case using program_order_step by simp
qed

section \<open>No deadlock\<close>

text \<open>While the mutex is free, any thread with a call left can complete it.\<close>

lemma run_body:
  "agg_reachable progs s \<Longrightarrow> sy_control s t = Inside c fs fr \<Longrightarrow>
     exec_micros fs (replicate (length fs) (sy_clock s)) (sy_shared s, fr) = (m', fr') \<Longrightarrow>
     agg_reachable progs (s\<lparr>sy_shared := m', sy_control := (sy_control s)(t := Inside c [] fr')\<rparr>)"
proof (induction fs arbitrary: s fr)
  case Nil
  then have "s\<lparr>sy_shared := m', sy_control := (sy_control s)(t := Inside c [] fr')\<rparr> = s"
    by (cases s) (auto simp: fun_eq_iff)
  with Nil(1) show ?case by (simp only:)
next
  case (Cons f fs)
  obtain m1 fr1 where f: "f (sy_clock s) (sy_shared s, fr) = (m1, fr1)" by fastforce
  let ?s = "s\<lparr>sy_shared := m1, sy_control := (sy_control s)(t := Inside c fs fr1)\<rparr>"
  have "agg_reachable progs ?s"
    using Cons.prems(1) body [OF Cons.prems(2) f] by (rule agg_reachable.step)
  from Cons.IH [OF this, of fr1] Cons.prems(3) f show ?case by (simp cong: if_cong)
qed

lemma complete_call:
  assumes "agg_reachable progs s" and "sy_mutex s = None" and "sy_control s t = Outside" and "sy_program s t = c # cs"
  shows "agg_reachable progs (s\<lparr>sy_shared := call_state c (sy_clock s) (sy_shared s),
     sy_program := (sy_program s)(t := cs),
     sy_log := sy_log s @ [(t, c, call_value c (sy_clock s) (sy_shared s))]\<rparr>)"
proof -
  let ?ns = "replicate (length (call_body c)) (sy_clock s)"
  let ?s1 = "s\<lparr>sy_mutex := Some t, sy_program := (sy_program s)(t := cs),
      sy_control := (sy_control s)(t := Inside c (call_body c) start_frame)\<rparr>"
  obtain m' fr where r: "exec_micros (call_body c) ?ns (sy_shared s, start_frame) = (m', fr)" by fastforce
  from body_effect [OF _ r] have e: "m' = call_state c (sy_clock s) (sy_shared s)"
      "call_result c fr = call_value c (sy_clock s) (sy_shared s)" by auto
  have "agg_reachable progs ?s1" using assms(1) acquire [OF assms(3,4,2)] by (rule agg_reachable.step)
  then have 2: "agg_reachable progs (?s1\<lparr>sy_shared := m', sy_control := (sy_control ?s1)(t := Inside c [] fr)\<rparr>)"
    using r by (intro run_body) auto
  have "agg_reachable progs (s\<lparr>sy_program := (sy_program s)(t := cs), sy_shared := m',
      sy_mutex := None, sy_control := (sy_control s)(t := Outside),
      sy_log := sy_log s @ [(t, c, call_result c fr)]\<rparr>)"
    using agg_reachable.step [OF 2 release, of t c fr] by simp
  moreover have "s\<lparr>sy_program := (sy_program s)(t := cs), sy_shared := m', sy_mutex := None,
      sy_control := (sy_control s)(t := Outside), sy_log := sy_log s @ [(t, c, call_result c fr)]\<rparr> =
    s\<lparr>sy_shared := call_state c (sy_clock s) (sy_shared s), sy_program := (sy_program s)(t := cs),
      sy_log := sy_log s @ [(t, c, call_value c (sy_clock s) (sy_shared s))]\<rparr>"
    using assms(2,3) e by (cases s) (auto simp: fun_eq_iff)
  ultimately show ?thesis by (simp only:)
qed

section \<open>The property\<close>

text \<open>
  C5: the mutex makes the operations atomic. In every state that any number of threads can reach,
  at most the holder of the mutex is inside an operation, every thread has made its calls in the
  order of its program, and there are increasing clock readings, one per completed call, with which
  the atomic operations, run in the order of completion, return exactly the values the threads were
  given and, while the mutex is free, leave exactly the shared state.
\<close>

theorem mutex_linearizes:
  assumes "agg_reachable progs s"
  shows "(\<forall>t. sy_control s t \<noteq> Outside \<longrightarrow> sy_mutex s = Some t) \<and>
     (\<forall>t. thread_calls t s @ ongoing t s @ sy_program s t = progs t) \<and>
     (\<exists>rs. length rs = length (sy_log s) \<and> sorted rs \<and> (\<forall>n \<in> set rs. n \<le> sy_clock s) \<and>
        log_values s = values_of (zip (log_calls s) rs) new_manager \<and>
        (sy_mutex s = None \<longrightarrow> sy_shared s = state_after (zip (log_calls s) rs) new_manager))"
proof -
  from reachable_mutex_inv [OF assms] obtain rs where e: "explained rs s" and
    c: "case sy_mutex s of
           None \<Rightarrow> (\<forall>t. sy_control s t = Outside) \<and> sy_shared s = settled rs s
         | Some t \<Rightarrow> (\<forall>t'. t' \<noteq> t \<longrightarrow> sy_control s t' = Outside) \<and>
             (\<exists>c rest fr. sy_control s t = Inside c rest fr \<and> half_way rs c rest fr s)"
    unfolding mutex_inv_def by blast
  have "\<forall>t. sy_control s t \<noteq> Outside \<longrightarrow> sy_mutex s = Some t"
    using c by (cases "sy_mutex s") (simp, simp, metis)
  moreover have "sy_mutex s = None \<longrightarrow> sy_shared s = settled rs s" using c by auto
  ultimately show ?thesis using e program_order [OF assms]
    unfolding explained_def settled_def by (intro conjI exI [of _ rs]) auto
qed

text \<open>A run of two threads: an update waits for nothing, the snapshot of the other thread follows.\<close>

definition sample_imu :: imu_sample where
  "sample_imu = \<lparr>imu_accel_x = dzero False, imu_accel_y = dzero False, imu_accel_z = dzero False,
     imu_gyro_x = dzero False, imu_gyro_y = dzero False, imu_gyro_z = dzero False\<rparr>"

definition sample_progs :: "nat \<Rightarrow> agg_call list" where
  "sample_progs t = (if t = 0 then [Update_Imu sample_imu 7] else if t = 1 then [Take_Snapshot] else [])"

lemma sample_run:
  "\<exists>s. agg_reachable sample_progs s \<and> sy_mutex s = None \<and>
     sy_log s = [(0, Update_Imu sample_imu 7, None), (1, Take_Snapshot, Some (snapshot 0 (updateImu sample_imu 7 0 new_manager)))]"
proof -
  let ?s = "start_system sample_progs"
  from complete_call [OF agg_reachable.init [of sample_progs], of 0 "Update_Imu sample_imu 7" "[]"]
  have "agg_reachable sample_progs (?s\<lparr>sy_shared := updateImu sample_imu 7 0 new_manager,
      sy_program := sample_progs(0 := []), sy_log := [(0, Update_Imu sample_imu 7, None)]\<rparr>)"
    by (simp add: start_system_def sample_progs_def)
  from complete_call [OF this, of 1 Take_Snapshot "[]"] show ?thesis
    by (intro exI [of _ "?s\<lparr>sy_shared := updateImu sample_imu 7 0 new_manager,
         sy_program := (sample_progs(0 := []))(1 := []),
         sy_log := [(0, Update_Imu sample_imu 7, None), (1, Take_Snapshot, Some (snapshot 0 (updateImu sample_imu 7 0 new_manager)))]\<rparr>"])
       (simp add: start_system_def sample_progs_def)
qed

theorem mutex_linearizes_witness:
  "\<exists>s rs. length (sy_log s) = 2 \<and> length rs = 2 \<and> sorted rs \<and>
     log_values s = values_of (zip [Update_Imu sample_imu 7, Take_Snapshot] rs) new_manager \<and>
     sy_shared s = state_after (zip [Update_Imu sample_imu 7, Take_Snapshot] rs) new_manager"
proof -
  obtain s where s: "agg_reachable sample_progs s" "sy_mutex s = None"
     "sy_log s = [(0, Update_Imu sample_imu 7, None), (1, Take_Snapshot, Some (snapshot 0 (updateImu sample_imu 7 0 new_manager)))]"
    using sample_run by blast
  have "log_calls s = [Update_Imu sample_imu 7, Take_Snapshot]" by (simp add: log_calls_def s(3))
  moreover from mutex_linearizes [OF s(1)] obtain rs where "length rs = length (sy_log s)" "sorted rs"
    "log_values s = values_of (zip (log_calls s) rs) new_manager"
    "sy_mutex s = None \<longrightarrow> sy_shared s = state_after (zip (log_calls s) rs) new_manager"
    by (elim conjE exE) (rule that; assumption)
  ultimately show ?thesis using s(2,3) by (intro exI [of _ s] exI [of _ rs]) (simp del: values_of.simps state_after.simps)
qed

end
