(* ===== verification/Sensor_Producer.thy ===== *)
theory Sensor_Producer
  imports Cpp_Double
begin

text \<open>
  The replay thread of one sensor log, \<open>task2_sensor_aggregator/src/sensor_producer.cpp\<close>: the members
  of \<open>SensorReplayProducer\<close>, its operations, and \<open>run\<close> as a machine that makes one access to the
  shared flag, the clock or the condition variable per step. A schedule interleaves the steps of the
  thread with the passing of time, with \<open>requestStop\<close> and with wake-ups of the condition variable.
\<close>

section \<open>Members and operations\<close>

text \<open>
  \<open>re_apply\<close> stands for the callback: the call it will make. Points in time are clock readings in
  nanoseconds, \<open>rp_stall_duration\<close> is in milliseconds.
\<close>

record 'a replay_event =
  re_ts_ms :: int
  re_apply :: 'a

record 'a producer =
  rp_name :: string
  rp_events :: "'a replay_event list"
  rp_replay_start :: int
  rp_speed_factor :: double
  rp_stall_after_ms :: int
  rp_stall_duration :: int
  rp_stop_requested :: bool
  rp_finished :: bool

text \<open>The constructor sorts with \<open>std::sort\<close>, the first argument.\<close>

definition new_producer ::
    "('a replay_event list \<Rightarrow> 'a replay_event list) \<Rightarrow> string \<Rightarrow> 'a replay_event list \<Rightarrow> int \<Rightarrow> double \<Rightarrow> 'a producer" where
  "new_producer std_sort name events replay_start speed_factor =
     \<lparr>rp_name = name, rp_events = std_sort events, rp_replay_start = replay_start,
      rp_speed_factor = speed_factor, rp_stall_after_ms = -1, rp_stall_duration = 0,
      rp_stop_requested = False, rp_finished = False\<rparr>"

definition injectStall :: "int \<Rightarrow> int \<Rightarrow> ('a, 'm) producer_scheme \<Rightarrow> ('a, 'm) producer_scheme" where
  "injectStall stall_after_ms stall_duration p =
     p\<lparr>rp_stall_after_ms := stall_after_ms, rp_stall_duration := stall_duration\<rparr>"

section \<open>The thread\<close>

text \<open>
  The points of \<open>run\<close> between two accesses to shared data. Each of the two waits first tests the stop
  flag under the lock; when the flag is not set the thread goes on to block, and from then on the
  condition variable can wake it. The deadline of the wait is part of the point.
\<close>

datatype run_pc =
    Not_Started
  | Loop_Head
  | Stall_Begin
  | Stall_Test int
  | Stall_Enter int
  | Stall_Wait int
  | Stall_Done
  | Reanchor
  | Set_Target
  | Target_Test int
  | Target_Enter int
  | Target_Wait int
  | Target_Done
  | Apply_Event
  | Store_Finished
  | Terminated

text \<open>
  The object together with its thread: the program point, the events the loop has not finished, of
  which the first is \<open>ev\<close>, the local \<open>stalled_once\<close>, whether the condition variable has woken the
  blocked thread, and the clock. The log holds the events applied so far, with the time.
\<close>

record 'a replay = "'a producer" +
  rs_pc :: run_pc
  rs_rest :: "'a replay_event list"
  rs_stalled_once :: bool
  rs_notified :: bool
  rs_clock :: int
  rs_log :: "(int \<times> 'a replay_event) list"

definition replay_of :: "int \<Rightarrow> 'a producer \<Rightarrow> 'a replay" where
  "replay_of now p = producer.extend p
     \<lparr>rs_pc = Not_Started, rs_rest = [], rs_stalled_once = False, rs_notified = False, rs_clock = now,
      rs_log = []\<rparr>"

definition start_thread :: "'a replay \<Rightarrow> 'a replay" where
  "start_thread s = s\<lparr>rs_pc := Loop_Head, rs_rest := rp_events s\<rparr>"

text \<open>\<open>std::chrono::milliseconds\<close> in nanoseconds, and the scaled time of an event.\<close>

definition to_ns :: "int \<Rightarrow> int result" where
  "to_ns ms = long_mul ms 1000000"

definition replay_offset :: "double \<Rightarrow> int \<Rightarrow> int result" where
  "replay_offset speed ts_ms = rbind (cast_long (ddiv (of_integer ts_ms) speed)) to_ns"

definition run_step :: "'a replay \<Rightarrow> 'a replay result" where
  "run_step s =
     (case rs_pc s of
        Not_Started \<Rightarrow> Inr s
      | Loop_Head \<Rightarrow>
          Inr (case rs_rest s of
                 [] \<Rightarrow> s\<lparr>rs_pc := Store_Finished\<rparr>
               | ev # _ \<Rightarrow>
                   if rp_stop_requested s then s\<lparr>rs_pc := Store_Finished\<rparr>
                   else if \<not> rs_stalled_once s \<and> 0 \<le> rp_stall_after_ms s \<and> rp_stall_after_ms s \<le> re_ts_ms ev
                   then s\<lparr>rs_stalled_once := True, rs_pc := Stall_Begin\<rparr>
                   else s\<lparr>rs_pc := Set_Target\<rparr>)
      | Stall_Begin \<Rightarrow>
          rbind (to_ns (rp_stall_duration s)) (\<lambda>d.
          rbind (long_add (rs_clock s) d) (\<lambda>t. Inr (s\<lparr>rs_pc := Stall_Test t\<rparr>)))
      | Stall_Test t \<Rightarrow>
          Inr (s\<lparr>rs_pc := (if rp_stop_requested s then Stall_Done else Stall_Enter t)\<rparr>)
      | Stall_Enter t \<Rightarrow> Inr (s\<lparr>rs_pc := Stall_Wait t, rs_notified := False\<rparr>)
      | Stall_Wait t \<Rightarrow>
          Inr (if rs_notified s then s\<lparr>rs_pc := Stall_Test t\<rparr>
               else if t \<le> rs_clock s then s\<lparr>rs_pc := Stall_Done\<rparr> else s)
      | Stall_Done \<Rightarrow> Inr (s\<lparr>rs_pc := (if rp_stop_requested s then Store_Finished else Reanchor)\<rparr>)
      | Reanchor \<Rightarrow>
          rbind (replay_offset (rp_speed_factor s) (re_ts_ms (hd (rs_rest s)))) (\<lambda>d.
          rbind (long_sub (rs_clock s) d) (\<lambda>t. Inr (s\<lparr>rp_replay_start := t, rs_pc := Set_Target\<rparr>)))
      | Set_Target \<Rightarrow>
          rbind (replay_offset (rp_speed_factor s) (re_ts_ms (hd (rs_rest s)))) (\<lambda>d.
          rbind (long_add (rp_replay_start s) d) (\<lambda>t. Inr (s\<lparr>rs_pc := Target_Test t\<rparr>)))
      | Target_Test t \<Rightarrow>
          Inr (s\<lparr>rs_pc := (if rp_stop_requested s then Target_Done else Target_Enter t)\<rparr>)
      | Target_Enter t \<Rightarrow> Inr (s\<lparr>rs_pc := Target_Wait t, rs_notified := False\<rparr>)
      | Target_Wait t \<Rightarrow>
          Inr (if rs_notified s then s\<lparr>rs_pc := Target_Test t\<rparr>
               else if t \<le> rs_clock s then s\<lparr>rs_pc := Target_Done\<rparr> else s)
      | Target_Done \<Rightarrow> Inr (s\<lparr>rs_pc := (if rp_stop_requested s then Store_Finished else Apply_Event)\<rparr>)
      | Apply_Event \<Rightarrow>
          Inr (s\<lparr>rs_log := rs_log s @ [(rs_clock s, hd (rs_rest s))], rs_rest := tl (rs_rest s),
                 rs_pc := Loop_Head\<rparr>)
      | Store_Finished \<Rightarrow> Inr (s\<lparr>rp_finished := True, rs_pc := Terminated\<rparr>)
      | Terminated \<Rightarrow> Inr s)"

section \<open>Schedules\<close>

text \<open>
  \<open>requestStop\<close> is a store to the flag followed by \<open>notify_all\<close>, without the lock of the condition
  variable. A notification reaches a blocked thread only; a spurious wake-up looks the same.
\<close>

definition store_stop :: "'a replay \<Rightarrow> 'a replay" where
  "store_stop s = s\<lparr>rp_stop_requested := True\<rparr>"

definition notify_all :: "'a replay \<Rightarrow> 'a replay" where
  "notify_all s =
     (case rs_pc s of
        Stall_Wait _ \<Rightarrow> s\<lparr>rs_notified := True\<rparr>
      | Target_Wait _ \<Rightarrow> s\<lparr>rs_notified := True\<rparr>
      | _ \<Rightarrow> s)"

definition requestStop :: "'a replay \<Rightarrow> 'a replay" where
  "requestStop s = notify_all (store_stop s)"

text \<open>\<open>join\<close> returns when the thread has ended, or when there is none to be joined.\<close>

definition join_returns :: "'a replay \<Rightarrow> bool" where
  "join_returns s \<longleftrightarrow> rs_pc s \<in> {Not_Started, Terminated}"

datatype action = Advance nat | Turn | Store_Stop | Notify

fun act :: "action \<Rightarrow> 'a replay \<Rightarrow> 'a replay result" where
  "act (Advance d) s = Inr (s\<lparr>rs_clock := rs_clock s + int d\<rparr>)"
| "act Turn s = run_step s"
| "act Store_Stop s = Inr (store_stop s)"
| "act Notify s = Inr (notify_all s)"

fun replay_run :: "action list \<Rightarrow> 'a replay \<Rightarrow> 'a replay result" where
  "replay_run [] s = Inr s"
| "replay_run (a # as) s = rbind (act a s) (replay_run as)"

lemma replay_run_append: "replay_run (as @ bs) s = rbind (replay_run as s) (replay_run bs)"
proof (induction as arbitrary: s)
  case (Cons a as)
  then show ?case by (cases "act a s") simp_all
qed simp

text \<open>An invariant of all actions is an invariant of all schedules.\<close>

lemma replay_run_invariant:
  assumes "\<And>a s s'. act a s = Inr s' \<Longrightarrow> P s \<Longrightarrow> P s'" and "P s" and "replay_run as s = Inr s'"
  shows "P s'"
  using assms(2,3)
proof (induction as arbitrary: s)
  case (Cons a as)
  then obtain s1 where "act a s = Inr s1" "replay_run as s1 = Inr s'" by (auto simp: rbind_Inr_iff)
  with Cons assms(1) show ?case by blast
qed simp

named_theorems replay_simps \<open>the steps of the replay machine\<close>

lemmas [replay_simps] = run_step_def notify_all_def store_stop_def rbind_Inr_iff

lemma run_step_cases [consumes 1, case_names idle head_end head_stop head_stall head_go stall_begin stall_test
    stall_wait stall_done reanchor set_target target_test target_wait target_done apply_event store
    stall_enter target_enter]:
  assumes "run_step s = Inr s'"
  obtains "rs_pc s \<in> {Not_Started, Terminated}" "s' = s"
  | "rs_pc s = Loop_Head" "rs_rest s = []" "s' = s\<lparr>rs_pc := Store_Finished\<rparr>"
  | ev evs where "rs_pc s = Loop_Head" "rs_rest s = ev # evs" "rp_stop_requested s" "s' = s\<lparr>rs_pc := Store_Finished\<rparr>"
  | ev evs where "rs_pc s = Loop_Head" "rs_rest s = ev # evs" "\<not> rp_stop_requested s" "\<not> rs_stalled_once s"
      "0 \<le> rp_stall_after_ms s" "rp_stall_after_ms s \<le> re_ts_ms ev" "s' = s\<lparr>rs_stalled_once := True, rs_pc := Stall_Begin\<rparr>"
  | ev evs where "rs_pc s = Loop_Head" "rs_rest s = ev # evs" "\<not> rp_stop_requested s"
      "rs_stalled_once s \<or> rp_stall_after_ms s < 0 \<or> re_ts_ms ev < rp_stall_after_ms s" "s' = s\<lparr>rs_pc := Set_Target\<rparr>"
  | d t where "rs_pc s = Stall_Begin" "to_ns (rp_stall_duration s) = Inr d" "long_add (rs_clock s) d = Inr t"
      "s' = s\<lparr>rs_pc := Stall_Test t\<rparr>"
  | t where "rs_pc s = Stall_Test t"
      "s' = s\<lparr>rs_pc := (if rp_stop_requested s then Stall_Done else Stall_Enter t)\<rparr>"
  | t where "rs_pc s = Stall_Wait t"
      "s' = (if rs_notified s then s\<lparr>rs_pc := Stall_Test t\<rparr> else if t \<le> rs_clock s then s\<lparr>rs_pc := Stall_Done\<rparr> else s)"
  | "rs_pc s = Stall_Done" "s' = s\<lparr>rs_pc := (if rp_stop_requested s then Store_Finished else Reanchor)\<rparr>"
  | d t where "rs_pc s = Reanchor" "replay_offset (rp_speed_factor s) (re_ts_ms (hd (rs_rest s))) = Inr d"
      "long_sub (rs_clock s) d = Inr t" "s' = s\<lparr>rp_replay_start := t, rs_pc := Set_Target\<rparr>"
  | d t where "rs_pc s = Set_Target" "replay_offset (rp_speed_factor s) (re_ts_ms (hd (rs_rest s))) = Inr d"
      "long_add (rp_replay_start s) d = Inr t" "s' = s\<lparr>rs_pc := Target_Test t\<rparr>"
  | t where "rs_pc s = Target_Test t"
      "s' = s\<lparr>rs_pc := (if rp_stop_requested s then Target_Done else Target_Enter t)\<rparr>"
  | t where "rs_pc s = Target_Wait t"
      "s' = (if rs_notified s then s\<lparr>rs_pc := Target_Test t\<rparr> else if t \<le> rs_clock s then s\<lparr>rs_pc := Target_Done\<rparr> else s)"
  | "rs_pc s = Target_Done" "s' = s\<lparr>rs_pc := (if rp_stop_requested s then Store_Finished else Apply_Event)\<rparr>"
  | "rs_pc s = Apply_Event" "s' = s\<lparr>rs_log := rs_log s @ [(rs_clock s, hd (rs_rest s))], rs_rest := tl (rs_rest s), rs_pc := Loop_Head\<rparr>"
  | "rs_pc s = Store_Finished" "s' = s\<lparr>rp_finished := True, rs_pc := Terminated\<rparr>"
  | t where "rs_pc s = Stall_Enter t" "s' = s\<lparr>rs_pc := Stall_Wait t, rs_notified := False\<rparr>"
  | t where "rs_pc s = Target_Enter t" "s' = s\<lparr>rs_pc := Target_Wait t, rs_notified := False\<rparr>"
proof (cases "rs_pc s")
  case Loop_Head
  show ?thesis
  proof (cases "rs_rest s")
    case Nil
    with assms Loop_Head show ?thesis by (intro that(2)) (simp_all add: run_step_def)
  next
    case (Cons ev evs)
    consider "rp_stop_requested s"
      | "\<not> rp_stop_requested s" "\<not> rs_stalled_once s" "0 \<le> rp_stall_after_ms s" "rp_stall_after_ms s \<le> re_ts_ms ev"
      | "\<not> rp_stop_requested s" "rs_stalled_once s \<or> rp_stall_after_ms s < 0 \<or> re_ts_ms ev < rp_stall_after_ms s"
      by linarith
    then show ?thesis
    proof cases
      case 1
      with assms Loop_Head Cons show ?thesis by (intro that(3)) (simp_all add: run_step_def)
    next
      case 2
      with assms Loop_Head Cons show ?thesis by (intro that(4)) (simp_all add: run_step_def)
    next
      case 3
      with assms Loop_Head Cons show ?thesis by (intro that(5)) (auto simp: run_step_def)
    qed
  qed
next
  case Stall_Begin
  with assms obtain d t where "to_ns (rp_stall_duration s) = Inr d" "long_add (rs_clock s) d = Inr t"
    "s' = s\<lparr>rs_pc := Stall_Test t\<rparr>" by (auto simp: run_step_def rbind_Inr_iff)
  then show ?thesis by (rule that(6) [OF Stall_Begin])
next
  case Reanchor
  with assms obtain d t where "replay_offset (rp_speed_factor s) (re_ts_ms (hd (rs_rest s))) = Inr d"
    "long_sub (rs_clock s) d = Inr t" "s' = s\<lparr>rp_replay_start := t, rs_pc := Set_Target\<rparr>"
    by (auto simp: run_step_def rbind_Inr_iff)
  then show ?thesis by (rule that(10) [OF Reanchor])
next
  case Set_Target
  with assms obtain d t where "replay_offset (rp_speed_factor s) (re_ts_ms (hd (rs_rest s))) = Inr d"
    "long_add (rp_replay_start s) d = Inr t" "s' = s\<lparr>rs_pc := Target_Test t\<rparr>"
    by (auto simp: run_step_def rbind_Inr_iff)
  then show ?thesis by (rule that(11) [OF Set_Target])
next
  case Not_Started
  with assms show ?thesis by (intro that(1)) (simp_all add: run_step_def)
next
  case Terminated
  with assms show ?thesis by (intro that(1)) (simp_all add: run_step_def)
next
  case (Stall_Test t)
  show ?thesis by (rule that(7) [OF Stall_Test]) (use assms Stall_Test in \<open>simp add: run_step_def\<close>)
next
  case (Stall_Wait t)
  show ?thesis by (rule that(8) [OF Stall_Wait]) (use assms Stall_Wait in \<open>simp add: run_step_def\<close>)
next
  case Stall_Done
  show ?thesis by (rule that(9) [OF Stall_Done]) (use assms Stall_Done in \<open>simp add: run_step_def\<close>)
next
  case (Target_Test t)
  show ?thesis by (rule that(12) [OF Target_Test]) (use assms Target_Test in \<open>simp add: run_step_def\<close>)
next
  case (Target_Wait t)
  show ?thesis by (rule that(13) [OF Target_Wait]) (use assms Target_Wait in \<open>simp add: run_step_def\<close>)
next
  case Target_Done
  show ?thesis by (rule that(14) [OF Target_Done]) (use assms Target_Done in \<open>simp add: run_step_def\<close>)
next
  case Apply_Event
  show ?thesis by (rule that(15) [OF Apply_Event]) (use assms Apply_Event in \<open>simp add: run_step_def\<close>)
next
  case Store_Finished
  show ?thesis by (rule that(16) [OF Store_Finished]) (use assms Store_Finished in \<open>simp add: run_step_def\<close>)
next
  case (Stall_Enter t)
  show ?thesis by (rule that(17) [OF Stall_Enter]) (use assms Stall_Enter in \<open>simp add: run_step_def\<close>)
next
  case (Target_Enter t)
  show ?thesis by (rule that(18) [OF Target_Enter]) (use assms Target_Enter in \<open>simp add: run_step_def\<close>)
qed

section \<open>Order\<close>

definition in_body :: "run_pc \<Rightarrow> bool" where
  "in_body pc \<longleftrightarrow> pc \<notin> {Not_Started, Loop_Head, Store_Finished, Terminated}"

text \<open>All entries of a log are from before a point in time.\<close>

definition log_until :: "int \<Rightarrow> (int \<times> 'a replay_event) list \<Rightarrow> bool" where
  "log_until c l \<longleftrightarrow> (\<forall>x \<in> set l. fst x \<le> c)"

lemma log_until_simps [simp]:
  "log_until c []"
  "log_until c (l @ l') \<longleftrightarrow> log_until c l \<and> log_until c l'"
  "log_until c [x] \<longleftrightarrow> fst x \<le> c"
  by (auto simp: log_until_def)

lemma log_until_mono: "log_until c l \<Longrightarrow> c \<le> c' \<Longrightarrow> log_until c' l"
  by (fastforce simp: log_until_def)

text \<open>The events applied are a prefix of the sorted events, and the times of the log ascend.\<close>

definition order_inv :: "'a producer \<Rightarrow> 'a replay \<Rightarrow> bool" where
  "order_inv p s \<longleftrightarrow>
     map snd (rs_log s) @ rs_rest s = rp_events p \<and> (in_body (rs_pc s) \<longrightarrow> rs_rest s \<noteq> []) \<and>
     rs_pc s \<noteq> Not_Started \<and> rp_finished s = (rs_pc s = Terminated) \<and>
     rp_speed_factor s = rp_speed_factor p \<and> rp_stall_after_ms s = rp_stall_after_ms p \<and>
     rp_stall_duration s = rp_stall_duration p \<and>
     sorted (map fst (rs_log s)) \<and> log_until (rs_clock s) (rs_log s)"

lemma order_inv_start: "\<not> rp_finished p \<Longrightarrow> order_inv p (start_thread (replay_of now p))"
  by (simp add: order_inv_def start_thread_def replay_of_def producer.defs in_body_def)

lemma order_inv_run_step:
  assumes "run_step s = Inr s'" and "order_inv p s"
  shows "order_inv p s'"
  using assms(1)
proof (cases rule: run_step_cases)
  case apply_event
  with assms(2) show ?thesis by (cases "rs_rest s") (auto simp: order_inv_def in_body_def sorted_append log_until_def)
qed (use assms(2) in \<open>auto simp: order_inv_def in_body_def\<close>)

lemma order_inv_act:
  assumes "act a s = Inr s'" and "order_inv p s"
  shows "order_inv p s'"
proof (cases a)
  case (Advance d)
  with assms log_until_mono [of "rs_clock s" "rs_log s" "rs_clock s + int d"] show ?thesis
    by (auto simp: order_inv_def)
next
  case Turn
  with assms show ?thesis by (simp add: order_inv_run_step)
next
  case Notify
  with assms show ?thesis by (cases "rs_pc s") (auto simp: order_inv_def notify_all_def in_body_def)
qed (use assms in \<open>auto simp: order_inv_def store_stop_def\<close>)

lemma order_inv_run:
  "\<not> rp_finished p \<Longrightarrow> replay_run as (start_thread (replay_of now p)) = Inr s \<Longrightarrow> order_inv p s"
  by (rule replay_run_invariant [of "order_inv p"]) (auto intro: order_inv_act order_inv_start)

section \<open>Pace\<close>

definition offset_of :: "('a, 'm) producer_scheme \<Rightarrow> 'a replay_event \<Rightarrow> int" where
  "offset_of p ev = (case replay_offset (rp_speed_factor p) (re_ts_ms ev) of Inl _ \<Rightarrow> 0 | Inr d \<Rightarrow> d)"

text \<open>Whether an event triggers the configured stall, and its length in nanoseconds.\<close>

definition crosses :: "'a producer \<Rightarrow> 'a replay_event \<Rightarrow> bool" where
  "crosses p ev \<longleftrightarrow> 0 \<le> rp_stall_after_ms p \<and> rp_stall_after_ms p \<le> re_ts_ms ev"

definition stall_ns :: "('a, 'm) producer_scheme \<Rightarrow> int" where
  "stall_ns p = rp_stall_duration p * 1000000"

text \<open>A log entry is not early with respect to a start time; a time is a stall after all entries.\<close>

definition not_early :: "'a producer \<Rightarrow> int \<Rightarrow> int \<times> 'a replay_event \<Rightarrow> bool" where
  "not_early p start x \<longleftrightarrow> start + offset_of p (snd x) \<le> fst x"

definition quiet_until :: "'a producer \<Rightarrow> (int \<times> 'a replay_event) list \<Rightarrow> int \<Rightarrow> bool" where
  "quiet_until p pre t \<longleftrightarrow> (\<forall>x \<in> set pre. fst x + stall_ns p \<le> t)"

definition due_inv :: "'a producer \<Rightarrow> 'a replay \<Rightarrow> bool" where
  "due_inv p s \<longleftrightarrow>
     (let due = rp_replay_start s + offset_of p (hd (rs_rest s)) in
      case rs_pc s of
        Target_Test t \<Rightarrow> t = due
      | Target_Enter t \<Rightarrow> t = due
      | Target_Wait t \<Rightarrow> t = due
      | Target_Done \<Rightarrow> rp_stop_requested s \<or> due \<le> rs_clock s
      | Apply_Event \<Rightarrow> due \<le> rs_clock s
      | _ \<Rightarrow> True)"

definition stall_phase :: "'a producer \<Rightarrow> (int \<times> 'a replay_event) list \<Rightarrow> (int \<times> 'a replay_event) list \<Rightarrow> 'a replay \<Rightarrow> bool" where
  "stall_phase p pre post s \<longleftrightarrow>
     (case rs_pc s of
        Stall_Begin \<Rightarrow> post = []
      | Stall_Test t \<Rightarrow> post = [] \<and> quiet_until p pre t
      | Stall_Enter t \<Rightarrow> post = [] \<and> quiet_until p pre t
      | Stall_Wait t \<Rightarrow> post = [] \<and> quiet_until p pre t
      | Stall_Done \<Rightarrow> post = [] \<and> (rp_stop_requested s \<or> quiet_until p pre (rs_clock s))
      | Reanchor \<Rightarrow> post = [] \<and> quiet_until p pre (rs_clock s)
      | pc \<Rightarrow> pc \<in> {Store_Finished, Terminated} \<and> post = [] \<or>
          (\<forall>x \<in> set post. not_early p (rp_replay_start s) x) \<and>
          quiet_until p pre (rp_replay_start s + offset_of p (hd (map snd post @ rs_rest s))))"

definition before_stall :: "'a producer \<Rightarrow> (int \<times> 'a replay_event) list \<Rightarrow> bool" where
  "before_stall p pre \<longleftrightarrow> (\<forall>x \<in> set pre. not_early p (rp_replay_start p) x \<and> \<not> crosses p (snd x))"

text \<open>The log up to the event that triggers the stall, and from it on.\<close>

definition early_part :: "'a producer \<Rightarrow> (int \<times> 'a replay_event) list \<Rightarrow> (int \<times> 'a replay_event) list" where
  "early_part p l = takeWhile (\<lambda>x. \<not> crosses p (snd x)) l"

definition late_part :: "'a producer \<Rightarrow> (int \<times> 'a replay_event) list \<Rightarrow> (int \<times> 'a replay_event) list" where
  "late_part p l = dropWhile (\<lambda>x. \<not> crosses p (snd x)) l"

lemma parts_append: "early_part p l @ late_part p l = l"
  by (simp add: early_part_def late_part_def)

lemma parts_snoc:
  "late_part p l \<noteq> [] \<Longrightarrow> early_part p (l @ [x]) = early_part p l \<and> late_part p (l @ [x]) = late_part p l @ [x]"
  "late_part p l = [] \<Longrightarrow> crosses p (snd x) \<Longrightarrow> early_part p (l @ [x]) = l \<and> late_part p (l @ [x]) = [x]"
  by (auto simp: early_part_def late_part_def takeWhile_append dropWhile_append dropWhile_eq_Nil_conv)

lemma parts_before: "before_stall p l \<Longrightarrow> early_part p l = l \<and> late_part p l = []"
  by (simp add: early_part_def late_part_def before_stall_def)
fun stalling :: "run_pc \<Rightarrow> bool" where
  "stalling Stall_Begin = True"
| "stalling (Stall_Test t) = True"
| "stalling (Stall_Enter t) = True"
| "stalling (Stall_Wait t) = True"
| "stalling Stall_Done = True"
| "stalling Reanchor = True"
| "stalling _ = False"

definition pace_inv :: "'a producer \<Rightarrow> 'a replay \<Rightarrow> bool" where
  "pace_inv p s \<longleftrightarrow> due_inv p s \<and>
     (if rs_stalled_once s
      then before_stall p (early_part p (rs_log s)) \<and> map snd (late_part p (rs_log s)) @ rs_rest s \<noteq> [] \<and>
             crosses p (hd (map snd (late_part p (rs_log s)) @ rs_rest s)) \<and>
             stall_phase p (early_part p (rs_log s)) (late_part p (rs_log s)) s
      else \<not> stalling (rs_pc s) \<and> rp_replay_start s = rp_replay_start p \<and> before_stall p (rs_log s) \<and>
             (in_body (rs_pc s) \<longrightarrow> \<not> crosses p (hd (rs_rest s))))"

lemma stalling_once: "pace_inv p s \<Longrightarrow> stalling (rs_pc s) \<Longrightarrow> rs_stalled_once s"
  by (auto simp: pace_inv_def split: if_splits)

lemma pace_inv_start: "pace_inv p (start_thread (replay_of now p))"
  by (simp add: pace_inv_def due_inv_def before_stall_def start_thread_def replay_of_def producer.defs in_body_def)

lemma offset_of_eq: "order_inv p s \<Longrightarrow> replay_offset (rp_speed_factor s) (re_ts_ms ev) = Inr d \<Longrightarrow> offset_of p ev = d"
  by (simp add: order_inv_def offset_of_def)

lemma pace_inv_run_step:
  assumes r: "run_step s = Inr s'" and o: "order_inv p s" and i: "pace_inv p s"
  shows "pace_inv p s'"
  using r
proof (cases rule: run_step_cases)
  case idle
  with i show ?thesis by simp
next
  case head_end
  with i show ?thesis by (auto simp: pace_inv_def due_inv_def stall_phase_def in_body_def)
next
  case (head_stop ev evs)
  with i show ?thesis by (auto simp: pace_inv_def due_inv_def stall_phase_def in_body_def)
next
  case (head_stall ev evs)
  with i have "before_stall p (rs_log s)" by (simp add: pace_inv_def)
  with head_stall parts_before [of p "rs_log s"] o show ?thesis
    by (simp add: pace_inv_def due_inv_def stall_phase_def in_body_def order_inv_def crosses_def)
next
  case (head_go ev evs)
  with i o show ?thesis
    by (auto simp: pace_inv_def due_inv_def stall_phase_def in_body_def order_inv_def crosses_def)
next
  case (set_target d t)
  moreover have "t = rp_replay_start s + offset_of p (hd (rs_rest s))"
    using set_target(3) offset_of_eq [OF o set_target(2)] by (auto simp: long_add_def long_check_def split: if_splits)
  ultimately show ?thesis using i
    by (auto simp: pace_inv_def due_inv_def stall_phase_def in_body_def)
next
  case (target_test t)
  with i show ?thesis by (auto simp: pace_inv_def due_inv_def stall_phase_def in_body_def)
next
  case (target_wait t)
  with i show ?thesis by (auto simp: pace_inv_def due_inv_def stall_phase_def in_body_def)
next
  case target_done
  with i show ?thesis by (auto simp: pace_inv_def due_inv_def stall_phase_def in_body_def)
next
  case store
  with i show ?thesis by (auto simp: pace_inv_def due_inv_def stall_phase_def in_body_def)
next
  case (stall_begin d t)
  have "t = rs_clock s + stall_ns p"
    using stall_begin(2,3) o
    by (auto simp: order_inv_def stall_ns_def to_ns_def long_add_def long_mul_def long_check_def split: if_splits)
  then have "quiet_until p (rs_log s) t" using o by (auto simp: quiet_until_def order_inv_def log_until_def)
  moreover have st: "rs_stalled_once s" using stalling_once [OF i] stall_begin(1) by simp
  moreover have "late_part p (rs_log s) = []" "early_part p (rs_log s) = rs_log s"
    using st stall_begin(1) i parts_append [of p "rs_log s"] by (auto simp: pace_inv_def stall_phase_def)
  ultimately show ?thesis using stall_begin i
    by (simp add: pace_inv_def due_inv_def stall_phase_def)
next
  case (stall_test t)
  moreover have "rs_stalled_once s" using stalling_once [OF i] stall_test(1) by simp
  ultimately show ?thesis using i by (auto simp: pace_inv_def due_inv_def stall_phase_def)
next
  case (stall_enter t)
  moreover have "rs_stalled_once s" using stalling_once [OF i] stall_enter(1) by simp
  ultimately show ?thesis using i by (auto simp: pace_inv_def due_inv_def stall_phase_def)
next
  case (target_enter t)
  with i show ?thesis by (auto simp: pace_inv_def due_inv_def stall_phase_def in_body_def)
next
  case (stall_wait t)
  moreover have "rs_stalled_once s" using stalling_once [OF i] stall_wait(1) by simp
  moreover have "t \<le> rs_clock s \<Longrightarrow> quiet_until p l t \<Longrightarrow> quiet_until p l (rs_clock s)" for l
    by (fastforce simp: quiet_until_def)
  ultimately show ?thesis using i by (auto simp: pace_inv_def due_inv_def stall_phase_def in_body_def)
next
  case stall_done
  moreover have "rs_stalled_once s" using stalling_once [OF i] stall_done(1) by simp
  ultimately show ?thesis using i by (auto simp: pace_inv_def due_inv_def stall_phase_def)
next
  case (reanchor d t)
  have "t = rs_clock s - offset_of p (hd (rs_rest s))"
    using reanchor(3) offset_of_eq [OF o reanchor(2)] by (auto simp: long_sub_def long_check_def split: if_splits)
  with reanchor i show ?thesis by (auto simp: pace_inv_def due_inv_def stall_phase_def in_body_def)
next
  case apply_event
  let ?x = "(rs_clock s, hd (rs_rest s))"
  from o apply_event have rest: "rs_rest s = hd (rs_rest s) # tl (rs_rest s)" by (simp add: order_inv_def in_body_def)
  have due: "not_early p (rp_replay_start s) ?x" using i apply_event by (simp add: pace_inv_def due_inv_def not_early_def)
  show ?thesis
  proof (cases "rs_stalled_once s")
    case False
    with i apply_event due show ?thesis
      by (auto simp: pace_inv_def due_inv_def before_stall_def in_body_def)
  next
    case True
    note i = i [unfolded pace_inv_def, simplified True if_True]
    show ?thesis
    proof (cases "late_part p (rs_log s) = []")
      case True
      then have "crosses p (snd ?x)" "early_part p (rs_log s) = rs_log s"
        using i rest parts_append [of p "rs_log s"] by auto
      with parts_snoc(2) [OF True, of ?x] i True apply_event due \<open>rs_stalled_once s\<close> show ?thesis
        by (simp add: pace_inv_def due_inv_def stall_phase_def)
    next
      case False
      with parts_snoc(1) [OF False, of ?x] i apply_event due \<open>rs_stalled_once s\<close> show ?thesis
        by (simp add: pace_inv_def due_inv_def stall_phase_def)
    qed
  qed
qed

lemma quiet_until_mono: "quiet_until p l t \<Longrightarrow> t \<le> t' \<Longrightarrow> quiet_until p l t'"
  by (fastforce simp: quiet_until_def)

lemma pace_inv_act:
  assumes "act a s = Inr s'" and "order_inv p s" and "pace_inv p s"
  shows "pace_inv p s'"
proof (cases a)
  case (Advance d)
  have q: "quiet_until p l (rs_clock s) \<Longrightarrow> quiet_until p l (rs_clock s + int d)" for l
    by (erule quiet_until_mono) simp
  from Advance assms show ?thesis
    by (cases "rs_pc s") (auto simp: pace_inv_def due_inv_def stall_phase_def intro: q)
next
  case Turn
  with assms pace_inv_run_step show ?thesis by (simp add: pace_inv_run_step)
next
  case Store_Stop
  with assms show ?thesis
    by (cases "rs_pc s") (auto simp: pace_inv_def due_inv_def stall_phase_def store_stop_def)
next
  case Notify
  with assms show ?thesis
    by (cases "rs_pc s") (auto simp: pace_inv_def due_inv_def stall_phase_def notify_all_def)
qed

lemma replay_invs:
  assumes "\<not> rp_finished p" and "replay_run as (start_thread (replay_of now p)) = Inr s"
  shows "order_inv p s \<and> pace_inv p s"
proof (rule replay_run_invariant [of "\<lambda>s. order_inv p s \<and> pace_inv p s", OF _ _ assms(2)])
  show "order_inv p (start_thread (replay_of now p)) \<and> pace_inv p (start_thread (replay_of now p))"
    using assms(1) by (simp add: order_inv_start pace_inv_start)
qed (auto intro: order_inv_act pace_inv_act)

section \<open>The stall in a schedule\<close>

text \<open>
  The last two invariants speak of the schedule itself: where in it the stall began, and where the
  replay was given its new start.
\<close>

definition stalled_from :: "'a replay \<Rightarrow> action list \<Rightarrow> 'a replay \<Rightarrow> 'a replay \<Rightarrow> bool" where
  "stalled_from st as s0 s \<longleftrightarrow> (\<exists>as1 as2. as = as1 @ as2 \<and> replay_run as1 st = Inr s0 \<and> rs_pc s0 = Stall_Begin \<and>
     replay_run as2 s0 = Inr s \<and> rs_log s0 = rs_log s)"

definition stall_since :: "'a producer \<Rightarrow> int \<Rightarrow> 'a replay \<Rightarrow> bool" where
  "stall_since p b s \<longleftrightarrow>
     (case rs_pc s of
        Stall_Begin \<Rightarrow> b \<le> rs_clock s
      | Stall_Test t \<Rightarrow> b + stall_ns p \<le> t
      | Stall_Enter t \<Rightarrow> b + stall_ns p \<le> t
      | Stall_Wait t \<Rightarrow> b + stall_ns p \<le> t
      | Stall_Done \<Rightarrow> rp_stop_requested s \<or> b + stall_ns p \<le> rs_clock s
      | Reanchor \<Rightarrow> b + stall_ns p \<le> rs_clock s
      | _ \<Rightarrow> False)"

text \<open>The event \<open>z\<close> triggered a stall of full length, at the end of which the clock showed \<open>r\<close>.\<close>

definition restarted :: "'a producer \<Rightarrow> 'a replay \<Rightarrow> action list \<Rightarrow> (int \<times> 'a replay_event) list \<Rightarrow> 'a replay_event \<Rightarrow> int \<Rightarrow> bool" where
  "restarted p st as pre z r \<longleftrightarrow> (\<exists>as1 as2 s0 s1. as = as1 @ as2 \<and> replay_run as1 st = Inr s1 \<and>
     rs_pc s1 = Reanchor \<and> rs_log s1 = pre \<and> hd (rs_rest s1) = z \<and> rs_clock s1 = r \<and>
     stalled_from st as1 s0 s1 \<and> rs_clock s0 + stall_ns p \<le> r)"

definition triggered :: "'a producer \<Rightarrow> 'a replay \<Rightarrow> 'a replay_event" where
  "triggered p s = hd (map snd (late_part p (rs_log s)) @ rs_rest s)"

definition stall_history :: "'a producer \<Rightarrow> 'a replay \<Rightarrow> action list \<Rightarrow> 'a replay \<Rightarrow> bool" where
  "stall_history p st as s \<longleftrightarrow>
     (stalling (rs_pc s) \<longrightarrow> (\<exists>s0. stalled_from st as s0 s \<and> stall_since p (rs_clock s0) s)) \<and>
     (rs_stalled_once s \<and> \<not> stalling (rs_pc s) \<and> rs_pc s \<notin> {Store_Finished, Terminated} \<or> late_part p (rs_log s) \<noteq> [] \<longrightarrow>
        restarted p st as (early_part p (rs_log s)) (triggered p s) (rp_replay_start s + offset_of p (triggered p s)))"

lemma restarted_mono: "restarted p st as pre z r \<Longrightarrow> restarted p st (as @ bs) pre z r"
  unfolding restarted_def by (metis append_assoc)

lemma stalled_from_act:
  assumes "stalled_from st as s0 s" and "act a s = Inr s'" and "rs_log s' = rs_log s"
  shows "stalled_from st (as @ [a]) s0 s'"
proof -
  obtain as1 as2 where "as = as1 @ as2" "replay_run as1 st = Inr s0" "rs_pc s0 = Stall_Begin" "replay_run as2 s0 = Inr s"
      "rs_log s0 = rs_log s"
    using assms(1) unfolding stalled_from_def by blast
  with assms(2,3) show ?thesis
    unfolding stalled_from_def by (intro exI [of _ as1] exI [of _ "as2 @ [a]"]) (simp add: replay_run_append)
qed

lemma late_not_stalling:
  assumes "pace_inv p s" and "stalling (rs_pc s)"
  shows "late_part p (rs_log s) = [] \<and> early_part p (rs_log s) = rs_log s"
proof -
  have "stall_phase p (early_part p (rs_log s)) (late_part p (rs_log s)) s"
    using assms stalling_once [OF assms] by (simp add: pace_inv_def)
  then have "late_part p (rs_log s) = []" using assms(2) by (cases "rs_pc s") (simp_all add: stall_phase_def)
  with parts_append [of p "rs_log s"] show ?thesis by simp
qed

text \<open>What an action does to the two.\<close>

lemma stall_since_act:
  assumes "act a s = Inr s'" and "order_inv p s" and "stall_since p b s" and "stalling (rs_pc s')"
  shows "stall_since p b s' \<and> rs_log s' = rs_log s \<and> stalling (rs_pc s)"
proof (cases a)
  case Turn
  then have "run_step s = Inr s'" using assms(1) by simp
  then show ?thesis
  proof (cases rule: run_step_cases)
    case (stall_begin d t)
    have "t = rs_clock s + stall_ns p"
      using stall_begin(2,3) assms(2)
      by (auto simp: order_inv_def stall_ns_def to_ns_def long_add_def long_mul_def long_check_def split: if_splits)
    with stall_begin assms(3) show ?thesis by (simp add: stall_since_def)
  qed (use assms(3,4) in \<open>auto simp: stall_since_def split: if_splits\<close>)
next
  case Notify
  with assms show ?thesis by (cases "rs_pc s") (auto simp: stall_since_def notify_all_def)
next
  case (Advance d)
  with assms show ?thesis by (cases "rs_pc s") (auto simp: stall_since_def)
next
  case Store_Stop
  with assms show ?thesis by (cases "rs_pc s") (auto simp: stall_since_def store_stop_def)
qed

lemma stall_entered:
  assumes "act a s = Inr s'" and "stalling (rs_pc s')" and "\<not> stalling (rs_pc s)"
  shows "rs_pc s' = Stall_Begin"
proof (cases a)
  case Turn
  then have "run_step s = Inr s'" using assms(1) by simp
  then show ?thesis by (cases rule: run_step_cases) (use assms(2,3) in \<open>auto split: if_splits\<close>)
next
  case Notify
  with assms show ?thesis by (cases "rs_pc s") (auto simp: notify_all_def)
qed (use assms in \<open>auto simp: store_stop_def\<close>)

text \<open>
  Once the replay goes on after the stall, its start, the events before the stall and the one that
  triggered it are fixed; the new start is the one computed at the end of the stall.
\<close>

definition resumed :: "'a producer \<Rightarrow> 'a replay \<Rightarrow> bool" where
  "resumed p s \<longleftrightarrow> rs_stalled_once s \<and> \<not> stalling (rs_pc s) \<and> rs_pc s \<notin> {Store_Finished, Terminated} \<or>
     late_part p (rs_log s) \<noteq> []"

lemma resumed_act:
  assumes "act a s = Inr s'" and "order_inv p s" and "pace_inv p s" and "resumed p s'"
  shows "resumed p s \<and> triggered p s' = triggered p s \<and> early_part p (rs_log s') = early_part p (rs_log s) \<and>
       rp_replay_start s' = rp_replay_start s \<or>
     rs_pc s = Reanchor \<and> triggered p s' = hd (rs_rest s) \<and> early_part p (rs_log s') = rs_log s \<and>
       rp_replay_start s' + offset_of p (triggered p s') = rs_clock s"
proof (cases a)
  case Turn
  then have "run_step s = Inr s'" using assms(1) by simp
  then show ?thesis
  proof (cases rule: run_step_cases)
    case apply_event
    let ?x = "(rs_clock s, hd (rs_rest s))"
    have rest: "rs_rest s = hd (rs_rest s) # tl (rs_rest s)"
      using assms(2) apply_event(1) by (simp add: order_inv_def in_body_def)
    show ?thesis
    proof (cases "late_part p (rs_log s) = []")
      case False
      then show ?thesis using apply_event parts_snoc(1) [OF False, of ?x]
        by (auto simp: resumed_def triggered_def)
    next
      case True
      have once: "rs_stalled_once s"
      proof (rule ccontr)
        assume n: "\<not> rs_stalled_once s"
        then have "before_stall p (rs_log s @ [?x])"
          using pace_inv_run_step [OF \<open>run_step s = Inr s'\<close> assms(2,3)] apply_event by (simp add: pace_inv_def)
        from parts_before [OF this] n assms(4) apply_event show False by (simp add: resumed_def)
      qed
      with True assms(3) rest have "crosses p (snd ?x)"
        by (auto simp: pace_inv_def)
      from parts_snoc(2) [OF True this] have "early_part p (rs_log s') = rs_log s" "late_part p (rs_log s') = [?x]"
        using apply_event by simp_all
      moreover have "early_part p (rs_log s) = rs_log s" using parts_append [of p "rs_log s"] True by simp
      moreover have "triggered p s = hd (rs_rest s)" by (simp add: triggered_def True)
      ultimately show ?thesis using once apply_event by (simp add: resumed_def triggered_def)
    qed
  next
    case (reanchor d t)
    have "t = rs_clock s - offset_of p (hd (rs_rest s))"
      using reanchor(3) offset_of_eq [OF assms(2) reanchor(2)] by (auto simp: long_sub_def long_check_def split: if_splits)
    moreover have "late_part p (rs_log s) = []" "early_part p (rs_log s) = rs_log s"
      using late_not_stalling [OF assms(3)] reanchor(1) by simp_all
    ultimately show ?thesis using reanchor by (simp add: triggered_def)
  next
    case stall_done
    with late_not_stalling [OF assms(3)] assms(4) show ?thesis by (auto simp: resumed_def split: if_splits)
  qed (use assms(4) in \<open>auto simp: resumed_def triggered_def split: if_splits\<close>)
next
  case Notify
  with assms show ?thesis by (cases "rs_pc s") (auto simp: resumed_def triggered_def notify_all_def)
qed (use assms in \<open>auto simp: resumed_def triggered_def store_stop_def\<close>)

lemma stall_history_act:
  assumes "stall_history p st as s" and "replay_run as st = Inr s" and "act a s = Inr s'"
    and "order_inv p s" and "pace_inv p s"
  shows "stall_history p st (as @ [a]) s'"
  unfolding stall_history_def resumed_def [symmetric]
proof (intro conjI impI)
  assume st: "stalling (rs_pc s')"
  show "\<exists>s0. stalled_from st (as @ [a]) s0 s' \<and> stall_since p (rs_clock s0) s'"
  proof (cases "stalling (rs_pc s)")
    case True
    then obtain s0 where s0: "stalled_from st as s0 s" "stall_since p (rs_clock s0) s"
      using assms(1) by (auto simp: stall_history_def)
    from stall_since_act [OF assms(3,4) s0(2) st] stalled_from_act [OF s0(1) assms(3)] show ?thesis by blast
  next
    case False
    from stall_entered [OF assms(3) st False] have pc: "rs_pc s' = Stall_Begin" .
    have "replay_run (as @ [a]) st = Inr s'" using assms(2,3) by (simp add: replay_run_append)
    with pc have "stalled_from st (as @ [a]) s' s'"
      unfolding stalled_from_def by (intro exI [of _ "as @ [a]"] exI [of _ "[]"]) simp
    with pc show ?thesis by (auto simp: stall_since_def)
  qed
next
  assume res: "resumed p s'"
  let ?goal = "restarted p st (as @ [a]) (early_part p (rs_log s')) (triggered p s')
     (rp_replay_start s' + offset_of p (triggered p s'))"
  from resumed_act [OF assms(3,4,5) res] show ?goal
  proof (elim disjE conjE)
    assume "resumed p s" "triggered p s' = triggered p s" "early_part p (rs_log s') = early_part p (rs_log s)"
      "rp_replay_start s' = rp_replay_start s"
    moreover have "restarted p st as (early_part p (rs_log s)) (triggered p s) (rp_replay_start s + offset_of p (triggered p s))"
      using assms(1) \<open>resumed p s\<close> unfolding stall_history_def resumed_def by blast
    ultimately show ?goal using restarted_mono by simp
  next
    assume r: "rs_pc s = Reanchor" "triggered p s' = hd (rs_rest s)" "early_part p (rs_log s') = rs_log s"
      "rp_replay_start s' + offset_of p (triggered p s') = rs_clock s"
    then obtain s0 where "stalled_from st as s0 s" "stall_since p (rs_clock s0) s"
      using assms(1) by (auto simp: stall_history_def)
    then have "restarted p st as (rs_log s) (hd (rs_rest s)) (rs_clock s)"
      unfolding restarted_def using assms(2) r(1)
      by (intro exI [of _ as] exI [of _ "[]"] exI [of _ s0] exI [of _ s]) (simp add: stall_since_def)
    from restarted_mono [OF this, of "[a]"] r(2-4) show ?goal by simp
  qed
qed

lemma stall_history_run:
  assumes "\<not> rp_finished p"
  shows "replay_run as (start_thread (replay_of now p)) = Inr s \<Longrightarrow> stall_history p (start_thread (replay_of now p)) as s"
proof (induction as arbitrary: s rule: rev_induct)
  case Nil
  then show ?case
    by (auto simp: stall_history_def start_thread_def replay_of_def producer.defs late_part_def)
next
  case (snoc a as)
  then obtain s1 where s1: "replay_run as (start_thread (replay_of now p)) = Inr s1" "act a s1 = Inr s"
    by (auto simp: replay_run_append rbind_Inr_iff)
  with replay_invs [OF assms s1(1)] snoc.IH [OF s1(1)] stall_history_act show ?case by blast
qed

text \<open>
  C11: whatever the schedule, the events applied are, in ascending order of their source times, the
  first of the log's events. Up to the stall, none is applied before its scaled time after the start
  of the replay. If an event from the trigger time on was applied, there was one stall, in front of the
  first such event and after all earlier ones, it lasted at least its configured duration, and at its
  end the replay got a new start: the clock reading at that moment is the scaled time of the event
  that triggered the stall, and no later event is applied before its distance from that event has
  passed since. (With respect to the original start, events after the stall may be early or late.)
\<close>

theorem replay_order_and_pace:
  assumes "sorts_by re_ts_ms std_sort"
    and "p = injectStall stall_after stall_duration (new_producer std_sort name events start speed)"
    and "replay_run as (start_thread (replay_of now p)) = Inr s"
  shows "mset (map snd (rs_log s) @ rs_rest s) = mset events \<and>
     sorted (map re_ts_ms (map snd (rs_log s) @ rs_rest s)) \<and> sorted (map fst (rs_log s)) \<and>
     (\<forall>x \<in> set (early_part p (rs_log s)). start + offset_of p (snd x) \<le> fst x) \<and>
     (\<forall>z zs. late_part p (rs_log s) = z # zs \<longrightarrow>
        (\<exists>as1 as2 as3 s1 s2. as = as1 @ as2 @ as3 \<and>
           replay_run as1 (start_thread (replay_of now p)) = Inr s1 \<and> rs_pc s1 = Stall_Begin \<and>
           replay_run as2 s1 = Inr s2 \<and> rs_pc s2 = Reanchor \<and>
           rs_log s1 = early_part p (rs_log s) \<and> rs_log s2 = early_part p (rs_log s) \<and> hd (rs_rest s2) = snd z \<and>
           (\<forall>x \<in> set (early_part p (rs_log s)). fst x \<le> rs_clock s1) \<and> rs_clock s1 + stall_duration * 1000000 \<le> rs_clock s2 \<and>
           rp_replay_start s = rs_clock s2 - offset_of p (snd z) \<and>
           (\<forall>y \<in> set (z # zs). rs_clock s2 + (offset_of p (snd y) - offset_of p (snd z)) \<le> fst y)))"
proof -
  have p: "rp_events p = std_sort events" "rp_replay_start p = start" "\<not> rp_finished p" "stall_ns p = stall_duration * 1000000"
    by (simp_all add: assms(2) injectStall_def new_producer_def stall_ns_def)
  from replay_invs [OF p(3) assms(3)] have o: "order_inv p s" and i: "pace_inv p s" by simp_all
  have early: "\<forall>x \<in> set (early_part p (rs_log s)). start + offset_of p (snd x) \<le> fst x"
    using i parts_before [of p "rs_log s"]
    by (auto simp: pace_inv_def before_stall_def not_early_def p(2) split: if_splits)
  have late: "\<exists>as1 as2 as3 s1 s2. as = as1 @ as2 @ as3 \<and>
           replay_run as1 (start_thread (replay_of now p)) = Inr s1 \<and> rs_pc s1 = Stall_Begin \<and>
           replay_run as2 s1 = Inr s2 \<and> rs_pc s2 = Reanchor \<and>
           rs_log s1 = early_part p (rs_log s) \<and> rs_log s2 = early_part p (rs_log s) \<and> hd (rs_rest s2) = snd z \<and>
           (\<forall>x \<in> set (early_part p (rs_log s)). fst x \<le> rs_clock s1) \<and> rs_clock s1 + stall_duration * 1000000 \<le> rs_clock s2 \<and>
           rp_replay_start s = rs_clock s2 - offset_of p (snd z) \<and>
           (\<forall>y \<in> set (z # zs). rs_clock s2 + (offset_of p (snd y) - offset_of p (snd z)) \<le> fst y)"
    if l: "late_part p (rs_log s) = z # zs" for z zs
  proof -
    have tr: "triggered p s = snd z" by (simp add: triggered_def l)
    have "restarted p (start_thread (replay_of now p)) as (early_part p (rs_log s)) (snd z) (rp_replay_start s + offset_of p (snd z))"
      using stall_history_run [OF p(3) assms(3)] l tr by (simp add: stall_history_def)
    then obtain as1 as2 as3 s1 s2 where r: "as = as1 @ as2 @ as3"
        "replay_run as1 (start_thread (replay_of now p)) = Inr s1" "rs_pc s1 = Stall_Begin"
        "replay_run as2 s1 = Inr s2" "rs_pc s2 = Reanchor" "rs_log s1 = rs_log s2" "rs_log s2 = early_part p (rs_log s)"
        "hd (rs_rest s2) = snd z" "rs_clock s1 + stall_ns p \<le> rs_clock s2"
      and start: "rs_clock s2 = rp_replay_start s + offset_of p (snd z)"
      unfolding restarted_def stalled_from_def by auto
    have st: "rs_stalled_once s" using i parts_before [of p "rs_log s"] l by (auto simp: pace_inv_def split: if_splits)
    with i l have "\<forall>y \<in> set (z # zs). rp_replay_start s + offset_of p (snd y) \<le> fst y"
      by (auto simp: pace_inv_def stall_phase_def not_early_def split: run_pc.splits)
    moreover have "\<forall>x \<in> set (rs_log s1). fst x \<le> rs_clock s1"
      using order_inv_run [OF p(3) r(2)] by (simp add: order_inv_def log_until_def)
    ultimately show ?thesis using r start p(4)
      by (intro exI [of _ as1] exI [of _ as2] exI [of _ as3] exI [of _ s1] exI [of _ s2]) auto
  qed
  show ?thesis
    using o early late sorts_byD(1,2) [OF assms(1), of events] by (simp add: order_inv_def p(1))
qed

section \<open>Stopping\<close>

text \<open>
  The thread will notice a stop request in its next steps: it is not blocked, or it is blocked but
  woken or past its deadline. Right before blocking it is not: the flag was tested already.
\<close>

definition awake :: "'a replay \<Rightarrow> bool" where
  "awake s \<longleftrightarrow>
     (case rs_pc s of
        Not_Started \<Rightarrow> False
      | Stall_Enter t \<Rightarrow> False
      | Target_Enter t \<Rightarrow> False
      | Stall_Wait t \<Rightarrow> rs_notified s \<or> t \<le> rs_clock s
      | Target_Wait t \<Rightarrow> rs_notified s \<or> t \<le> rs_clock s
      | _ \<Rightarrow> True)"

text \<open>The number of steps to the end of the thread once the flag is set.\<close>

fun stop_rank :: "run_pc \<Rightarrow> nat" where
  "stop_rank Terminated = 0"
| "stop_rank Store_Finished = 1"
| "stop_rank Loop_Head = 2"
| "stop_rank Target_Done = 2"
| "stop_rank Stall_Done = 2"
| "stop_rank Apply_Event = 3"
| "stop_rank (Target_Test t) = 3"
| "stop_rank (Stall_Test t) = 3"
| "stop_rank (Target_Wait t) = 4"
| "stop_rank (Stall_Wait t) = 4"
| "stop_rank Set_Target = 4"
| "stop_rank Stall_Begin = 4"
| "stop_rank _ = 5"

lemma stop_rank_le: "stop_rank pc \<le> 5"
  by (cases pc) simp_all

lemma stop_turn:
  assumes "run_step s = Inr s'" and "rp_stop_requested s"
  shows "rp_stop_requested s' \<and>
     (rs_pc s = Apply_Event \<and> rs_pc s' = Loop_Head \<and> rs_log s' = rs_log s @ [(rs_clock s, hd (rs_rest s))] \<or>
      rs_log s' = rs_log s \<and> rs_pc s' \<noteq> Apply_Event)"
  using assms by (cases rule: run_step_cases) auto

lemma stop_act:
  assumes "act a s = Inr s'" and "rp_stop_requested s"
  shows "rp_stop_requested s' \<and>
     (rs_pc s = Apply_Event \<and> rs_pc s' = Loop_Head \<and> rs_log s' = rs_log s @ [(rs_clock s, hd (rs_rest s))] \<or>
      rs_log s' = rs_log s \<and> (rs_pc s' = Apply_Event \<longrightarrow> rs_pc s = Apply_Event \<and> rs_rest s' = rs_rest s))"
proof (cases a)
  case Turn
  with assms stop_turn [of s s'] show ?thesis by auto
next
  case Notify
  with assms show ?thesis by (cases "rs_pc s") (auto simp: notify_all_def)
qed (use assms in \<open>auto simp: store_stop_def\<close>)

lemma awake_turn:
  assumes "run_step s = Inr s'" and "rp_stop_requested s" and "awake s"
  shows "awake s' \<and> (rs_pc s = Terminated \<and> rs_pc s' = Terminated \<or> stop_rank (rs_pc s') < stop_rank (rs_pc s))"
  using assms by (cases rule: run_step_cases) (auto simp: awake_def split: list.splits)

lemma awake_act:
  assumes "act a s = Inr s'" and "rp_stop_requested s" and "awake s" and "a \<noteq> Turn"
  shows "awake s' \<and> rs_pc s' = rs_pc s"
  using assms by (cases a; cases "rs_pc s") (auto simp: awake_def store_stop_def notify_all_def)

lemma awake_run:
  "replay_run as s = Inr s' \<Longrightarrow> rp_stop_requested s \<Longrightarrow> awake s \<Longrightarrow>
     stop_rank (rs_pc s) \<le> length (filter (\<lambda>a. a = Turn) as) \<Longrightarrow> rs_pc s' = Terminated"
proof (induction as arbitrary: s)
  case Nil
  then show ?case by (cases "rs_pc s") auto
next
  case (Cons a as)
  then obtain s1 where s1: "act a s = Inr s1" "replay_run as s1 = Inr s'" by (auto simp: rbind_Inr_iff)
  have stop: "rp_stop_requested s1" using stop_act [OF s1(1) Cons.prems(2)] by simp
  show ?case
  proof (cases "a = Turn")
    case True
    with s1 awake_turn [of s s1] Cons.prems have "awake s1"
      "rs_pc s = Terminated \<and> rs_pc s1 = Terminated \<or> stop_rank (rs_pc s1) < stop_rank (rs_pc s)" by auto
    with Cons.IH [OF s1(2) stop] Cons.prems(4) True show ?thesis by auto
  next
    case False
    with awake_act [OF s1(1) Cons.prems(2,3) False] Cons.IH [OF s1(2) stop] Cons.prems(4) show ?thesis by simp
  qed
qed

lemma stop_run:
  assumes "replay_run as s = Inr s'" and "rp_stop_requested s"
  shows "rp_stop_requested s' \<and>
     (rs_log s' = rs_log s \<and> (rs_pc s' = Apply_Event \<longrightarrow> rs_pc s = Apply_Event \<and> rs_rest s' = rs_rest s) \<or>
      rs_pc s = Apply_Event \<and> rs_pc s' \<noteq> Apply_Event \<and> (\<exists>t. rs_log s' = rs_log s @ [(t, hd (rs_rest s))]))"
proof (rule replay_run_invariant [where s = s and s' = s', OF _ _ assms(1)], goal_cases)
  case (1 a s1 s2)
  from stop_act [OF 1(1)] 1(2) show ?case by auto
qed (use assms(2) in simp)

text \<open>
  C21: once the stop flag is set, at most one more event is applied, the one whose final test of the
  flag came before; and when the request has reached the thread, that is when the thread is not
  blocked in a wait or has been woken, five of its steps end it, with \<open>finished\<close> set.
\<close>

theorem stop_is_prompt:
  assumes "\<not> rp_finished p" and "replay_run bs (start_thread (replay_of now p)) = Inr s"
    and "rp_stop_requested s" and "replay_run as s = Inr s'"
  shows "(rs_log s' = rs_log s \<or> rs_pc s = Apply_Event \<and> (\<exists>t. rs_log s' = rs_log s @ [(t, hd (rs_rest s))])) \<and>
     (awake s \<and> 5 \<le> length (filter (\<lambda>a. a = Turn) as) \<longrightarrow> rs_pc s' = Terminated \<and> rp_finished s')"
proof -
  have "replay_run (bs @ as) (start_thread (replay_of now p)) = Inr s'"
    using assms(2,4) by (simp add: replay_run_append)
  from order_inv_run [OF assms(1) this] have "order_inv p s'" .
  then have "rs_pc s' = Terminated \<Longrightarrow> rp_finished s'" by (simp add: order_inv_def)
  moreover have "awake s \<and> 5 \<le> length (filter (\<lambda>a. a = Turn) as) \<Longrightarrow> rs_pc s' = Terminated"
    using awake_run [OF assms(4,3)] stop_rank_le [of "rs_pc s"] by linarith
  ultimately show ?thesis using stop_run [OF assms(4,3)] by blast
qed

text \<open>\<open>requestStop\<close> itself wakes a blocked thread, but not one that is about to block.\<close>

lemma requestStop_awake:
  "rs_pc s \<noteq> Not_Started \<Longrightarrow> \<forall>t. rs_pc s \<noteq> Stall_Enter t \<and> rs_pc s \<noteq> Target_Enter t \<Longrightarrow> awake (requestStop s)"
  by (cases "rs_pc s") (auto simp: awake_def requestStop_def notify_all_def store_stop_def)

lemma requestStop_entering:
  "rs_pc s = Target_Enter t \<Longrightarrow> requestStop s = s\<lparr>rp_stop_requested := True\<rparr>"
  by (simp add: requestStop_def notify_all_def store_stop_def)

lemma clock_act: "act a s = Inr s' \<Longrightarrow> rs_clock s \<le> rs_clock s'"
proof (cases a)
  case Turn
  moreover assume "act a s = Inr s'"
  ultimately have "run_step s = Inr s'" by simp
  then show ?thesis by (cases rule: run_step_cases) auto
next
  case Notify
  moreover assume "act a s = Inr s'"
  ultimately show ?thesis by (cases "rs_pc s") (auto simp: notify_all_def)
qed (auto simp: store_stop_def)

lemma clock_run: "replay_run as s = Inr s' \<Longrightarrow> rs_clock s \<le> rs_clock s'"
  by (induction as arbitrary: s) (auto simp: rbind_Inr_iff dest: clock_act order_trans)

lemma asleep_run:
  "replay_run as s = Inr s' \<Longrightarrow> rs_pc s = Target_Wait t \<Longrightarrow> \<not> rs_notified s \<Longrightarrow> Notify \<notin> set as \<Longrightarrow>
     rs_clock s' < t \<Longrightarrow> rs_pc s' = Target_Wait t \<and> rp_finished s' = rp_finished s \<and> rs_clock s \<le> rs_clock s'"
proof (induction as arbitrary: s)
  case (Cons a as)
  then obtain s1 where s1: "act a s = Inr s1" "replay_run as s1 = Inr s'" by (auto simp: rbind_Inr_iff)
  show ?case
  proof (cases a)
    case Turn
    show ?thesis
    proof (cases "t \<le> rs_clock s")
      case True
      with clock_run [OF Cons.prems(1)] Cons.prems(5) show ?thesis by simp
    next
      case False
      with Turn s1 Cons.prems have "s1 = s" by (simp add: run_step_def)
      with Cons s1 show ?thesis by simp
    qed
  next
    case (Advance d)
    with s1 Cons.prems Cons.IH [OF s1(2)] show ?thesis by auto
  next
    case Store_Stop
    with s1 Cons.prems Cons.IH [OF s1(2)] show ?thesis by (auto simp: store_stop_def)
  next
    case Notify
    with Cons.prems(4) show ?thesis by simp
  qed
qed simp

text \<open>
  C22: a stop request can be lost. If it comes after the thread has tested the flag and before it
  blocks, which the store and the notification without the lock allow, the thread blocks and sleeps
  until the time of its next event, however far away, unless something wakes it again.
\<close>

theorem lost_wakeup:
  assumes "rs_pc s = Target_Enter t" and "replay_run (Turn # as) (requestStop s) = Inr s'"
    and "Notify \<notin> set as" and "rs_clock s' < t"
  shows "rs_pc s' = Target_Wait t \<and> rp_finished s' = rp_finished s"
proof -
  have "run_step (requestStop s) = Inr (s\<lparr>rp_stop_requested := True, rs_pc := Target_Wait t, rs_notified := False\<rparr>)"
    by (simp add: requestStop_entering [OF assms(1)] run_step_def assms(1))
  with assms asleep_run [of as "s\<lparr>rp_stop_requested := True, rs_pc := Target_Wait t, rs_notified := False\<rparr>" s' t]
  show ?thesis by simp
qed

section \<open>Examples at the default speed\<close>

lemma default_speed: "\<bar>ts\<bar> < 2 ^ 43 \<Longrightarrow> replay_offset (of_integer 1) ts = Inr (ts * 1000000)"
proof -
  assume ts: "\<bar>ts\<bar> < 2 ^ 43"
  have 1: "dfinite (of_integer 1) \<and> dval (of_integer 1) = 1" using of_integer_exact [of 1] by simp
  have x: "dfinite (of_integer ts) \<and> dval (of_integer ts) = of_int ts" using of_integer_exact [of ts] ts by simp
  have "representable \<bar>of_int ts\<bar>" using ts by (intro representable_of_int) simp
  with 1 x ddiv_exact [of "of_integer ts" "of_integer 1"]
  have "dfinite (ddiv (of_integer ts) (of_integer 1)) \<and> dval (ddiv (of_integer ts) (of_integer 1)) = of_int ts"
    by simp
  then have "cast_long (ddiv (of_integer ts) (of_integer 1)) = Inr ts"
    using ts by (intro cast_long_exact) auto
  then show ?thesis using ts by (auto simp: replay_offset_def to_ns_def long_mul_def long_check_def)
qed

definition sample_events :: "bool replay_event list" where
  "sample_events = [\<lparr>re_ts_ms = 1000, re_apply = True\<rparr>, \<lparr>re_ts_ms = 0, re_apply = False\<rparr>]"

definition sample_producer :: "bool producer" where
  "sample_producer = injectStall 500 100 (new_producer (sort_key re_ts_ms) ''gps'' sample_events 0 (of_integer 1))"

definition sample_start :: "bool replay" where
  "sample_start = start_thread (replay_of 0 sample_producer)"

lemma sample_start_eq:
  "sample_start = \<lparr>rp_name = ''gps'', rp_events = [\<lparr>re_ts_ms = 0, re_apply = False\<rparr>, \<lparr>re_ts_ms = 1000, re_apply = True\<rparr>],
     rp_replay_start = 0, rp_speed_factor = of_integer 1, rp_stall_after_ms = 500, rp_stall_duration = 100,
     rp_stop_requested = False, rp_finished = False, rs_pc = Loop_Head,
     rs_rest = [\<lparr>re_ts_ms = 0, re_apply = False\<rparr>, \<lparr>re_ts_ms = 1000, re_apply = True\<rparr>],
     rs_stalled_once = False, rs_notified = False, rs_clock = 0, rs_log = []\<rparr>"
  by (simp add: sample_start_def sample_producer_def start_thread_def replay_of_def injectStall_def new_producer_def
      sample_events_def producer.defs)

lemmas sample_eval = run_step_def default_speed to_ns_def long_mul_def long_add_def long_sub_def long_check_def

text \<open>
  The stall begins with the event before the trigger and replaces the time up to the triggering
  event: an event due after a second is applied after the 100 milliseconds of the stall.
\<close>

definition stall_schedule :: "action list" where
  "stall_schedule = [Turn, Turn, Turn, Turn, Turn, Turn, Turn, Turn, Turn, Turn, Turn, Advance 100000000,
     Turn, Turn, Turn, Turn, Turn, Turn, Turn, Turn, Turn, Turn, Turn]"

lemma stall_fires_early:
  "\<exists>s. replay_run stall_schedule sample_start = Inr s \<and> rs_pc s = Terminated \<and>
     rs_log s = [(0, \<lparr>re_ts_ms = 0, re_apply = False\<rparr>), (100000000, \<lparr>re_ts_ms = 1000, re_apply = True\<rparr>)]"
  by (simp add: stall_schedule_def sample_start_eq sample_eval)

lemma sample_early_late:
  "early_part sample_producer [(0, \<lparr>re_ts_ms = 0, re_apply = False\<rparr>), (100000000, \<lparr>re_ts_ms = 1000, re_apply = True\<rparr>)] =
     [(0, \<lparr>re_ts_ms = 0, re_apply = False\<rparr>)]"
  "late_part sample_producer [(0, \<lparr>re_ts_ms = 0, re_apply = False\<rparr>), (100000000, \<lparr>re_ts_ms = 1000, re_apply = True\<rparr>)] =
     [(100000000, \<lparr>re_ts_ms = 1000, re_apply = True\<rparr>)]"
  by (simp_all add: early_part_def late_part_def crosses_def sample_producer_def injectStall_def new_producer_def)

theorem replay_order_and_pace_witness:
  "\<exists>s as1 as2 as3 s1 s2. replay_run stall_schedule sample_start = Inr s \<and>
     sorted (map re_ts_ms (map snd (rs_log s))) \<and> stall_schedule = as1 @ as2 @ as3 \<and>
     replay_run as1 sample_start = Inr s1 \<and> rs_pc s1 = Stall_Begin \<and>
     replay_run as2 s1 = Inr s2 \<and> rs_pc s2 = Reanchor \<and> rs_log s2 = [(0, \<lparr>re_ts_ms = 0, re_apply = False\<rparr>)] \<and>
     rs_clock s1 + 100000000 \<le> rs_clock s2 \<and> rs_clock s2 \<le> 100000000"
proof -
  obtain s where s: "replay_run stall_schedule sample_start = Inr s" "rs_pc s = Terminated"
    "rs_log s = [(0, \<lparr>re_ts_ms = 0, re_apply = False\<rparr>), (100000000, \<lparr>re_ts_ms = 1000, re_apply = True\<rparr>)]"
    using stall_fires_early by blast
  note pace = replay_order_and_pace [OF sorts_by_sort_key sample_producer_def s(1) [unfolded sample_start_def],
    unfolded s(3) sample_early_late, folded sample_start_def]
  have "sorted (map re_ts_ms (map snd (rs_log s)))" using pace by (simp add: s(3))
  with pace show ?thesis using s(1) unfolding s(3) by (fastforce simp: s(3))
qed

text \<open>A stop request that reaches the blocked thread.\<close>

definition stop_schedule :: "action list" where
  "stop_schedule = [Turn, Turn, Turn, Turn, Store_Stop, Notify]"

lemma stop_schedule_run:
  "\<exists>s. replay_run stop_schedule sample_start = Inr s \<and> rp_stop_requested s \<and> awake s \<and> rs_log s = [] \<and> rs_pc s = Target_Wait 0 \<and>
     (\<exists>s'. replay_run [Turn, Turn, Turn, Turn, Turn] s = Inr s')"
  by (simp add: stop_schedule_def sample_start_eq sample_eval store_stop_def notify_all_def awake_def)

theorem stop_is_prompt_witness:
  "\<exists>s s'. replay_run stop_schedule sample_start = Inr s \<and> replay_run [Turn, Turn, Turn, Turn, Turn] s = Inr s' \<and>
     rs_log s' = [] \<and> rp_finished s'"
proof -
  obtain s s' where s: "replay_run stop_schedule sample_start = Inr s" "rp_stop_requested s" "awake s" "rs_log s = []"
      "rs_pc s = Target_Wait 0" and s': "replay_run [Turn, Turn, Turn, Turn, Turn] s = Inr s'"
    using stop_schedule_run by blast
  have "\<not> rp_finished sample_producer"
    by (simp add: sample_producer_def injectStall_def new_producer_def)
  from stop_is_prompt [OF this s(1) [unfolded sample_start_def] s(2) s'] s show ?thesis using s' by auto
qed

definition lone_start :: "bool replay" where
  "lone_start = start_thread (replay_of 0 (new_producer (sort_key re_ts_ms) ''gps'' [\<lparr>re_ts_ms = 1000, re_apply = True\<rparr>] 0 (of_integer 1)))"

lemma lone_start_run:
  "\<exists>s s'. replay_run [Turn, Turn, Turn] lone_start = Inr s \<and> rs_pc s = Target_Enter 1000000000 \<and>
     replay_run [Turn, Turn, Advance 999999999, Turn] (requestStop s) = Inr s' \<and> rs_clock s' = 999999999"
  by (simp add: lone_start_def start_thread_def replay_of_def new_producer_def producer.defs sample_eval
      requestStop_def store_stop_def notify_all_def)

theorem lost_wakeup_witness:
  "\<exists>s s'. replay_run [Turn, Turn, Turn] lone_start = Inr s \<and>
     replay_run [Turn, Turn, Advance 999999999, Turn] (requestStop s) = Inr s' \<and> rs_pc s' = Target_Wait 1000000000"
proof -
  obtain s s' where s: "replay_run [Turn, Turn, Turn] lone_start = Inr s" "rs_pc s = Target_Enter 1000000000"
     "replay_run [Turn, Turn, Advance 999999999, Turn] (requestStop s) = Inr s'" "rs_clock s' = 999999999"
    using lone_start_run by blast
  from lost_wakeup [OF s(2,3)] s(4) have "rs_pc s' = Target_Wait 1000000000" by simp
  with s show ?thesis by blast
qed

end
