(* ===== verification/Sensor_Producer_Live.thy ===== *)
theory Sensor_Producer_Live
  imports Sensor_Producer
begin

text \<open>
  That the replay thread of \<open>sensor_producer.cpp\<close> ends: a measure that its steps decrease, progress of
  a blocked thread at its deadline, and the absence of undefined arithmetic in a sane range of times
  and speeds. A speed of zero is outside it.
\<close>

section \<open>The measure\<close>

fun pc_rank :: "run_pc \<Rightarrow> nat" where
  "pc_rank Terminated = 0"
| "pc_rank Store_Finished = 1"
| "pc_rank Apply_Event = 2"
| "pc_rank Target_Done = 3"
| "pc_rank (Target_Wait t) = 4"
| "pc_rank (Target_Enter t) = 5"
| "pc_rank (Target_Test t) = 6"
| "pc_rank Set_Target = 7"
| "pc_rank Loop_Head = 8"
| "pc_rank Reanchor = 8"
| "pc_rank Stall_Done = 9"
| "pc_rank (Stall_Wait t) = 10"
| "pc_rank (Stall_Enter t) = 11"
| "pc_rank (Stall_Test t) = 12"
| "pc_rank Stall_Begin = 13"
| "pc_rank Not_Started = 0"

fun blocked :: "run_pc \<Rightarrow> bool" where
  "blocked (Stall_Wait t) = True"
| "blocked (Target_Wait t) = True"
| "blocked _ = False"

text \<open>Seven steps per event, six for the stall, three for every wake-up of a blocked thread.\<close>

definition work_left :: "'a replay \<Rightarrow> nat" where
  "work_left s = pc_rank (rs_pc s) + 7 * length (rs_rest s) + (if rs_stalled_once s then 0 else 6) +
     (if blocked (rs_pc s) \<and> rs_notified s then 3 else 0)"

lemma work_left_turn:
  assumes "run_step s = Inr s'" and "order_inv p s"
  shows "work_left s' \<le> work_left s \<and> (rs_pc s' \<noteq> rs_pc s \<longrightarrow> work_left s' < work_left s)"
  using assms(1)
proof (cases rule: run_step_cases)
  case apply_event
  with assms(2) show ?thesis by (cases "rs_rest s") (auto simp: work_left_def order_inv_def in_body_def)
qed (auto simp: work_left_def)

lemma work_left_act:
  assumes "act a s = Inr s'" and "a \<noteq> Turn"
  shows "work_left s' \<le> work_left s + (if a = Notify then 3 else 0)"
  using assms by (cases a; cases "rs_pc s") (auto simp: work_left_def store_stop_def notify_all_def)

text \<open>The number of steps of a schedule that change the program point of the thread.\<close>

fun turns_taken :: "action list \<Rightarrow> 'a replay \<Rightarrow> nat" where
  "turns_taken [] s = 0"
| "turns_taken (a # as) s =
     (case act a s of
        Inl e \<Rightarrow> 0
      | Inr s' \<Rightarrow> of_bool (a = Turn \<and> rs_pc s' \<noteq> rs_pc s) + turns_taken as s')"

lemma turns_bounded:
  "replay_run as s = Inr s' \<Longrightarrow> order_inv p s \<Longrightarrow>
     turns_taken as s \<le> work_left s + 3 * length (filter (\<lambda>a. a = Notify) as)"
proof (induction as arbitrary: s)
  case (Cons a as)
  then obtain s1 where s1: "act a s = Inr s1" "replay_run as s1 = Inr s'" by (auto simp: rbind_Inr_iff)
  from Cons.IH [OF s1(2) order_inv_act [OF s1(1) Cons.prems(2)]]
  have IH: "turns_taken as s1 \<le> work_left s1 + 3 * length (filter (\<lambda>a. a = Notify) as)" .
  show ?case
  proof (cases "a = Turn")
    case True
    with s1 work_left_turn [of s s1 p] Cons.prems(2) IH show ?thesis by auto
  next
    case False
    with work_left_act [OF s1(1) False] IH s1(1) show ?thesis by auto
  qed
qed simp

section \<open>The end of the loop\<close>

definition end_inv :: "'a replay \<Rightarrow> bool" where
  "end_inv s \<longleftrightarrow> rs_pc s = Store_Finished \<or> rs_pc s = Terminated \<longrightarrow> rp_stop_requested s \<or> rs_rest s = []"

lemma end_inv_act:
  assumes "act a s = Inr s'" and "end_inv s"
  shows "end_inv s'"
proof (cases a)
  case Turn
  with assms(1) have "run_step s = Inr s'" by simp
  then show ?thesis using assms(2) by (cases rule: run_step_cases) (auto simp: end_inv_def)
next
  case Notify
  with assms show ?thesis by (cases "rs_pc s") (auto simp: end_inv_def notify_all_def)
qed (use assms in \<open>auto simp: end_inv_def store_stop_def\<close>)

lemma end_inv_start: "end_inv (start_thread (replay_of now p))"
  by (simp add: end_inv_def start_thread_def)

lemma end_inv_run: "replay_run as (start_thread (replay_of now p)) = Inr s \<Longrightarrow> end_inv s"
  by (rule replay_run_invariant [of end_inv "start_thread (replay_of now p)" as])
     (auto intro: end_inv_act end_inv_start)

text \<open>A thread that has not ended moves at the latest when the clock reaches its deadline.\<close>

definition deadline :: "'a replay \<Rightarrow> int" where
  "deadline s = (case rs_pc s of Stall_Wait t \<Rightarrow> t | Target_Wait t \<Rightarrow> t | _ \<Rightarrow> rs_clock s)"

lemma turn_moves:
  assumes "run_step s = Inr s'" and "deadline s \<le> rs_clock s" and "rs_pc s \<notin> {Not_Started, Terminated}"
  shows "rs_pc s' \<noteq> rs_pc s"
  using assms by (cases rule: run_step_cases) (auto simp: deadline_def)

text \<open>
  C14: the replay ends. In any schedule the thread makes at most seven steps per event, fourteen for
  the loop's end and the stall, and three per wake-up; while it has not ended, its next step moves it
  as soon as the clock has reached its deadline; and when it has ended, \<open>finished\<close> is set and every
  event was applied unless a stop was requested.
\<close>

theorem replay_terminates:
  assumes "\<not> rp_finished p" and "replay_run as (start_thread (replay_of now p)) = Inr s"
  shows "turns_taken as (start_thread (replay_of now p)) \<le>
       7 * length (rp_events p) + 14 + 3 * length (filter (\<lambda>a. a = Notify) as) \<and>
     (rs_pc s \<noteq> Terminated \<longrightarrow>
       (\<forall>d s'. deadline s \<le> rs_clock s + int d \<and> replay_run [Advance d, Turn] s = Inr s' \<longrightarrow> rs_pc s' \<noteq> rs_pc s)) \<and>
     (rs_pc s = Terminated \<longrightarrow> rp_finished s \<and> (rp_stop_requested s \<or> map snd (rs_log s) = rp_events p))"
proof -
  have o: "order_inv p s" by (rule order_inv_run [OF assms])
  have "turns_taken as (start_thread (replay_of now p)) \<le>
      work_left (start_thread (replay_of now p)) + 3 * length (filter (\<lambda>a. a = Notify) as)"
    by (rule turns_bounded [OF assms(2) order_inv_start [OF assms(1)]])
  moreover have "work_left (start_thread (replay_of now p)) = 7 * length (rp_events p) + 14"
    by (simp add: work_left_def start_thread_def replay_of_def producer.defs)
  moreover have "rs_pc s' \<noteq> rs_pc s" if "deadline s \<le> rs_clock s + int d" "replay_run [Advance d, Turn] s = Inr s'"
      "rs_pc s \<noteq> Terminated" for d s'
  proof -
    let ?s = "s\<lparr>rs_clock := rs_clock s + int d\<rparr>"
    have "run_step ?s = Inr s'" using that(2) by (cases "run_step ?s") simp_all
    moreover have "deadline ?s \<le> rs_clock ?s" using that(1) by (simp add: deadline_def split: run_pc.splits)
    ultimately show ?thesis using turn_moves [of ?s s'] that(3) o by (simp add: order_inv_def)
  qed
  moreover have "rp_finished s \<and> (rp_stop_requested s \<or> map snd (rs_log s) = rp_events p)" if "rs_pc s = Terminated"
    using o end_inv_run [OF assms(2)] that by (auto simp: order_inv_def end_inv_def)
  ultimately show ?thesis by auto
qed

theorem replay_terminates_witness:
  "\<exists>s. replay_run stall_schedule sample_start = Inr s \<and> turns_taken stall_schedule sample_start \<le> 28 \<and>
     rp_finished s \<and> (rp_stop_requested s \<or> map re_apply (map snd (rs_log s)) = [False, True])"
proof -
  obtain s where s: "replay_run stall_schedule sample_start = Inr s" "rs_pc s = Terminated"
    using stall_fires_early by blast
  have p: "\<not> rp_finished sample_producer" "rp_events sample_producer = [\<lparr>re_ts_ms = 0, re_apply = False\<rparr>, \<lparr>re_ts_ms = 1000, re_apply = True\<rparr>]"
    by (simp_all add: sample_producer_def injectStall_def new_producer_def sample_events_def)
  from replay_terminates [OF p(1) s(1) [unfolded sample_start_def]] s show ?thesis
    by (auto simp: p(2) sample_start_def [symmetric] stall_schedule_def)
qed

section \<open>Definedness\<close>

fun advanced :: "action list \<Rightarrow> int" where
  "advanced [] = 0"
| "advanced (Advance d # as) = int d + advanced as"
| "advanced (_ # as) = advanced as"

text \<open>
  Times in range: every scaled event time is defined, and it, the start, the stall and the clock
  readings stay within a quarter of the range of \<open>long\<close> in nanoseconds, about 73 years.
\<close>

definition in_range :: "int \<Rightarrow> bool" where
  "in_range t \<longleftrightarrow> \<bar>t\<bar> \<le> 2 ^ 61"

definition times_ok :: "'a producer \<Rightarrow> bool" where
  "times_ok p \<longleftrightarrow> in_range (rp_replay_start p) \<and> in_range (stall_ns p) \<and>
     (\<forall>ev \<in> set (rp_events p). \<exists>d. replay_offset (rp_speed_factor p) (re_ts_ms ev) = Inr d \<and> in_range d)"

definition start_inv :: "'a replay \<Rightarrow> bool" where
  "start_inv s \<longleftrightarrow> \<bar>rp_replay_start s\<bar> \<le> 2 ^ 62"

lemma turn_defined:
  assumes "times_ok p" and "order_inv p s" and "start_inv s" and "in_range (rs_clock s)"
  shows "\<exists>s'. run_step s = Inr s' \<and> start_inv s'"
proof -
  have ev: "\<exists>d. replay_offset (rp_speed_factor s) (re_ts_ms (hd (rs_rest s))) = Inr d \<and> \<bar>d\<bar> \<le> 2 ^ 61" if "in_body (rs_pc s)"
  proof -
    have "hd (rs_rest s) \<in> set (rp_events p)"
      using assms(2) that by (metis Un_iff list.set_sel(1) order_inv_def set_append)
    then show ?thesis using assms(1,2) by (simp add: times_ok_def order_inv_def in_range_def)
  qed
  show ?thesis
  proof (cases "rs_pc s")
    case Stall_Begin
    define d where "d = rp_stall_duration s * 1000000"
    have "\<bar>d\<bar> \<le> 2 ^ 61" using assms(1,2)
      by (simp add: times_ok_def order_inv_def in_range_def stall_ns_def d_def)
    then have "to_ns (rp_stall_duration s) = Inr d" "long_add (rs_clock s) d = Inr (rs_clock s + d)"
      using assms(4) by (simp_all add: to_ns_def long_mul_def long_add_def long_check_def in_range_def abs_le_iff flip: d_def)
    then show ?thesis using assms(3) Stall_Begin by (simp add: run_step_def start_inv_def)
  next
    case Reanchor
    with ev obtain d where "replay_offset (rp_speed_factor s) (re_ts_ms (hd (rs_rest s))) = Inr d" "\<bar>d\<bar> \<le> 2 ^ 61"
      by (auto simp: in_body_def)
    then show ?thesis using assms(4) Reanchor
      by (simp add: run_step_def long_sub_def long_check_def in_range_def start_inv_def abs_le_iff)
  next
    case Set_Target
    with ev obtain d where "replay_offset (rp_speed_factor s) (re_ts_ms (hd (rs_rest s))) = Inr d" "\<bar>d\<bar> \<le> 2 ^ 61"
      by (auto simp: in_body_def)
    then show ?thesis using assms(3) Set_Target
      by (simp add: run_step_def long_add_def long_check_def start_inv_def abs_le_iff)
  qed (use assms(3) in \<open>auto simp: run_step_def start_inv_def split: list.split\<close>)
qed

lemma run_defined:
  "times_ok p \<Longrightarrow> order_inv p s \<Longrightarrow> start_inv s \<Longrightarrow> 0 \<le> rs_clock s \<Longrightarrow> rs_clock s + advanced as \<le> 2 ^ 61 \<Longrightarrow>
     \<exists>s'. replay_run as s = Inr s'"
proof (induction as arbitrary: s)
  case (Cons a as)
  have adv: "0 \<le> advanced as" by (induction as rule: advanced.induct) simp_all
  show ?case
  proof (cases a)
    case Turn
    with Cons.prems adv have "in_range (rs_clock s)" by (simp add: in_range_def)
    then obtain s1 where s1: "run_step s = Inr s1" "start_inv s1"
      using turn_defined Cons.prems by blast
    have "rs_clock s1 = rs_clock s" using s1(1) by (cases rule: run_step_cases) auto
    with Cons.IH [of s1] Cons.prems s1 order_inv_run_step [OF s1(1)] Turn show ?thesis by simp
  next
    case (Advance d)
    have "order_inv p (s\<lparr>rs_clock := rs_clock s + int d\<rparr>)" using order_inv_act [of "Advance d" s] Cons.prems(2) by simp
    with Cons.IH [of "s\<lparr>rs_clock := rs_clock s + int d\<rparr>"] Cons.prems Advance show ?thesis by (simp add: start_inv_def)
  next
    case Store_Stop
    have "order_inv p (store_stop s)" using order_inv_act [of Store_Stop s] Cons.prems(2) by simp
    with Cons.IH [of "store_stop s"] Cons.prems Store_Stop show ?thesis by (simp add: start_inv_def store_stop_def)
  next
    case Notify
    have "order_inv p (notify_all s)" using order_inv_act [of Notify s] Cons.prems(2) by simp
    moreover have "rs_clock (notify_all s) = rs_clock s" "rp_replay_start (notify_all s) = rp_replay_start s"
      by (simp_all add: notify_all_def split: run_pc.split)
    ultimately show ?thesis using Cons.IH [of "notify_all s"] Cons.prems Notify by (simp add: start_inv_def)
  qed
qed simp

text \<open>
  C40: no schedule makes the replay thread compute an undefined time, as long as the scaled event
  times are defined and all times stay in range.
\<close>

theorem replay_defined:
  assumes "\<not> rp_finished p" and "times_ok p" and "0 \<le> now" and "now + advanced as \<le> 2 ^ 61"
  shows "\<exists>s. replay_run as (start_thread (replay_of now p)) = Inr s"
proof (rule run_defined [OF assms(2) order_inv_start [OF assms(1)]])
  show "start_inv (start_thread (replay_of now p))"
    using assms(2) by (simp add: start_inv_def times_ok_def in_range_def start_thread_def replay_of_def producer.defs)
qed (use assms(3,4) in \<open>simp_all add: start_thread_def replay_of_def producer.defs\<close>)

theorem replay_defined_witness: "\<exists>s. replay_run stall_schedule (start_thread (replay_of 5 sample_producer)) = Inr s"
proof (rule replay_defined)
  show "\<not> rp_finished sample_producer" by (simp add: sample_producer_def injectStall_def new_producer_def)
  show "times_ok sample_producer"
    by (simp add: times_ok_def in_range_def stall_ns_def sample_producer_def injectStall_def new_producer_def
        sample_events_def default_speed)
qed (simp_all add: stall_schedule_def)

text \<open>With a speed of zero the scaled time is infinite or not a number, and its conversion undefined.\<close>

lemma speed_zero_undefined: "replay_offset (Finite s 0 e) ts = Inl (UB ''double to long'')"
proof -
  have "dtrunc (ddiv (of_integer ts) (Finite s 0 e)) = None" by (cases "of_integer ts") simp_all
  then show ?thesis by (simp add: replay_offset_def cast_long_def)
qed

end
