(* ===== verification/Csv_Reader.thy ===== *)
theory Csv_Reader
  imports Cpp_Text
begin

text \<open>
  The reader of the sensor logs, \<open>task2_sensor_aggregator/src/csv_reader.cpp\<close>: lines with an
  optional carriage return, empty lines skipped, fields separated by commas. It inverts a printer of
  rows with either line ending; a comma at the end of a line does not start another field, and the
  fields are not trimmed.
\<close>

section \<open>The reader\<close>

definition carriage_return :: char where "carriage_return = CHR 0x0D"

definition strip_cr :: "string \<Rightarrow> string" where
  "strip_cr line = (if line \<noteq> [] \<and> last line = carriage_return then butlast line else line)"

definition csv_fields :: "string \<Rightarrow> string list" where
  "csv_fields line = getlines CHR '','' line"

fun csv_rows :: "string list \<Rightarrow> string list list" where
  "csv_rows [] = []"
| "csv_rows (l # ls) = (let line = strip_cr l in if line = [] then csv_rows ls else csv_fields line # csv_rows ls)"

text \<open>The contents of the file are an argument, \<open>None\<close> when it cannot be opened.\<close>

definition csv_readAll :: "string \<Rightarrow> string option \<Rightarrow> string list list result" where
  "csv_readAll path contents =
     (case contents of
        None \<Rightarrow> Inl (Runtime_Error (''Could not open CSV file: '' @ path))
      | Some input \<Rightarrow> Inr (csv_rows (getlines newline input)))"

section \<open>Printing rows\<close>

fun join_fields :: "string list \<Rightarrow> string" where
  "join_fields [] = []"
| "join_fields [f] = f"
| "join_fields (f # g # fs) = f @ '','' @ join_fields (g # fs)"

definition csv_text :: "bool \<Rightarrow> string list list \<Rightarrow> string" where
  "csv_text crlf rows = line_text (map (\<lambda>r. join_fields r @ (if crlf then [carriage_return] else [])) rows)"

definition plain_field :: "string \<Rightarrow> bool" where
  "plain_field f \<longleftrightarrow> CHR '','' \<notin> set f \<and> newline \<notin> set f \<and> carriage_return \<notin> set f"

definition plain_row :: "string list \<Rightarrow> bool" where
  "plain_row r \<longleftrightarrow> (\<forall>f \<in> set r. plain_field f)"

text \<open>What a printed row is read back as: an empty last field is lost, an empty line is no row.\<close>

definition kept_row :: "string list \<Rightarrow> bool" where
  "kept_row r \<longleftrightarrow> r \<noteq> [] \<and> r \<noteq> ['''']"

definition read_row :: "string list \<Rightarrow> string list" where
  "read_row r = (if last r = [] then butlast r else r)"

section \<open>Reading back what was printed\<close>

lemma split_at_none: "d \<notin> set g \<Longrightarrow> split_at d acc g = (if acc = [] \<and> g = [] then [] else [rev acc @ g])"
  by (induction g arbitrary: acc) auto

lemma csv_fields_join: "\<forall>f \<in> set r. CHR '','' \<notin> set f \<Longrightarrow> r \<noteq> [] \<Longrightarrow> csv_fields (join_fields r) = read_row r"
  unfolding csv_fields_def getlines_def
proof (induction r rule: join_fields.induct)
  case (2 f)
  then show ?case by (simp add: split_at_none read_row_def)
next
  case (3 f g fs)
  then show ?case using split_at_line [of "CHR '',''" f "[]" "join_fields (g # fs)"] by (simp add: read_row_def)
qed simp

lemma set_join_fields: "c \<in> set (join_fields r) \<Longrightarrow> c = CHR '','' \<or> (\<exists>f \<in> set r. c \<in> set f)"
  by (induction r rule: join_fields.induct) auto

lemma join_fields_line:
  assumes "plain_row r"
  shows "newline \<notin> set (join_fields r)" and "carriage_return \<notin> set (join_fields r)"
    and "join_fields r = [] \<longleftrightarrow> \<not> kept_row r"
proof -
  have *: "c \<in> set (join_fields r) \<Longrightarrow> c \<noteq> newline \<and> c \<noteq> carriage_return" for c
    using set_join_fields [of c r] assms
    by (auto simp: plain_row_def plain_field_def newline_def carriage_return_def)
  then show "newline \<notin> set (join_fields r)" and "carriage_return \<notin> set (join_fields r)" by blast+
  show "join_fields r = [] \<longleftrightarrow> \<not> kept_row r"
    by (induction r rule: join_fields.induct) (auto simp: kept_row_def)
qed

lemma strip_cr_line:
  "carriage_return \<notin> set l \<Longrightarrow> strip_cr (l @ (if crlf then [carriage_return] else [])) = l"
proof (cases crlf)
  case True
  then show ?thesis by (simp add: strip_cr_def butlast_append)
next
  case False
  assume "carriage_return \<notin> set l"
  then have "l \<noteq> [] \<Longrightarrow> last l \<noteq> carriage_return" using last_in_set by metis
  with False show ?thesis by (auto simp: strip_cr_def)
qed

lemma csv_rows_printed:
  "\<forall>r \<in> set rows. plain_row r \<Longrightarrow>
     csv_rows (map (\<lambda>r. join_fields r @ (if crlf then [carriage_return] else [])) rows) =
       map read_row (filter kept_row rows)"
proof (induction rows)
  case (Cons r rows)
  have r: "plain_row r" using Cons.prems by simp
  have "csv_fields (join_fields r) = read_row r" if "kept_row r"
    using r that by (intro csv_fields_join) (auto simp: plain_row_def plain_field_def kept_row_def)
  with Cons show ?case
    unfolding list.map csv_rows.simps strip_cr_line [OF join_fields_line(2) [OF r]]
    by (simp add: join_fields_line(3) [OF r] Let_def)
qed simp

text \<open>
  Rows printed one per line, with Unix or DOS line endings and fields free of commas and line
  breaks, are read back unchanged, except that an empty last field is lost and that a row that
  prints as an empty line is not a row.
\<close>

lemma csv_readAll_printed:
  assumes "\<forall>r \<in> set rows. plain_row r"
  shows "csv_readAll path (Some (csv_text crlf rows)) = Inr (map read_row (filter kept_row rows))"
proof -
  have "\<forall>l \<in> set (map (\<lambda>r. join_fields r @ (if crlf then [carriage_return] else [])) rows). newline \<notin> set l"
    using assms join_fields_line(1) by (auto simp: newline_def carriage_return_def)
  from getlines_line_text [OF this] csv_rows_printed [OF assms, of crlf] show ?thesis
    by (simp only: csv_readAll_def csv_text_def option.case)
qed

text \<open>Blanks around a field are kept, although the header announces trimmed fields.\<close>

lemma fields_untrimmed: "csv_readAll path (Some (''0, 1 '' @ [newline])) = Inr [[''0'', '' 1 '']]"
  by (simp add: csv_readAll_def text_eval csv_fields_def strip_cr_def carriage_return_def)

end
