(* ===== verification/Agg_Main.thy ===== *)
theory Agg_Main
  imports Agg_Threads Sensor_Producer_Live Csv_Reader Cpp_Stod
begin

text \<open>
  The sensor aggregator program, \<open>task2_sensor_aggregator/src/main.cpp\<close>: its command line, the
  building of the replay events from the three logs, the texts it prints and exports, and everything
  \<open>main\<close> prepares before it starts the threads.
\<close>

section \<open>Command line\<close>

record agg_args =
  aa_speed :: double
  aa_stall_sensor :: string
  aa_stall_after_ms :: int
  aa_stall_duration_ms :: int
  aa_export_path :: string
  aa_data_dir :: string

definition default_agg_args :: agg_args where
  "default_agg_args = \<lparr>aa_speed = of_integer 1, aa_stall_sensor = '''', aa_stall_after_ms = -1,
     aa_stall_duration_ms = 0, aa_export_path = '''', aa_data_dir = ''task2_sensor_aggregator/data''\<rparr>"

definition agg_usage :: "string \<Rightarrow> string" where
  "agg_usage prog = ''Usage: '' @ prog @
     '' [--speed N] [--stall gps|imu|encoder --stall-after MS --stall-duration MS]'' @
     '' [--export path.csv] [--data-dir path]'' @ [newline]"

text \<open>The words after the program name; \<open>prog\<close> is \<open>argv[0]\<close>.\<close>

fun agg_parse :: "string \<Rightarrow> string list \<Rightarrow> agg_args \<Rightarrow> agg_args started result" where
  "agg_parse prog [] a = Inr (Running a)"
| "agg_parse prog (arg # rest) a =
     (if arg = ''--speed'' then
        with_next arg rest (\<lambda>v. rbind (stod v) (\<lambda>x. agg_parse prog (tl rest) (a\<lparr>aa_speed := x\<rparr>)))
      else if arg = ''--stall'' then
        with_next arg rest (\<lambda>v. agg_parse prog (tl rest) (a\<lparr>aa_stall_sensor := v\<rparr>))
      else if arg = ''--stall-after'' then
        with_next arg rest (\<lambda>v. rbind (stol v) (\<lambda>x. agg_parse prog (tl rest) (a\<lparr>aa_stall_after_ms := x\<rparr>)))
      else if arg = ''--stall-duration'' then
        with_next arg rest (\<lambda>v. rbind (stol v) (\<lambda>x. agg_parse prog (tl rest) (a\<lparr>aa_stall_duration_ms := x\<rparr>)))
      else if arg = ''--export'' then
        with_next arg rest (\<lambda>v. agg_parse prog (tl rest) (a\<lparr>aa_export_path := v\<rparr>))
      else if arg = ''--data-dir'' then
        with_next arg rest (\<lambda>v. agg_parse prog (tl rest) (a\<lparr>aa_data_dir := v\<rparr>))
      else if arg = ''--help'' then Inr (Exited 0 (agg_usage prog) '''')
      else Inr (unknown_argument arg))"

definition agg_parseArgs :: "string list \<Rightarrow> agg_args started result" where
  "agg_parseArgs argv = agg_parse (hd argv) (tl argv) default_agg_args"

section \<open>Events\<close>

definition gps_event :: "string list \<Rightarrow> agg_call replay_event result" where
  "gps_event r =
     rbind (stol (r ! 0)) (\<lambda>ts.
     rbind (stod (r ! 1)) (\<lambda>lat.
     rbind (stod (r ! 2)) (\<lambda>lon.
     rbind (stod (r ! 3)) (\<lambda>alt.
     rbind (stoi (r ! 4)) (\<lambda>fq.
       Inr \<lparr>re_ts_ms = ts, re_apply =
         Update_Gps \<lparr>gps_lat = lat, gps_lon = lon, gps_alt_m = alt, gps_fix_quality = fq\<rparr> ts\<rparr>)))))"

definition imu_event :: "string list \<Rightarrow> agg_call replay_event result" where
  "imu_event r =
     rbind (stol (r ! 0)) (\<lambda>ts.
     rbind (stod (r ! 1)) (\<lambda>ax.
     rbind (stod (r ! 2)) (\<lambda>ay.
     rbind (stod (r ! 3)) (\<lambda>az.
     rbind (stod (r ! 4)) (\<lambda>gx.
     rbind (stod (r ! 5)) (\<lambda>gy.
     rbind (stod (r ! 6)) (\<lambda>gz.
       Inr \<lparr>re_ts_ms = ts, re_apply =
         Update_Imu \<lparr>imu_accel_x = ax, imu_accel_y = ay, imu_accel_z = az,
           imu_gyro_x = gx, imu_gyro_y = gy, imu_gyro_z = gz\<rparr> ts\<rparr>)))))))"

definition encoder_event :: "string list \<Rightarrow> agg_call replay_event result" where
  "encoder_event r =
     rbind (stol (r ! 0)) (\<lambda>ts.
     rbind (stol (r ! 1)) (\<lambda>left.
     rbind (stol (r ! 2)) (\<lambda>right.
     rbind (stod (r ! 3)) (\<lambda>speed.
       Inr \<lparr>re_ts_ms = ts, re_apply =
         Update_Encoder \<lparr>enc_left_ticks = left, enc_right_ticks = right, enc_speed_mps = speed\<rparr> ts\<rparr>))))"

text \<open>The loop the three builders share: rows with too few fields are skipped.\<close>

fun build_events ::
    "nat \<Rightarrow> (string list \<Rightarrow> agg_call replay_event result) \<Rightarrow> string list list \<Rightarrow> agg_call replay_event list result" where
  "build_events k event [] = Inr []"
| "build_events k event (r # rs) =
     (if length r < k then build_events k event rs
      else rbind (event r) (\<lambda>ev. rbind (build_events k event rs) (\<lambda>evs. Inr (ev # evs))))"

definition buildGpsEvents :: "string \<Rightarrow> string option \<Rightarrow> agg_call replay_event list result" where
  "buildGpsEvents path contents =
     rbind (csv_readAll path contents) (\<lambda>rows. build_events 5 gps_event (drop 1 rows))"

definition buildImuEvents :: "string \<Rightarrow> string option \<Rightarrow> agg_call replay_event list result" where
  "buildImuEvents path contents =
     rbind (csv_readAll path contents) (\<lambda>rows. build_events 7 imu_event (drop 1 rows))"

definition buildEncoderEvents :: "string \<Rightarrow> string option \<Rightarrow> agg_call replay_event list result" where
  "buildEncoderEvents path contents =
     rbind (csv_readAll path contents) (\<lambda>rows. build_events 4 encoder_event (drop 1 rows))"

section \<open>Output\<close>

definition stale_flag :: "bool \<Rightarrow> string" where
  "stale_flag stale = (if stale then ''STALE'' else ''ok'')"

definition printSnapshot :: "vehicle_snapshot \<Rightarrow> double \<Rightarrow> string" where
  "printSnapshot s elapsed_s =
     ''[t='' @ pad_left 6 (fmt_fixed 2 elapsed_s) @ ''s] '' @
     (case vs_gps s of
        Some g \<Rightarrow> ''GPS('' @ stale_flag (vs_gps_stale s) @ '' src='' @ dec_int (vs_gps_source_ts_ms s) @
          ''ms lat='' @ fmt_fixed 6 (gps_lat g) @ '' lon='' @ fmt_fixed 6 (gps_lon g) @ '')  ''
      | None \<Rightarrow> ''GPS(no data)  '') @
     (case vs_imu s of
        Some i \<Rightarrow> ''IMU('' @ stale_flag (vs_imu_stale s) @ '' src='' @ dec_int (vs_imu_source_ts_ms s) @
          ''ms az='' @ fmt_fixed 3 (imu_accel_z i) @ '')  ''
      | None \<Rightarrow> ''IMU(no data)  '') @
     (case vs_encoder s of
        Some e \<Rightarrow> ''ENC('' @ stale_flag (vs_encoder_stale s) @ '' src='' @ dec_int (vs_encoder_source_ts_ms s) @
          ''ms spd='' @ fmt_fixed 2 (enc_speed_mps e) @ ''m/s)''
      | None \<Rightarrow> ''ENC(no data)'') @ [newline]"

text \<open>One line of the exported file; flags are written as 0 and 1.\<close>

definition bool_text :: "bool \<Rightarrow> string" where
  "bool_text b = (if b then ''1'' else ''0'')"

definition export_line :: "vehicle_snapshot \<Rightarrow> double \<Rightarrow> string" where
  "export_line s elapsed =
     fmt_general elapsed @ '','' @
     bool_text (vs_gps_stale s) @ '','' @
     fmt_general (case vs_gps s of Some g \<Rightarrow> gps_lat g | None \<Rightarrow> of_integer 0) @ '','' @
     fmt_general (case vs_gps s of Some g \<Rightarrow> gps_lon g | None \<Rightarrow> of_integer 0) @ '','' @
     bool_text (vs_imu_stale s) @ '','' @
     fmt_general (case vs_imu s of Some i \<Rightarrow> imu_accel_z i | None \<Rightarrow> of_integer 0) @ '','' @
     bool_text (vs_encoder_stale s) @ '','' @
     fmt_general (case vs_encoder s of Some e \<Rightarrow> enc_speed_mps e | None \<Rightarrow> of_integer 0) @ [newline]"

section \<open>Preparation\<close>

text \<open>The three logs; \<open>files\<close> gives the contents of the files that can be opened.\<close>

definition agg_load ::
    "(string \<Rightarrow> string option) \<Rightarrow> string \<Rightarrow>
       (agg_call replay_event list \<times> agg_call replay_event list \<times> agg_call replay_event list) result" where
  "agg_load files dir =
     (let gps = dir @ ''/gps_reference.csv''; imu = dir @ ''/imu_reference.csv'';
          enc = dir @ ''/wheel_encoder_reference.csv''
      in rbind (buildGpsEvents gps (files gps)) (\<lambda>g.
         rbind (buildImuEvents imu (files imu)) (\<lambda>i.
         rbind (buildEncoderEvents enc (files enc)) (\<lambda>e. Inr (g, i, e)))))"

datatype sensor = Gps | Imu | Encoder

lemma all_sensors: "(\<forall>k. P k) \<longleftrightarrow> P Gps \<and> P Imu \<and> P Encoder"
  by (metis sensor.exhaust)

lemma ex_sensor: "(\<exists>k. P k) \<longleftrightarrow> P Gps \<or> P Imu \<or> P Encoder"
  by (metis sensor.exhaust)

text \<open>The three sensors are enumerable, so that statements about all of them compute.\<close>

instantiation sensor :: enum
begin

definition enum_sensor :: "sensor list" where
  "enum_sensor = [Gps, Imu, Encoder]"

definition enum_all_sensor :: "(sensor \<Rightarrow> bool) \<Rightarrow> bool" where
  "enum_all_sensor P \<longleftrightarrow> P Gps \<and> P Imu \<and> P Encoder"

definition enum_ex_sensor :: "(sensor \<Rightarrow> bool) \<Rightarrow> bool" where
  "enum_ex_sensor P \<longleftrightarrow> P Gps \<or> P Imu \<or> P Encoder"

instance
  by standard (auto simp: enum_sensor_def enum_all_sensor_def enum_ex_sensor_def all_sensors ex_sensor intro: sensor.exhaust)

end

definition export_header :: string where
  "export_header =
     ''elapsed_s,gps_stale,gps_lat,gps_lon,imu_stale,imu_az,encoder_stale,encoder_speed_mps'' @ [newline]"

text \<open>
  What \<open>main\<close> has before it starts the threads: the producers, the text printed so far, and the
  text of the export file if it is open (\<open>opens\<close> tells which files can be opened for writing).
\<close>

record agg_setup =
  as_producer :: "sensor \<Rightarrow> agg_call producer"
  as_out :: string
  as_export :: "string option"

definition with_stall :: "agg_args \<Rightarrow> string \<Rightarrow> agg_call producer \<Rightarrow> agg_call producer" where
  "with_stall a name p =
     (if aa_stall_sensor a = name then injectStall (aa_stall_after_ms a) (aa_stall_duration_ms a) p else p)"

definition agg_setup_of ::
    "(agg_call replay_event list \<Rightarrow> agg_call replay_event list) \<Rightarrow> (string \<Rightarrow> bool) \<Rightarrow> int \<Rightarrow> agg_args \<Rightarrow>
       agg_call replay_event list \<times> agg_call replay_event list \<times> agg_call replay_event list \<Rightarrow> agg_setup" where
  "agg_setup_of std_sort opens start a = (\<lambda>(g, i, e).
     \<lparr>as_producer = (\<lambda>k. case k of
          Gps \<Rightarrow> with_stall a ''gps'' (new_producer std_sort ''gps'' g start (aa_speed a))
        | Imu \<Rightarrow> with_stall a ''imu'' (new_producer std_sort ''imu'' i start (aa_speed a))
        | Encoder \<Rightarrow> with_stall a ''encoder'' (new_producer std_sort ''encoder'' e start (aa_speed a))),
      as_out = ''Loaded '' @ dec_nat (length g) @ '' GPS, '' @ dec_nat (length i) @ '' IMU, '' @
        dec_nat (length e) @ '' Encoder samples. Replay speed = '' @ fmt_fixed 2 (aa_speed a) @ ''x'' @ [newline],
      as_export = (if aa_export_path a \<noteq> [] \<and> opens (aa_export_path a) then Some export_header else None)\<rparr>)"

definition agg_prepare ::
    "(agg_call replay_event list \<Rightarrow> agg_call replay_event list) \<Rightarrow> (string \<Rightarrow> string option) \<Rightarrow> (string \<Rightarrow> bool) \<Rightarrow>
       int \<Rightarrow> string list \<Rightarrow> agg_setup started result" where
  "agg_prepare std_sort files opens start argv =
     rbind (agg_parseArgs argv) (\<lambda>st.
       case st of
         Exited status out err \<Rightarrow> Inr (Exited status out err)
       | Running a \<Rightarrow>
           catch_exception (\<lambda>what. Inr (Exited 1 '''' (''Error loading reference data: '' @ what @ [newline])))
             (rbind (agg_load files (aa_data_dir a)) (\<lambda>evs.
                Inr (Running (agg_setup_of std_sort opens start a evs)))))"

section \<open>Facts about the preparation\<close>

text \<open>Building events keeps the complete rows, in order, and fails with the first row that does.\<close>

fun all_events :: "('r \<Rightarrow> 'e result) \<Rightarrow> 'r list \<Rightarrow> 'e list result" where
  "all_events event [] = Inr []"
| "all_events event (r # rs) = rbind (event r) (\<lambda>ev. rbind (all_events event rs) (\<lambda>evs. Inr (ev # evs)))"

lemma build_events_eq: "build_events k event rs = all_events event (filter (\<lambda>r. k \<le> length r) rs)"
  by (induction rs) (auto simp: not_less)

lemma all_events_Inr: "all_events event rs = Inr evs \<longleftrightarrow> map event rs = map Inr evs"
  by (induction rs arbitrary: evs) (auto simp: rbind_Inr_iff Cons_eq_map_conv)

lemma all_events_Inl:
  "all_events event rs = Inl e \<longleftrightarrow> (\<exists>xs r ys. rs = xs @ r # ys \<and> (\<forall>x \<in> set xs. \<exists>ev. event x = Inr ev) \<and> event r = Inl e)"
proof (induction rs)
  case (Cons r rs)
  show ?case
  proof (cases "event r")
    case (Inl e')
    then show ?thesis by (auto simp: Cons_eq_append_conv) (metis append_Nil empty_iff empty_set)
  next
    case (Inr ev)
    have "all_events event (r # rs) = Inl e \<longleftrightarrow> all_events event rs = Inl e"
      by (cases "all_events event rs") (simp_all add: Inr)
    also have "\<dots> \<longleftrightarrow> (\<exists>xs r' ys. r # rs = xs @ r' # ys \<and> (\<forall>x \<in> set xs. \<exists>ev. event x = Inr ev) \<and> event r' = Inl e)"
    proof
      assume "all_events event rs = Inl e"
      then obtain xs r' ys where "rs = xs @ r' # ys" "\<forall>x \<in> set xs. \<exists>ev. event x = Inr ev" "event r' = Inl e"
        using Cons.IH by blast
      then show "\<exists>xs r' ys. r # rs = xs @ r' # ys \<and> (\<forall>x \<in> set xs. \<exists>ev. event x = Inr ev) \<and> event r' = Inl e"
        using Inr by (intro exI [of _ "r # xs"]) auto
    next
      assume "\<exists>xs r' ys. r # rs = xs @ r' # ys \<and> (\<forall>x \<in> set xs. \<exists>ev. event x = Inr ev) \<and> event r' = Inl e"
      then show "all_events event rs = Inl e" using Inr Cons.IH by (fastforce simp: Cons_eq_append_conv)
    qed
    finally show ?thesis .
  qed
qed simp

text \<open>The rows of a printed log that have the fields of a sample.\<close>

definition complete_rows :: "nat \<Rightarrow> string list list \<Rightarrow> string list list" where
  "complete_rows k rows = filter (\<lambda>r. k \<le> length r) (map read_row (filter kept_row rows))"

text \<open>
  C35: from a printed log each of the three builders makes one event per complete row after the
  header, in order, and throws the exception of the first complete row that does not parse. A row
  whose last field is empty counts as incomplete and is skipped without a message.
\<close>

theorem events_of_printed_log:
  assumes "\<forall>r \<in> set (header # rows). plain_row r" and "kept_row header"
  shows "buildGpsEvents path (Some (csv_text crlf (header # rows))) = all_events gps_event (complete_rows 5 rows) \<and>
     buildImuEvents path (Some (csv_text crlf (header # rows))) = all_events imu_event (complete_rows 7 rows) \<and>
     buildEncoderEvents path (Some (csv_text crlf (header # rows))) = all_events encoder_event (complete_rows 4 rows)"
  by (simp add: buildGpsEvents_def buildImuEvents_def buildEncoderEvents_def csv_readAll_printed [OF assms(1)] assms(2)
      build_events_eq complete_rows_def)

theorem events_of_printed_log_witness:
  "buildEncoderEvents ''enc.csv'' (Some (csv_text True [[''ts'', ''l'', ''r'', ''v''], [''0'', ''40'', ''-3'', ''2''], [''20'', ''41'', ''-3'', '''']])) =
     Inr [\<lparr>re_ts_ms = 0, re_apply =
       Update_Encoder \<lparr>enc_left_ticks = 40, enc_right_ticks = -3, enc_speed_mps = of_integer 2\<rparr> 0\<rparr>]"
proof -
  have "complete_rows 4 [[''0'', ''40'', ''-3'', ''2''], [''20'', ''41'', ''-3'', '''']] = [[''0'', ''40'', ''-3'', ''2'']]"
    by (simp add: complete_rows_def kept_row_def read_row_def)
  moreover have dec: "dec_int 2 = ''2''" "dec_int 0 = ''0''" "dec_int 40 = ''40''" "dec_int (-3) = ''-3''"
    by (simp_all add: text_eval)
  moreover have "stod ''2'' = Inr (of_integer 2)"
    using stod_dec_int [of 2 "[]"] by (simp add: dec number_end_def starts_with_digit_def)
  moreover have "stol ''0'' = Inr 0" "stol ''40'' = Inr 40" "stol ''-3'' = Inr (-3)"
    using stol_dec_int [of 0] stol_dec_int [of 40] stol_dec_int [of "-3"] by (simp_all add: dec)
  ultimately show ?thesis
    using events_of_printed_log [of "[''ts'', ''l'', ''r'', ''v'']" "[[''0'', ''40'', ''-3'', ''2''], [''20'', ''41'', ''-3'', '''']]" "''enc.csv''" True]
    by (simp add: plain_row_def plain_field_def newline_def carriage_return_def kept_row_def encoder_event_def)
qed

section \<open>The command line\<close>

definition agg_words :: "int \<Rightarrow> string \<Rightarrow> int \<Rightarrow> int \<Rightarrow> string \<Rightarrow> string \<Rightarrow> string list" where
  "agg_words speed sensor after duration export dir =
     [''--speed'', dec_int speed, ''--stall'', sensor, ''--stall-after'', dec_int after,
      ''--stall-duration'', dec_int duration, ''--export'', export, ''--data-dir'', dir]"

definition agg_value_flags :: "string list" where
  "agg_value_flags = [''--speed'', ''--stall'', ''--stall-after'', ''--stall-duration'', ''--export'', ''--data-dir'']"

lemma agg_parse_words:
  assumes "\<bar>speed\<bar> < 2 ^ 53" and "long_min \<le> after" "after \<le> long_max" and "long_min \<le> duration" "duration \<le> long_max"
  shows "agg_parse prog (agg_words speed sensor after duration export dir @ rest) a =
     agg_parse prog rest \<lparr>aa_speed = of_integer speed, aa_stall_sensor = sensor, aa_stall_after_ms = after,
       aa_stall_duration_ms = duration, aa_export_path = export, aa_data_dir = dir\<rparr>"
proof -
  have "stod (dec_int speed) = Inr (of_integer speed)"
    using stod_dec_int [OF assms(1), of "[]"] by (simp add: number_end_def starts_with_digit_def)
  moreover have "stol (dec_int after) = Inr after" "stol (dec_int duration) = Inr duration"
    using assms by (simp_all add: stol_dec_int)
  ultimately show ?thesis by (cases a) (simp add: agg_words_def with_next_def)
qed

text \<open>
  The command line is read back: the printed options give exactly the arguments they were printed
  from; an option at the end that lacks its value and a word that is no option end the program with
  status 1 and a message that names them.
\<close>

lemma agg_command_line:
  assumes "\<bar>speed\<bar> < 2 ^ 53" and "long_min \<le> after" "after \<le> long_max" and "long_min \<le> duration" "duration \<le> long_max"
    and "words = agg_words speed sensor after duration export dir"
  shows "agg_parseArgs (prog # words) =
       Inr (Running \<lparr>aa_speed = of_integer speed, aa_stall_sensor = sensor, aa_stall_after_ms = after,
         aa_stall_duration_ms = duration, aa_export_path = export, aa_data_dir = dir\<rparr>) \<and>
     list_all (\<lambda>f. agg_parseArgs (prog # words @ [f]) =
       Inr (Exited 1 '''' (''Missing value for '' @ f @ [newline]))) agg_value_flags \<and>
     (x \<notin> set (''--help'' # agg_value_flags) \<longrightarrow>
       agg_parseArgs (prog # words @ x # rest) = Inr (Exited 1 '''' (''Unknown argument: '' @ x @ [newline])))"
  using agg_parse_words [OF assms(1-5), of prog sensor export dir "[]"] agg_parse_words [OF assms(1-5), of prog sensor export dir]
  by (simp add: agg_parseArgs_def assms(6) agg_value_flags_def with_next_def missing_value_def unknown_argument_def)

lemma agg_command_line_sample:
  "agg_parseArgs (''demo'' # agg_words 2 ''imu'' 2000 3000 '''' ''data'' @ [''--fast'', ''4'']) =
     Inr (Exited 1 '''' (''Unknown argument: --fast'' @ [newline]))"
  using agg_command_line [of 2 2000 3000 _ "''imu''" "[]" "''data''" "''demo''" "''--fast''" "[''4'']", OF _ _ _ _ _ refl]
  by (simp add: agg_value_flags_def)

text \<open>The export writes six significant digits: about ten metres of a latitude are lost.\<close>

lemma export_six_digits: "\<exists>x. stod ''37.4218999'' = Inr x \<and> fmt_general x = ''37.4219''"
proof -
  have "stod ''37.4218999'' = scaled_double False 374218999 10 (-7)" by (simp add: text_eval)
  also have "\<dots> = Inr (Finite False 5266664201410500 (-47))" by (simp add: rounding_eval)
  finally have "stod ''37.4218999'' = Inr (Finite False 5266664201410500 (-47))" .
  moreover have "decimal_exponent 5266664201410500 (2 ^ 47) = 1" by (simp add: text_eval)
  then have "general_digits 5266664201410500 (2 ^ 47) = general_text 374219 1"
    unfolding general_digits_def Let_def by (simp add: round_half_even_def)
  moreover have "general_text 374219 1 = ''37.4219''"
    unfolding general_text_def Let_def by (simp add: text_eval)
  ultimately have "fmt_general (Finite False 5266664201410500 (-47)) = ''37.4219''" by simp
  moreover note \<open>stod ''37.4218999'' = Inr (Finite False 5266664201410500 (-47))\<close>
  ultimately show ?thesis by blast
qed

end
