(* ===== verification/Agg_Program.thy ===== *)
theory Agg_Program
  imports Agg_Main
begin

text \<open>
  The sensor aggregator as a whole: the three replay threads of \<open>Sensor_Producer\<close>, the shared state
  of \<open>Agg_Vehicle_State\<close> and the main thread of \<open>task2_sensor_aggregator/src/main.cpp\<close>, on one clock.
  The operations on the shared state are single steps, which \<open>Agg_Threads\<close> justifies. Every run of
  the program projects to a run of each producer, so the facts about producers carry over.
\<close>

section \<open>The main thread\<close>

text \<open>
  The points of \<open>main\<close> from the starting of the threads on. Every access to a producer is a step: the
  loads of the loop's condition, which is evaluated from left to right and stops at the first
  producer that has not finished; the store and the notification of each stop request; each join.
\<close>

datatype main_pc =
    Start_Thread sensor
  | Check_Finished sensor
  | Begin_Sleep
  | Sleeping int
  | Take_Sample
  | Print_Sample vehicle_snapshot
  | Store_Request sensor
  | Notify_Request sensor
  | Join_Thread sensor
  | Take_Final
  | Print_Final vehicle_snapshot
  | Main_Done

record agg_world =
  aw_clock :: int
  aw_start :: int
  aw_thread :: "sensor \<Rightarrow> agg_call replay"
  aw_manager :: agg_manager
  aw_main :: main_pc
  aw_out :: string
  aw_export :: "string option"

definition printInterval :: int where "printInterval = 200"

definition elapsed_s :: "agg_world \<Rightarrow> double" where
  "elapsed_s w = ddiv (of_integer (aw_clock w - aw_start w)) (of_integer 1000000000)"

text \<open>The producer that follows in the order of the source, or what comes after the last one.\<close>

fun next_sensor :: "(sensor \<Rightarrow> main_pc) \<Rightarrow> main_pc \<Rightarrow> sensor \<Rightarrow> main_pc" where
  "next_sensor f pc Gps = f Imu"
| "next_sensor f pc Imu = f Encoder"
| "next_sensor f pc Encoder = pc"

definition main_step :: "agg_world \<Rightarrow> agg_world" where
  "main_step w =
     (case aw_main w of
        Start_Thread k \<Rightarrow>
          w\<lparr>aw_thread := (aw_thread w)(k := start_thread (aw_thread w k)),
            aw_main := next_sensor Start_Thread (Check_Finished Gps) k\<rparr>
      | Check_Finished k \<Rightarrow>
          w\<lparr>aw_main := (if rp_finished (aw_thread w k)
                        then next_sensor Check_Finished (Store_Request Gps) k else Begin_Sleep)\<rparr>
      | Begin_Sleep \<Rightarrow> w\<lparr>aw_main := Sleeping (aw_clock w + ms_to_ns printInterval)\<rparr>
      | Sleeping t \<Rightarrow> if t \<le> aw_clock w then w\<lparr>aw_main := Take_Sample\<rparr> else w
      | Take_Sample \<Rightarrow> w\<lparr>aw_main := Print_Sample (snapshot (aw_clock w) (aw_manager w))\<rparr>
      | Print_Sample snap \<Rightarrow>
          w\<lparr>aw_out := aw_out w @ printSnapshot snap (elapsed_s w),
            aw_export := map_option (\<lambda>t. t @ export_line snap (elapsed_s w)) (aw_export w),
            aw_main := Check_Finished Gps\<rparr>
      | Store_Request k \<Rightarrow>
          w\<lparr>aw_thread := (aw_thread w)(k := store_stop (aw_thread w k)), aw_main := Notify_Request k\<rparr>
      | Notify_Request k \<Rightarrow>
          w\<lparr>aw_thread := (aw_thread w)(k := notify_all (aw_thread w k)),
            aw_main := next_sensor Store_Request (Join_Thread Gps) k\<rparr>
      | Join_Thread k \<Rightarrow>
          if join_returns (aw_thread w k) then w\<lparr>aw_main := next_sensor Join_Thread Take_Final k\<rparr> else w
      | Take_Final \<Rightarrow> w\<lparr>aw_main := Print_Final (snapshot (aw_clock w) (aw_manager w))\<rparr>
      | Print_Final snap \<Rightarrow>
          w\<lparr>aw_out := aw_out w @ [newline] @ ''--- Final state ---'' @ [newline] @
              printSnapshot snap (elapsed_s w) @ ''All producers stopped cleanly.'' @ [newline],
            aw_main := Main_Done\<rparr>
      | Main_Done \<Rightarrow> w)"

section \<open>Schedules of the program\<close>

text \<open>
  Time passes for everybody; a producer makes a step, in which its event, if it applies one, updates
  the shared state; the condition variable of a producer wakes up spuriously; the main thread makes a
  step.
\<close>

datatype world_action = Pass nat | Step sensor | Wake sensor | Main_Step

definition apply_event :: "agg_call replay \<Rightarrow> agg_manager \<Rightarrow> agg_manager" where
  "apply_event s m =
     (if rs_pc s = Apply_Event then call_state (re_apply (hd (rs_rest s))) (rs_clock s) m else m)"

fun world_act :: "world_action \<Rightarrow> agg_world \<Rightarrow> agg_world result" where
  "world_act (Pass d) w =
     Inr (w\<lparr>aw_clock := aw_clock w + int d,
            aw_thread := (\<lambda>k. (aw_thread w k)\<lparr>rs_clock := rs_clock (aw_thread w k) + int d\<rparr>)\<rparr>)"
| "world_act (Step k) w =
     rbind (run_step (aw_thread w k)) (\<lambda>s.
       Inr (w\<lparr>aw_thread := (aw_thread w)(k := s), aw_manager := apply_event (aw_thread w k) (aw_manager w)\<rparr>))"
| "world_act (Wake k) w = Inr (w\<lparr>aw_thread := (aw_thread w)(k := notify_all (aw_thread w k))\<rparr>)"
| "world_act Main_Step w = Inr (main_step w)"

fun world_run :: "world_action list \<Rightarrow> agg_world \<Rightarrow> agg_world result" where
  "world_run [] w = Inr w"
| "world_run (a # as) w = rbind (world_act a w) (world_run as)"

text \<open>The program when \<open>main\<close> has prepared everything, at the clock reading \<open>now\<close>.\<close>

definition world_of :: "int \<Rightarrow> int \<Rightarrow> agg_setup \<Rightarrow> agg_world" where
  "world_of start now s = \<lparr>aw_clock = now, aw_start = start, aw_thread = (\<lambda>k. replay_of now (as_producer s k)),
     aw_manager = new_manager, aw_main = Start_Thread Gps, aw_out = as_out s, aw_export = as_export s\<rparr>"

lemma world_run_invariant:
  assumes "\<And>a w w'. world_act a w = Inr w' \<Longrightarrow> P w \<Longrightarrow> P w'" and "P w" and "world_run as w = Inr w'"
  shows "P w'"
  using assms(2,3)
proof (induction as arbitrary: w)
  case (Cons a as)
  then obtain w1 where "world_act a w = Inr w1" "world_run as w1 = Inr w'" by (auto simp: rbind_Inr_iff)
  with Cons assms(1) show ?case by blast
qed simp

section \<open>Projection to the producers\<close>

text \<open>A thread that has not been started, or one that some schedule of the producer leads to.\<close>

definition thread_of :: "'a producer \<Rightarrow> 'a replay \<Rightarrow> bool" where
  "thread_of p s \<longleftrightarrow>
     (\<exists>now. s = replay_of now p) \<or> (\<exists>now as. replay_run as (start_thread (replay_of now p)) = Inr s)"

lemma thread_of_act:
  assumes "thread_of p s" and "act a s = Inr s'" and "a \<noteq> Store_Stop \<or> rs_pc s \<noteq> Not_Started"
  shows "thread_of p s'"
proof -
  consider now where "s = replay_of now p" | now as where "replay_run as (start_thread (replay_of now p)) = Inr s"
    using assms(1) unfolding thread_of_def by blast
  then show ?thesis
  proof cases
    case 1
    have "\<exists>now'. s' = replay_of now' p"
    proof (cases a)
      case (Advance d)
      with assms(2) show ?thesis
        by (intro exI [of _ "now + int d"]) (simp add: 1 replay_of_def producer.defs)
    qed (use assms(2,3) in \<open>auto simp: 1 replay_of_def producer.defs run_step_def notify_all_def\<close>)
    then show ?thesis unfolding thread_of_def by blast
  next
    case 2
    then have "replay_run (as @ [a]) (start_thread (replay_of now p)) = Inr s'"
      by (simp add: replay_run_append assms(2))
    then show ?thesis unfolding thread_of_def by blast
  qed
qed

lemma thread_of_start:
  assumes "thread_of p s" and "\<not> rp_finished p" and "rs_pc s = Not_Started"
  shows "thread_of p (start_thread s)"
proof -
  consider now where "s = replay_of now p" | now as where "replay_run as (start_thread (replay_of now p)) = Inr s"
    using assms(1) unfolding thread_of_def by blast
  then show ?thesis
  proof cases
    case 1
    then have "replay_run [] (start_thread (replay_of now p)) = Inr (start_thread s)" by simp
    then show ?thesis unfolding thread_of_def by blast
  next
    case 2
    then have "order_inv p s" by (rule order_inv_run [OF assms(2)])
    with assms(3) show ?thesis by (simp add: order_inv_def)
  qed
qed

lemma thread_of_inv:
  assumes "thread_of p s" and "\<not> rp_finished p"
  shows "rs_pc s = Not_Started \<and> rs_log s = [] \<and> \<not> rp_finished s \<and> rp_stop_requested s = rp_stop_requested p \<or>
     order_inv p s \<and> end_inv s"
proof -
  consider now where "s = replay_of now p" | now as where "replay_run as (start_thread (replay_of now p)) = Inr s"
    using assms(1) unfolding thread_of_def by blast
  then show ?thesis
  proof cases
    case 1
    then show ?thesis using assms(2) by (simp add: replay_of_def producer.defs)
  next
    case 2
    then show ?thesis using order_inv_run [OF assms(2)] end_inv_run by blast
  qed
qed

lemma thread_of_finished: "thread_of p s \<Longrightarrow> \<not> rp_finished p \<Longrightarrow> rp_finished s = (rs_pc s = Terminated)"
  using thread_of_inv [of p s] by (auto simp: order_inv_def)

section \<open>The newest sample of each sensor\<close>

fun call_sensor :: "agg_call \<Rightarrow> sensor option" where
  "call_sensor (Update_Gps s ts) = Some Gps"
| "call_sensor (Update_Imu s ts) = Some Imu"
| "call_sensor (Update_Encoder s ts) = Some Encoder"
| "call_sensor Take_Snapshot = None"

text \<open>What the last entry of a producer's log has written.\<close>

definition last_update ::
    "(agg_call \<Rightarrow> ('s \<times> int) option) \<Rightarrow> (int \<times> agg_call replay_event) list \<Rightarrow> ('s \<times> int \<times> int) option" where
  "last_update f l = (if l = [] then None else updates_by f (re_apply (snd (last l)), fst (last l)))"

context sensor_slot
begin

lemma slot_apply:
  assumes "sample (re_apply ev) = Some u"
  shows "view (call_state (re_apply ev) now m) = slot_of (last_update sample (l @ [(now, ev)]))"
  using view_update [of "re_apply ev" "fst u" "snd u" now m] assms
  by (cases u) (simp add: last_update_def updates_by_def slot_of_def)

end

definition views_inv :: "agg_world \<Rightarrow> bool" where
  "views_inv w \<longleftrightarrow>
     gps_view (aw_manager w) = slot_of (last_update gps_call (rs_log (aw_thread w Gps))) \<and>
     imu_view (aw_manager w) = slot_of (last_update imu_call (rs_log (aw_thread w Imu))) \<and>
     encoder_view (aw_manager w) = slot_of (last_update encoder_call (rs_log (aw_thread w Encoder)))"

lemma call_sensor_simps:
  "call_sensor c = Some Gps \<Longrightarrow> gps_call c \<noteq> None \<and> imu_call c = None \<and> encoder_call c = None"
  "call_sensor c = Some Imu \<Longrightarrow> gps_call c = None \<and> imu_call c \<noteq> None \<and> encoder_call c = None"
  "call_sensor c = Some Encoder \<Longrightarrow> gps_call c = None \<and> imu_call c = None \<and> encoder_call c \<noteq> None"
  by (cases c; simp)+

lemma run_step_log:
  "run_step s = Inr s' \<Longrightarrow>
     rs_log s' = (if rs_pc s = Apply_Event then rs_log s @ [(rs_clock s, hd (rs_rest s))] else rs_log s)"
  by (cases rule: run_step_cases) auto

lemma views_inv_step:
  assumes "views_inv w" and "run_step (aw_thread w k) = Inr s"
    and "rs_pc (aw_thread w k) = Apply_Event \<Longrightarrow> call_sensor (re_apply (hd (rs_rest (aw_thread w k)))) = Some k"
  shows "views_inv (w\<lparr>aw_thread := (aw_thread w)(k := s), aw_manager := apply_event (aw_thread w k) (aw_manager w)\<rparr>)"
proof (cases "rs_pc (aw_thread w k) = Apply_Event")
  case False
  with assms(1) run_step_log [OF assms(2)] show ?thesis
    by (cases k) (simp_all add: views_inv_def apply_event_def)
next
  case True
  note log = run_step_log [OF assms(2), simplified True, simplified]
  let ?c = "re_apply (hd (rs_rest (aw_thread w k)))"
  show ?thesis
  proof (cases k)
    case Gps
    with call_sensor_simps(1) [of ?c] assms(3) True obtain u where "gps_call ?c = Some u"
      "imu_call ?c = None" "encoder_call ?c = None" by auto
    with assms(1) log Gps True show ?thesis
      by (simp add: views_inv_def apply_event_def gps.slot_apply imu.view_other encoder.view_other)
  next
    case Imu
    with call_sensor_simps(2) [of ?c] assms(3) True obtain u where "imu_call ?c = Some u"
      "gps_call ?c = None" "encoder_call ?c = None" by auto
    with assms(1) log Imu True show ?thesis
      by (simp add: views_inv_def apply_event_def imu.slot_apply gps.view_other encoder.view_other)
  next
    case Encoder
    with call_sensor_simps(3) [of ?c] assms(3) True obtain u where "encoder_call ?c = Some u"
      "gps_call ?c = None" "imu_call ?c = None" by auto
    with assms(1) log Encoder True show ?thesis
      by (simp add: views_inv_def apply_event_def encoder.slot_apply gps.view_other imu.view_other)
  qed
qed

section \<open>Phases of the main thread\<close>

definition setup_ok :: "agg_setup \<Rightarrow> bool" where
  "setup_ok s \<longleftrightarrow>
     (\<forall>k. \<not> rp_finished (as_producer s k) \<and> \<not> rp_stop_requested (as_producer s k) \<and>
        (\<forall>ev \<in> set (rp_events (as_producer s k)). call_sensor (re_apply ev) = Some k))"

text \<open>The threads that a point of \<open>main\<close> finds not started.\<close>

fun unstarted :: "main_pc \<Rightarrow> sensor set" where
  "unstarted (Start_Thread Gps) = {Gps, Imu, Encoder}"
| "unstarted (Start_Thread Imu) = {Imu, Encoder}"
| "unstarted (Start_Thread Encoder) = {Encoder}"
| "unstarted _ = {}"

text \<open>The threads that \<open>main\<close> has seen finished.\<close>

fun seen_finished :: "main_pc \<Rightarrow> sensor set" where
  "seen_finished (Check_Finished k) = (case k of Gps \<Rightarrow> {} | Imu \<Rightarrow> {Gps} | Encoder \<Rightarrow> {Gps, Imu})"
| "seen_finished (Store_Request k) = UNIV"
| "seen_finished (Notify_Request k) = UNIV"
| "seen_finished (Join_Thread k) = UNIV"
| "seen_finished Take_Final = UNIV"
| "seen_finished (Print_Final snap) = UNIV"
| "seen_finished Main_Done = UNIV"
| "seen_finished _ = {}"

definition final_text :: "agg_world \<Rightarrow> bool" where
  "final_text w \<longleftrightarrow>
     (case aw_main w of
        Print_Final snap \<Rightarrow> \<exists>n. snap = snapshot n (aw_manager w)
      | Main_Done \<Rightarrow> \<exists>out n t. aw_out w = out @ [newline] @ ''--- Final state ---'' @ [newline] @
            printSnapshot (snapshot n (aw_manager w)) t @ ''All producers stopped cleanly.'' @ [newline]
      | _ \<Rightarrow> True)"

definition world_inv :: "agg_setup \<Rightarrow> agg_world \<Rightarrow> bool" where
  "world_inv s w \<longleftrightarrow>
     (\<forall>k. thread_of (as_producer s k) (aw_thread w k)) \<and>
     (\<forall>k \<in> unstarted (aw_main w). rs_pc (aw_thread w k) = Not_Started) \<and>
     (\<forall>k \<in> seen_finished (aw_main w). rs_pc (aw_thread w k) = Terminated) \<and>
     (\<forall>k. rp_stop_requested (aw_thread w k) \<longrightarrow> rs_pc (aw_thread w k) = Terminated \<and> rs_rest (aw_thread w k) = []) \<and>
     views_inv w \<and> final_text w"

lemma world_inv_thread: "world_inv s w \<Longrightarrow> thread_of (as_producer s k) (aw_thread w k)"
  by (simp add: world_inv_def)

lemma world_inv_start: "setup_ok s \<Longrightarrow> world_inv s (world_of start now s)"
proof -
  assume "setup_ok s"
  moreover have "thread_of (as_producer s k) (replay_of now (as_producer s k))" for k
    unfolding thread_of_def by blast
  ultimately show ?thesis
    by (simp add: world_inv_def world_of_def setup_ok_def views_inv_def last_update_def replay_of_def producer.defs
        slot_of_def gps.view_new imu.view_new encoder.view_new final_text_def)
qed

text \<open>The event a thread is about to apply is one of its own sensor.\<close>

lemma own_event:
  assumes "setup_ok s" and "thread_of (as_producer s k) t" and "rs_pc t = Apply_Event"
  shows "call_sensor (re_apply (hd (rs_rest t))) = Some k"
proof -
  have "order_inv (as_producer s k) t" using thread_of_inv [OF assms(2)] assms(1,3) by (auto simp: setup_ok_def)
  then have "hd (rs_rest t) \<in> set (rp_events (as_producer s k))"
    using assms(3) by (metis Un_iff in_body_def insertE list.set_sel(1) order_inv_def run_pc.distinct set_append singletonD)
  then show ?thesis using assms(1) by (simp add: setup_ok_def)
qed

lemma world_inv_step:
  assumes ok: "setup_ok s" and i: "world_inv s w" and r: "run_step (aw_thread w k) = Inr t"
  shows "world_inv s (w\<lparr>aw_thread := (aw_thread w)(k := t), aw_manager := apply_event (aw_thread w k) (aw_manager w)\<rparr>)"
    (is "world_inv s ?w")
proof -
  let ?t = "aw_thread w k"
  have th: "thread_of (as_producer s k) ?t" using i by (simp add: world_inv_def)
  have "thread_of (as_producer s k) t" by (rule thread_of_act [OF th, of Turn]) (use r in simp_all)
  then have "\<forall>j. thread_of (as_producer s j) (aw_thread ?w j)" using i by (simp add: world_inv_def)
  moreover have idle: "rs_pc ?t \<in> {Not_Started, Terminated} \<Longrightarrow> t = ?t" using r by (auto simp: run_step_def)
  then have "\<forall>j \<in> unstarted (aw_main ?w). rs_pc (aw_thread ?w j) = Not_Started"
    using i by (auto simp: world_inv_def)
  moreover have "\<forall>j \<in> seen_finished (aw_main ?w). rs_pc (aw_thread ?w j) = Terminated"
    using i idle by (auto simp: world_inv_def)
  moreover have "rp_stop_requested t = rp_stop_requested ?t" using r by (cases rule: run_step_cases) auto
  then have "\<forall>j. rp_stop_requested (aw_thread ?w j) \<longrightarrow> rs_pc (aw_thread ?w j) = Terminated \<and> rs_rest (aw_thread ?w j) = []"
    using i idle by (auto simp: world_inv_def)
  moreover have "views_inv ?w"
    using i r own_event [OF ok th] by (intro views_inv_step) (auto simp: world_inv_def)
  moreover have "final_text ?w"
    using i by (auto simp: final_text_def world_inv_def apply_event_def split: main_pc.splits)
  ultimately show ?thesis unfolding world_inv_def by blast
qed

lemma views_inv_cong:
  "aw_manager w' = aw_manager w \<Longrightarrow> \<forall>k. rs_log (aw_thread w' k) = rs_log (aw_thread w k) \<Longrightarrow> views_inv w \<Longrightarrow> views_inv w'"
  by (simp add: views_inv_def)

lemma final_text_cong:
  "aw_manager w' = aw_manager w \<Longrightarrow> aw_main w' = aw_main w \<Longrightarrow> aw_out w' = aw_out w \<Longrightarrow> final_text w \<Longrightarrow> final_text w'"
  by (simp only: final_text_def)

text \<open>Steps that leave the logs and everything but the clock and the wake-up flags alone.\<close>

lemma world_inv_same:
  assumes "world_inv s w" and "\<forall>k. thread_of (as_producer s k) (aw_thread w' k)"
    and "\<forall>k. rs_pc (aw_thread w' k) = rs_pc (aw_thread w k) \<and> rs_log (aw_thread w' k) = rs_log (aw_thread w k) \<and>
       rs_rest (aw_thread w' k) = rs_rest (aw_thread w k) \<and>
       rp_stop_requested (aw_thread w' k) = rp_stop_requested (aw_thread w k)"
    and "aw_manager w' = aw_manager w" "aw_main w' = aw_main w" "aw_out w' = aw_out w"
  shows "world_inv s w'"
proof -
  have "views_inv w'" "final_text w'"
    using views_inv_cong [OF assms(4)] final_text_cong [OF assms(4,5,6)] assms(1,3) by (simp_all add: world_inv_def)
  with assms show ?thesis by (simp add: world_inv_def)
qed

lemma notify_all_simps [simp]:
  "rs_pc (notify_all t) = rs_pc t" "rs_log (notify_all t) = rs_log t" "rs_rest (notify_all t) = rs_rest t"
  "rp_stop_requested (notify_all t) = rp_stop_requested t" "rp_finished (notify_all t) = rp_finished t"
  by (simp_all add: notify_all_def split: run_pc.split)

lemma world_inv_pass:
  assumes "world_inv s w"
  shows "world_inv s (w\<lparr>aw_clock := aw_clock w + int d,
     aw_thread := (\<lambda>k. (aw_thread w k)\<lparr>rs_clock := rs_clock (aw_thread w k) + int d\<rparr>)\<rparr>)"
proof -
  have "thread_of (as_producer s k) ((aw_thread w k)\<lparr>rs_clock := rs_clock (aw_thread w k) + int d\<rparr>)" for k
    by (rule thread_of_act [OF world_inv_thread [OF assms], where a = "Advance d"]) simp_all
  then show ?thesis by (intro world_inv_same [OF assms]) simp_all
qed

lemma world_inv_wake:
  assumes "world_inv s w"
  shows "world_inv s (w\<lparr>aw_thread := (aw_thread w)(k := notify_all (aw_thread w k))\<rparr>)"
proof -
  have "thread_of (as_producer s k) (notify_all (aw_thread w k))"
    by (rule thread_of_act [OF world_inv_thread [OF assms], where a = Notify]) simp_all
  then have "\<forall>j. thread_of (as_producer s j) (((aw_thread w)(k := notify_all (aw_thread w k))) j)"
    using world_inv_thread [OF assms] by simp
  then show ?thesis by (intro world_inv_same [OF assms]) simp_all
qed

lemma world_inv_main:
  assumes ok: "setup_ok s" and i: "world_inv s w"
  shows "world_inv s (main_step w)"
proof -
  have th: "thread_of (as_producer s k) (aw_thread w k)" "\<not> rp_finished (as_producer s k)" for k
    using i ok by (simp_all add: world_inv_def setup_ok_def)
  show ?thesis
  proof (cases "aw_main w")
    case (Start_Thread k)
    then have new: "rs_pc (aw_thread w k) = Not_Started" using i by (cases k) (simp_all add: world_inv_def)
    have "thread_of (as_producer s k) (start_thread (aw_thread w k))" by (rule thread_of_start [OF th new])
    moreover have "\<not> rp_stop_requested (aw_thread w k)" using i new by (auto simp: world_inv_def)
    ultimately show ?thesis using i Start_Thread
      by (cases k) (auto simp: world_inv_def main_step_def final_text_def views_inv_def start_thread_def)
  next
    case (Check_Finished k)
    have "rs_pc (aw_thread w k) = Terminated" if "rp_finished (aw_thread w k)"
      using thread_of_finished [OF th] that by simp
    with i Check_Finished show ?thesis
      by (cases k) (auto simp: world_inv_def main_step_def final_text_def views_inv_def all_sensors)
  next
    case (Store_Request k)
    have tm: "rs_pc (aw_thread w k) = Terminated" using i Store_Request by (cases k) (simp_all add: world_inv_def)
    have "rs_rest (aw_thread w k) = []"
    proof (cases "rp_stop_requested (aw_thread w k)")
      case True
      then show ?thesis using i by (simp add: world_inv_def)
    next
      case False
      then show ?thesis using thread_of_inv [OF th, of k] tm by (auto simp: end_inv_def)
    qed
    moreover have "thread_of (as_producer s k) (store_stop (aw_thread w k))"
      by (rule thread_of_act [OF th(1), where a = Store_Stop]) (simp_all add: tm)
    moreover have "views_inv (main_step w)"
      using i by (auto simp: world_inv_def main_step_def Store_Request store_stop_def intro: views_inv_cong)
    ultimately show ?thesis using i Store_Request tm
      by (auto simp: world_inv_def main_step_def final_text_def store_stop_def)
  next
    case (Notify_Request k)
    then have "main_step w = (w\<lparr>aw_thread := (aw_thread w)(k := notify_all (aw_thread w k))\<rparr>)
        \<lparr>aw_main := next_sensor Store_Request (Join_Thread Gps) k\<rparr>" by (simp add: main_step_def)
    with world_inv_wake [OF i, of k] Notify_Request show ?thesis
      by (cases k) (auto simp: world_inv_def final_text_def views_inv_def)
  next
    case (Join_Thread k)
    with i show ?thesis
      by (cases k) (auto simp: world_inv_def main_step_def final_text_def views_inv_def)
  qed (use i in \<open>auto simp: world_inv_def main_step_def final_text_def views_inv_def\<close>)
qed

lemma world_inv_act:
  assumes "setup_ok s" and "world_act a w = Inr w'" and "world_inv s w"
  shows "world_inv s w'"
proof (cases a)
  case (Step k)
  with assms(2) obtain t where "run_step (aw_thread w k) = Inr t"
    "w' = w\<lparr>aw_thread := (aw_thread w)(k := t), aw_manager := apply_event (aw_thread w k) (aw_manager w)\<rparr>"
    by (auto simp: rbind_Inr_iff)
  with world_inv_step [OF assms(1,3)] show ?thesis by simp
next
  case (Pass d)
  with assms(2) world_inv_pass [OF assms(3), of d] show ?thesis by auto
next
  case (Wake k)
  with assms(2) world_inv_wake [OF assms(3), of k] show ?thesis by auto
next
  case Main_Step
  with assms(2) world_inv_main [OF assms(1,3)] show ?thesis by auto
qed

lemma world_inv_run:
  assumes "setup_ok s" and "world_run as (world_of start now s) = Inr w"
  shows "world_inv s w"
  by (rule world_run_invariant [of "world_inv s", OF _ world_inv_start [OF assms(1)] assms(2)])
     (rule world_inv_act [OF assms(1)])

section \<open>The setup of a started program\<close>

lemma all_events_sensor:
  "all_events event rs = Inr evs \<Longrightarrow> (\<And>r ev. event r = Inr ev \<Longrightarrow> call_sensor (re_apply ev) = Some k) \<Longrightarrow>
     ev \<in> set evs \<Longrightarrow> call_sensor (re_apply ev) = Some k"
  by (induction rs arbitrary: evs) (auto simp: rbind_Inr_iff)

lemma event_sensor:
  "gps_event r = Inr ev \<Longrightarrow> call_sensor (re_apply ev) = Some Gps"
  "imu_event r = Inr ev \<Longrightarrow> call_sensor (re_apply ev) = Some Imu"
  "encoder_event r = Inr ev \<Longrightarrow> call_sensor (re_apply ev) = Some Encoder"
  by (auto simp: gps_event_def imu_event_def encoder_event_def rbind_Inr_iff)

lemma built_sensor:
  "buildGpsEvents path c = Inr evs \<Longrightarrow> \<forall>ev \<in> set evs. call_sensor (re_apply ev) = Some Gps"
  "buildImuEvents path c = Inr evs \<Longrightarrow> \<forall>ev \<in> set evs. call_sensor (re_apply ev) = Some Imu"
  "buildEncoderEvents path c = Inr evs \<Longrightarrow> \<forall>ev \<in> set evs. call_sensor (re_apply ev) = Some Encoder"
  using all_events_sensor event_sensor
  by (auto simp: buildGpsEvents_def buildImuEvents_def buildEncoderEvents_def build_events_eq rbind_Inr_iff) blast+

lemma with_stall_simps [simp]:
  "rp_events (with_stall a n p) = rp_events p" "rp_finished (with_stall a n p) = rp_finished p"
  "rp_stop_requested (with_stall a n p) = rp_stop_requested p"
  by (simp_all add: with_stall_def injectStall_def)

lemma prepared_setup:
  assumes "sorts_by re_ts_ms std_sort" and "agg_prepare std_sort files opens start argv = Inr (Running s)"
  shows "setup_ok s \<and> (\<forall>k. sorted (map re_ts_ms (rp_events (as_producer s k))))"
proof -
  obtain st where st: "(case st of Exited status out err \<Rightarrow> Inr (Exited status out err)
       | Running a \<Rightarrow>
           catch_exception (\<lambda>what. Inr (Exited 1 '''' (''Error loading reference data: '' @ what @ [newline])))
             (rbind (agg_load files (aa_data_dir a)) (\<lambda>evs.
                Inr (Running (agg_setup_of std_sort opens start a evs))))) = Inr (Running s)"
    using assms(2) by (auto simp: agg_prepare_def rbind_Inr_iff)
  obtain a g i e where "agg_load files (aa_data_dir a) = Inr (g, i, e)" and s: "s = agg_setup_of std_sort opens start a (g, i, e)"
  proof (cases st)
    case (Running a)
    with st that [of a] show ?thesis by (auto simp: catch_exception_Inr rbind_Inr_iff)
  qed (use st in simp)
  then have evs: "\<forall>ev \<in> set g. call_sensor (re_apply ev) = Some Gps" "\<forall>ev \<in> set i. call_sensor (re_apply ev) = Some Imu"
      "\<forall>ev \<in> set e. call_sensor (re_apply ev) = Some Encoder"
    using built_sensor by (auto simp: agg_load_def rbind_Inr_iff Let_def)
  have "setup_ok s"
    unfolding setup_ok_def s all_sensors
    by (simp add: agg_setup_of_def new_producer_def sorts_byD(3) [OF assms(1)] evs)
  moreover have "sorted (map re_ts_ms (rp_events (as_producer s k)))" for k
    by (cases k) (simp_all add: s agg_setup_of_def new_producer_def sorts_byD(2) [OF assms(1)])
  ultimately show ?thesis by blast
qed

section \<open>The property\<close>

text \<open>A sensor's part of the state shows the last entry of its producer's log.\<close>

definition shows_newest :: "agg_world \<Rightarrow> int \<Rightarrow> vehicle_snapshot \<Rightarrow> bool" where
  "shows_newest w n snap \<longleftrightarrow>
     shows_update 500 n (last_update gps_call (rs_log (aw_thread w Gps))) (vs_gps snap) (vs_gps_source_ts_ms snap)
       (vs_gps_stale snap) \<and>
     shows_update 50 n (last_update imu_call (rs_log (aw_thread w Imu))) (vs_imu snap) (vs_imu_source_ts_ms snap)
       (vs_imu_stale snap) \<and>
     shows_update 100 n (last_update encoder_call (rs_log (aw_thread w Encoder))) (vs_encoder snap)
       (vs_encoder_source_ts_ms snap) (vs_encoder_stale snap)"

lemma views_newest: "views_inv w \<Longrightarrow> shows_newest w n (snapshot n (aw_manager w))"
proof -
  assume "views_inv w"
  then have v: "(am_gps (aw_manager w), am_gps_source_ts_ms (aw_manager w), am_gps_last_update (aw_manager w)) =
        slot_of (last_update gps_call (rs_log (aw_thread w Gps)))"
      "(am_imu (aw_manager w), am_imu_source_ts_ms (aw_manager w), am_imu_last_update (aw_manager w)) =
        slot_of (last_update imu_call (rs_log (aw_thread w Imu)))"
      "(am_encoder (aw_manager w), am_encoder_source_ts_ms (aw_manager w), am_encoder_last_update (aw_manager w)) =
        slot_of (last_update encoder_call (rs_log (aw_thread w Encoder)))"
    by (simp_all add: views_inv_def gps_view_def imu_view_def encoder_view_def)
  from shows_slot [OF v(1), of 500 n] shows_slot [OF v(2), of 50 n] shows_slot [OF v(3), of 100 n]
  show ?thesis
    by (simp add: shows_newest_def snapshot_def default_snapshot_def ms_to_ns_def kGpsStaleAfter_def
        kImuStaleAfter_def kEncoderStaleAfter_def)
qed

text \<open>
  C2: in every run of the program, under every interleaving of its four threads, a snapshot taken at
  any moment shows for each sensor the last sample its producer has applied. When \<open>main\<close> returns, all
  threads have ended, every sample of every log was applied, in ascending order of the source times,
  and the last lines printed show the newest sample of each sensor.
\<close>

theorem program_reports_newest:
  assumes "sorts_by re_ts_ms std_sort" and "agg_prepare std_sort files opens start argv = Inr (Running s)"
    and "world_run as (world_of start now s) = Inr w"
  shows "shows_newest w n (snapshot n (aw_manager w)) \<and>
     (aw_main w = Main_Done \<longrightarrow>
       (\<forall>k. rs_pc (aw_thread w k) = Terminated \<and>
          map snd (rs_log (aw_thread w k)) = rp_events (as_producer s k) \<and>
          sorted (map re_ts_ms (rp_events (as_producer s k)))) \<and>
       (\<exists>out m t snap. shows_newest w m snap \<and>
          aw_out w = out @ [newline] @ ''--- Final state ---'' @ [newline] @ printSnapshot snap t @
            ''All producers stopped cleanly.'' @ [newline]))"
proof -
  have ok: "setup_ok s" and sorted: "\<forall>k. sorted (map re_ts_ms (rp_events (as_producer s k)))"
    using prepared_setup [OF assms(1,2)] by auto
  have i: "world_inv s w" by (rule world_inv_run [OF ok assms(3)])
  then have newest: "shows_newest w m (snapshot m (aw_manager w))" for m by (simp add: world_inv_def views_newest)
  have done1: "rs_pc (aw_thread w k) = Terminated \<and> map snd (rs_log (aw_thread w k)) = rp_events (as_producer s k)"
    if "aw_main w = Main_Done" for k
  proof -
    have tm: "rs_pc (aw_thread w k) = Terminated" using i that by (simp add: world_inv_def)
    then have "order_inv (as_producer s k) (aw_thread w k) \<and> end_inv (aw_thread w k)"
      using thread_of_inv [OF world_inv_thread [OF i], of k] ok by (auto simp: setup_ok_def)
    moreover have "rp_stop_requested (aw_thread w k) \<longrightarrow> rs_rest (aw_thread w k) = []" using i by (simp add: world_inv_def)
    ultimately show ?thesis using tm by (auto simp: order_inv_def end_inv_def)
  qed
  have done2: "\<exists>out m t. aw_out w = out @ [newline] @ ''--- Final state ---'' @ [newline] @
       printSnapshot (snapshot m (aw_manager w)) t @ ''All producers stopped cleanly.'' @ [newline]"
    if "aw_main w = Main_Done"
    using i that unfolding world_inv_def final_text_def by simp
  show ?thesis using newest done1 done2 sorted by blast
qed

section \<open>An example run\<close>

definition sample_files :: "string \<Rightarrow> string option" where
  "sample_files path =
     (if path = ''task2_sensor_aggregator/data/gps_reference.csv''
      then Some (csv_text False [[''h''], [''0'', ''1'', ''2'', ''3'', ''4'']])
      else Some (csv_text False [[''h'']]))"

definition sample_gps_event :: "agg_call replay_event" where
  "sample_gps_event = \<lparr>re_ts_ms = 0, re_apply = Update_Gps \<lparr>gps_lat = of_integer 1, gps_lon = of_integer 2,
     gps_alt_m = of_integer 3, gps_fix_quality = 4\<rparr> 0\<rparr>"

definition sample_setup :: agg_setup where
  "sample_setup = agg_setup_of (sort_key re_ts_ms) (\<lambda>_. False) 0 default_agg_args ([sample_gps_event], [], [])"

lemma sample_prepared:
  "agg_prepare (sort_key re_ts_ms) sample_files (\<lambda>_. False) 0 [''prog''] = Inr (Running sample_setup)"
proof -
  have dec: "dec_int 0 = ''0''" "dec_int 1 = ''1''" "dec_int 2 = ''2''" "dec_int 3 = ''3''" "dec_int 4 = ''4''"
    by (simp_all add: text_eval)
  have "stod ''1'' = Inr (of_integer 1)" "stod ''2'' = Inr (of_integer 2)" "stod ''3'' = Inr (of_integer 3)"
    using stod_dec_int [of 1 "[]"] stod_dec_int [of 2 "[]"] stod_dec_int [of 3 "[]"]
    by (simp_all add: dec number_end_def starts_with_digit_def)
  moreover have "stol ''0'' = Inr 0" "stoi ''4'' = Inr 4"
    using stol_dec_int [of 0] stoi_dec_int [of 4] by (simp_all add: dec)
  ultimately have ev: "gps_event [''0'', ''1'', ''2'', ''3'', ''4''] = Inr sample_gps_event"
    by (simp add: gps_event_def sample_gps_event_def)
  have plain: "plain_row [''h'']" "plain_row [''0'', ''1'', ''2'', ''3'', ''4'']"
    by (simp_all add: plain_row_def plain_field_def newline_def carriage_return_def)
  then have rows: "csv_readAll p (Some (csv_text False [[''h'']])) = Inr [[''h'']]"
    "csv_readAll p (Some (csv_text False [[''h''], [''0'', ''1'', ''2'', ''3'', ''4'']])) =
       Inr [[''h''], [''0'', ''1'', ''2'', ''3'', ''4'']]" for p
    using csv_readAll_printed [of "[[''h'']]" p False] csv_readAll_printed [of "[[''h''], [''0'', ''1'', ''2'', ''3'', ''4'']]" p False]
    by (simp_all add: kept_row_def read_row_def)
  show ?thesis
    by (simp add: agg_prepare_def agg_parseArgs_def agg_load_def sample_files_def default_agg_args_def
        buildGpsEvents_def buildImuEvents_def buildEncoderEvents_def rows ev catch_exception_def sample_setup_def)
qed

definition sample_schedule :: "world_action list" where
  "sample_schedule =
     [Main_Step, Main_Step, Main_Step, Step Gps, Step Gps, Step Gps, Step Gps, Step Gps, Step Gps, Step Gps,
      Step Gps, Step Gps, Step Imu, Step Encoder, Step Imu, Step Encoder,
      Main_Step, Main_Step, Main_Step, Main_Step, Main_Step, Main_Step, Main_Step, Main_Step, Main_Step, Main_Step,
      Main_Step, Main_Step, Main_Step, Main_Step]"

lemma sample_world_run:
  "\<exists>w. world_run sample_schedule (world_of 0 0 sample_setup) = Inr w \<and> aw_main w = Main_Done"
  by (simp add: sample_schedule_def world_of_def sample_setup_def agg_setup_of_def default_agg_args_def with_stall_def
      new_producer_def replay_of_def producer.defs main_step_def start_thread_def sample_eval sample_gps_event_def
      join_returns_def store_stop_def notify_all_def)

theorem program_reports_newest_witness:
  "\<exists>w. world_run sample_schedule (world_of 0 0 sample_setup) = Inr w \<and>
     map snd (rs_log (aw_thread w Gps)) = [sample_gps_event] \<and>
     map_option gps_fix_quality (vs_gps (snapshot 0 (aw_manager w))) = Some 4 \<and>
     vs_gps_source_ts_ms (snapshot 0 (aw_manager w)) = 0 \<and> vs_imu_stale (snapshot 0 (aw_manager w))"
proof -
  obtain w where w: "world_run sample_schedule (world_of 0 0 sample_setup) = Inr w" "aw_main w = Main_Done"
    using sample_world_run by blast
  note p = program_reports_newest [OF sorts_by_sort_key sample_prepared w(1)]
  have "rp_events (as_producer sample_setup Gps) = [sample_gps_event]" "rp_events (as_producer sample_setup Imu) = []"
    by (simp_all add: sample_setup_def agg_setup_of_def new_producer_def)
  with p w(2) have log: "map snd (rs_log (aw_thread w Gps)) = [sample_gps_event]" "rs_log (aw_thread w Imu) = []"
    by (auto simp: all_sensors)
  then obtain t where "rs_log (aw_thread w Gps) = [(t, sample_gps_event)]" by (auto simp: map_eq_Cons_conv)
  with log p have "shows_update 500 0 (Some (\<lparr>gps_lat = of_integer 1, gps_lon = of_integer 2,
      gps_alt_m = of_integer 3, gps_fix_quality = 4\<rparr>, 0, t)) (vs_gps (snapshot 0 (aw_manager w)))
      (vs_gps_source_ts_ms (snapshot 0 (aw_manager w))) (vs_gps_stale (snapshot 0 (aw_manager w)))"
    "shows_update 50 0 None (vs_imu (snapshot 0 (aw_manager w)))
      (vs_imu_source_ts_ms (snapshot 0 (aw_manager w))) (vs_imu_stale (snapshot 0 (aw_manager w)))"
    unfolding shows_newest_def
    by (simp_all add: last_update_def updates_by_def sample_gps_event_def)
  then show ?thesis using w(1) log(1) by (simp add: shows_update_def)
qed

end
