(* ===== verification/Agg_Program_Live.thy ===== *)
theory Agg_Program_Live
  imports Agg_Program Cpp_Double_Bounds
begin

text \<open>
  That the sensor aggregator, \<open>task2_sensor_aggregator/src/main.cpp\<close>, ends: the bound on the waits of
  a producer, a measure over the three producers and one over the main thread, and their decrease in
  every stretch of a schedule in which enough time passes and every thread then gets a step.
\<close>

section \<open>The waits of a producer\<close>

text \<open>No wait of a producer is longer than \<open>D\<close> nanoseconds.\<close>

definition waits_within :: "int \<Rightarrow> 'a producer \<Rightarrow> bool" where
  "waits_within D p \<longleftrightarrow> 0 \<le> D \<and> stall_ns p \<le> D \<and> (\<forall>ev \<in> set (rp_events p). 2 * \<bar>offset_of p ev\<bar> \<le> D)"

fun due_time :: "run_pc \<Rightarrow> int option" where
  "due_time (Stall_Test t) = Some t"
| "due_time (Stall_Enter t) = Some t"
| "due_time (Stall_Wait t) = Some t"
| "due_time (Target_Test t) = Some t"
| "due_time (Target_Enter t) = Some t"
| "due_time (Target_Wait t) = Some t"
| "due_time _ = None"

definition wait_inv :: "int \<Rightarrow> 'a replay \<Rightarrow> bool" where
  "wait_inv D s \<longleftrightarrow> 2 * (rp_replay_start s - rs_clock s) \<le> D \<and>
     (\<forall>t. due_time (rs_pc s) = Some t \<longrightarrow> t \<le> rs_clock s + D)"

lemma body_offset:
  assumes "waits_within D p" and "order_inv p s" and "in_body (rs_pc s)"
    and "replay_offset (rp_speed_factor s) (re_ts_ms (hd (rs_rest s))) = Inr d"
  shows "2 * \<bar>d\<bar> \<le> D"
proof -
  have "hd (rs_rest s) \<in> set (rp_events p)"
    using assms(2,3) by (metis Un_iff list.set_sel(1) order_inv_def set_append)
  moreover have "offset_of p (hd (rs_rest s)) = d" using assms(2,4) by (simp add: offset_of_def order_inv_def)
  ultimately show ?thesis using assms(1) by (auto simp: waits_within_def)
qed

lemma wait_inv_turn:
  assumes "run_step s = Inr s'" and "waits_within D p" and "order_inv p s" and "wait_inv D s"
  shows "wait_inv D s'"
  using assms(1)
proof (cases rule: run_step_cases)
  case (stall_begin d t)
  then have "t = rs_clock s + d" "d = stall_ns p"
    using assms(3) by (auto simp: long_add_def long_check_def to_ns_def long_mul_def order_inv_def stall_ns_def split: if_splits)
  with stall_begin assms(2,4) show ?thesis by (simp add: wait_inv_def waits_within_def)
next
  case (reanchor d t)
  then have "t = rs_clock s - d" by (auto simp: long_sub_def long_check_def split: if_splits)
  moreover have "2 * \<bar>d\<bar> \<le> D" using body_offset [OF assms(2,3)] reanchor by (simp add: in_body_def)
  ultimately show ?thesis using reanchor by (simp add: wait_inv_def)
next
  case (set_target d t)
  then have "t = rp_replay_start s + d" by (auto simp: long_add_def long_check_def split: if_splits)
  moreover have "2 * \<bar>d\<bar> \<le> D" using body_offset [OF assms(2,3)] set_target by (simp add: in_body_def)
  ultimately show ?thesis using set_target assms(4) by (simp add: wait_inv_def)
qed (use assms(4) in \<open>auto simp: wait_inv_def\<close>)

text \<open>The work of a thread, counted from before its start.\<close>

definition thread_work :: "'a replay \<Rightarrow> nat" where
  "thread_work s = (if rs_pc s = Not_Started then 7 * length (rp_events s) + 15 else work_left s)"

lemma thread_work_turn:
  assumes "run_step s = Inr s'" and "order_inv p s \<or> rs_pc s = Not_Started"
  shows "thread_work s' \<le> thread_work s" and "rs_pc s' \<noteq> rs_pc s \<Longrightarrow> thread_work s' < thread_work s"
proof -
  have "rs_pc s' \<noteq> Not_Started" if "order_inv p s" using order_inv_run_step [OF assms(1) that] by (simp add: order_inv_def)
  moreover have "s' = s" if "rs_pc s = Not_Started" using assms(1) that by (simp add: run_step_def)
  ultimately show "thread_work s' \<le> thread_work s" "rs_pc s' \<noteq> rs_pc s \<Longrightarrow> thread_work s' < thread_work s"
    using work_left_turn [OF assms(1)] assms(2) by (auto simp: thread_work_def)
qed

lemma thread_work_start:
  assumes "rs_pc s = Not_Started"
  shows "thread_work (start_thread s) < thread_work s"
  using assms by (simp add: thread_work_def work_left_def start_thread_def)

section \<open>The main thread\<close>

text \<open>The steps of \<open>main\<close> to its end when all producers have ended.\<close>

fun main_rank :: "main_pc \<Rightarrow> nat" where
  "main_rank Main_Done = 0"
| "main_rank (Print_Final _) = 1"
| "main_rank Take_Final = 2"
| "main_rank (Join_Thread k) = (case k of Encoder \<Rightarrow> 3 | Imu \<Rightarrow> 4 | Gps \<Rightarrow> 5)"
| "main_rank (Notify_Request k) = (case k of Encoder \<Rightarrow> 6 | Imu \<Rightarrow> 8 | Gps \<Rightarrow> 10)"
| "main_rank (Store_Request k) = (case k of Encoder \<Rightarrow> 7 | Imu \<Rightarrow> 9 | Gps \<Rightarrow> 11)"
| "main_rank (Check_Finished k) = (case k of Encoder \<Rightarrow> 12 | Imu \<Rightarrow> 13 | Gps \<Rightarrow> 14)"
| "main_rank (Print_Sample _) = 15"
| "main_rank Take_Sample = 16"
| "main_rank (Sleeping _) = 17"
| "main_rank Begin_Sleep = 18"
| "main_rank (Start_Thread _) = 19"

definition all_terminated :: "agg_world \<Rightarrow> bool" where
  "all_terminated w \<longleftrightarrow> (\<forall>k. rs_pc (aw_thread w k) = Terminated)"

text \<open>What holds along every run in range.\<close>

definition thread_ok :: "int \<Rightarrow> 'a producer \<Rightarrow> 'a replay \<Rightarrow> bool" where
  "thread_ok D p s \<longleftrightarrow> times_ok p \<and> waits_within D p \<and> \<not> rp_finished p \<and> start_inv s \<and> wait_inv D s \<and>
     (rs_pc s = Not_Started \<or> order_inv p s)"

definition world_ok :: "agg_setup \<Rightarrow> int \<Rightarrow> agg_world \<Rightarrow> bool" where
  "world_ok s D w \<longleftrightarrow> setup_ok s \<and> world_inv s w \<and> 0 \<le> aw_clock w \<and> ms_to_ns printInterval \<le> D \<and>
     (\<forall>k. thread_ok D (as_producer s k) (aw_thread w k)) \<and> (\<forall>k. rs_clock (aw_thread w k) = aw_clock w) \<and>
     (\<forall>k. rs_pc (aw_thread w k) = Not_Started \<longrightarrow> k \<in> unstarted (aw_main w)) \<and>
     (\<forall>t. aw_main w = Sleeping t \<longrightarrow> t \<le> aw_clock w + D)"

fun passed :: "world_action list \<Rightarrow> int" where
  "passed [] = 0"
| "passed (Pass d # as) = int d + passed as"
| "passed (_ # as) = passed as"

lemma passed_append: "passed (xs @ ys) = passed xs + passed ys"
  by (induction xs rule: passed.induct) simp_all

lemma passed_nonneg: "0 \<le> passed as"
  by (induction as rule: passed.induct) simp_all


section \<open>Every action is defined\<close>

lemma thread_ok_turn:
  assumes "thread_ok D p s" and "in_range (rs_clock s)"
  obtains s' where "run_step s = Inr s'" and "thread_ok D p s'" and "rs_clock s' = rs_clock s"
    and "rs_pc s' = Not_Started \<longleftrightarrow> rs_pc s = Not_Started"
proof (cases "rs_pc s = Not_Started")
  case True
  then show ?thesis using that [of s] assms(1) by (simp add: run_step_def)
next
  case False
  then have o: "order_inv p s" using assms(1) by (simp add: thread_ok_def)
  obtain s' where s': "run_step s = Inr s'" "start_inv s'"
    using turn_defined [OF _ o _ assms(2)] assms(1) by (auto simp: thread_ok_def)
  have "order_inv p s'" "wait_inv D s'"
    using order_inv_run_step [OF s'(1) o] wait_inv_turn [OF s'(1) _ o] assms(1) by (auto simp: thread_ok_def)
  moreover have "rs_clock s' = rs_clock s" using s'(1) by (cases rule: run_step_cases) auto
  ultimately show ?thesis using that [OF s'(1)] s'(2) assms(1) False by (auto simp: thread_ok_def order_inv_def)
qed

lemma thread_ok_advance:
  assumes "thread_ok D p s"
  shows "thread_ok D p (s\<lparr>rs_clock := rs_clock s + int d\<rparr>)"
proof -
  have "order_inv p s \<Longrightarrow> order_inv p (s\<lparr>rs_clock := rs_clock s + int d\<rparr>)" using order_inv_act [of "Advance d" s] by simp
  with assms show ?thesis by (auto simp: thread_ok_def start_inv_def wait_inv_def)
qed

lemma thread_ok_notify: "thread_ok D p s \<Longrightarrow> thread_ok D p (notify_all s)"
  using order_inv_act [of Notify s "notify_all s" p]
  by (auto simp: thread_ok_def start_inv_def wait_inv_def) (auto simp: notify_all_def split: run_pc.splits)

lemma thread_ok_stop: "thread_ok D p s \<Longrightarrow> thread_ok D p (store_stop s)"
  using order_inv_act [of Store_Stop s "store_stop s" p]
  by (auto simp: thread_ok_def start_inv_def wait_inv_def store_stop_def)

lemma thread_ok_start:
  assumes "thread_ok D p s" and "thread_of p s" and "rs_pc s = Not_Started"
  shows "thread_ok D p (start_thread s)"
proof -
  have "\<not> rp_finished p" using assms(1) by (simp add: thread_ok_def)
  moreover from this have "thread_of p (start_thread s)" by (rule thread_of_start [OF assms(2) _ assms(3)])
  moreover have "rs_pc (start_thread s) \<noteq> Not_Started" by (simp add: start_thread_def)
  ultimately have "order_inv p (start_thread s)" using thread_of_inv by blast
  with assms(1) show ?thesis by (simp add: thread_ok_def start_inv_def wait_inv_def start_thread_def)
qed

lemma main_step_clock [simp]: "aw_clock (main_step w) = aw_clock w"
  by (simp add: main_step_def split: main_pc.split)

lemma main_step_threads:
  assumes "world_ok s D w"
  shows "\<forall>k. thread_ok D (as_producer s k) (aw_thread (main_step w) k)"
    and "\<forall>k. rs_clock (aw_thread (main_step w) k) = aw_clock w"
    and "\<forall>k. rs_pc (aw_thread (main_step w) k) = Not_Started \<longrightarrow> k \<in> unstarted (aw_main (main_step w))"
proof -
  have ok: "thread_ok D (as_producer s k) (aw_thread w k)" "rs_clock (aw_thread w k) = aw_clock w"
      "rs_pc (aw_thread w k) = Not_Started \<Longrightarrow> k \<in> unstarted (aw_main w)" "thread_of (as_producer s k) (aw_thread w k)" for k
    using assms by (simp_all add: world_ok_def world_inv_def)
  have stop: "thread_ok D (as_producer s k) (store_stop (aw_thread w k))"
      "thread_ok D (as_producer s k) (notify_all (aw_thread w k))" for k
    by (intro thread_ok_notify thread_ok_stop ok(1))+
  have stop2: "rs_clock (store_stop (aw_thread w k)) = aw_clock w" "rs_pc (store_stop (aw_thread w k)) = rs_pc (aw_thread w k)"
      "rs_clock (notify_all (aw_thread w k)) = aw_clock w" for k
    using ok(2) by (simp_all add: store_stop_def) (simp add: notify_all_def split: run_pc.split)
  have new: "rs_pc (aw_thread w k) = Not_Started" if "aw_main w = Start_Thread k" for k
    using assms that by (cases k) (simp_all add: world_ok_def world_inv_def)
  note new_ok = thread_ok_start [OF ok(1) ok(4) new]
  have started: "rs_clock (start_thread (aw_thread w k)) = aw_clock w" "rs_pc (start_thread (aw_thread w k)) \<noteq> Not_Started" for k
    using ok(2) by (simp_all add: start_thread_def)
  show "\<forall>k. thread_ok D (as_producer s k) (aw_thread (main_step w) k)"
    using ok(1) stop new_ok by (auto simp: main_step_def split: main_pc.split)
  show "\<forall>k. rs_clock (aw_thread (main_step w) k) = aw_clock w"
    using ok(2) stop2(1,3) started(1) by (auto simp: main_step_def split: main_pc.split)
  show "\<forall>k. rs_pc (aw_thread (main_step w) k) = Not_Started \<longrightarrow> k \<in> unstarted (aw_main (main_step w))"
  proof (cases "aw_main w")
    case (Start_Thread j)
    with ok(3) started(2) [of j] show ?thesis by (cases j) (auto simp: main_step_def)
  next
    case (Check_Finished j)
    with ok(3) show ?thesis by (cases j) (auto simp: main_step_def)
  next
    case (Notify_Request j)
    with ok(3) show ?thesis by (cases j) (auto simp: main_step_def)
  next
    case (Join_Thread j)
    with ok(3) show ?thesis by (cases j) (auto simp: main_step_def)
  qed (use ok(3) stop2(2) in \<open>auto simp: main_step_def\<close>)
qed

lemma world_ok_act:
  assumes "world_ok s D w" and "aw_clock w + passed [a] \<le> 2 ^ 61"
  obtains w' where "world_act a w = Inr w'" and "world_ok s D w'" and "aw_clock w' = aw_clock w + passed [a]"
proof -
  have ok: "setup_ok s" "world_inv s w" "0 \<le> aw_clock w"
      "thread_ok D (as_producer s k) (aw_thread w k)" "rs_clock (aw_thread w k) = aw_clock w" for k
    using assms(1) by (simp_all add: world_ok_def)
  note keep = world_inv_act [OF ok(1) _ ok(2)]
  show ?thesis
  proof (cases a)
    case (Pass d)
    let ?w = "w\<lparr>aw_clock := aw_clock w + int d,
      aw_thread := (\<lambda>k. (aw_thread w k)\<lparr>rs_clock := rs_clock (aw_thread w k) + int d\<rparr>)\<rparr>"
    have act: "world_act a w = Inr ?w" by (simp add: Pass)
    have "world_ok s D ?w"
      using assms(1) keep [OF act] thread_ok_advance [OF ok(4)] unfolding world_ok_def by fastforce
    then show ?thesis using that [OF act] by (simp add: Pass)
  next
    case (Step k)
    have "in_range (rs_clock (aw_thread w k))" using ok(3,5) assms(2) by (simp add: Step in_range_def)
    then obtain t where t: "run_step (aw_thread w k) = Inr t" "thread_ok D (as_producer s k) t"
        "rs_clock t = rs_clock (aw_thread w k)" "rs_pc t = Not_Started \<longleftrightarrow> rs_pc (aw_thread w k) = Not_Started"
      by (rule thread_ok_turn [OF ok(4)])
    let ?w = "w\<lparr>aw_thread := (aw_thread w)(k := t), aw_manager := apply_event (aw_thread w k) (aw_manager w)\<rparr>"
    have act: "world_act a w = Inr ?w" by (simp add: Step t(1))
    have "world_ok s D ?w" using assms(1) keep [OF act] t(2-4) unfolding world_ok_def by auto
    then show ?thesis using that [OF act] by (simp add: Step)
  next
    case (Wake k)
    let ?w = "w\<lparr>aw_thread := (aw_thread w)(k := notify_all (aw_thread w k))\<rparr>"
    have act: "world_act a w = Inr ?w" by (simp add: Wake)
    have "rs_clock (notify_all (aw_thread w k)) = aw_clock w"
      using ok(5) by (simp add: notify_all_def split: run_pc.split)
    then have "world_ok s D ?w" using assms(1) keep [OF act] thread_ok_notify [OF ok(4)] unfolding world_ok_def by auto
    then show ?thesis using that [OF act] by (simp add: Wake)
  next
    case Main_Step
    have act: "world_act a w = Inr (main_step w)" by (simp add: Main_Step)
    have "t \<le> aw_clock w + D" if "aw_main (main_step w) = Sleeping t" for t
      using that assms(1)
      by (auto simp: main_step_def world_ok_def split: main_pc.splits if_splits elim: next_sensor.elims)
    then have "world_ok s D (main_step w)"
      using assms(1) keep [OF act] main_step_threads [OF assms(1)] by (auto simp: world_ok_def)
    then show ?thesis using that [OF act] by (simp add: Main_Step)
  qed
qed


section \<open>The measures\<close>

definition total_work :: "agg_world \<Rightarrow> nat" where
  "total_work w = thread_work (aw_thread w Gps) + thread_work (aw_thread w Imu) + thread_work (aw_thread w Encoder)"

definition wakes :: "world_action list \<Rightarrow> bool" where
  "wakes as \<longleftrightarrow> (\<exists>k. Wake k \<in> set as)"

text \<open>Two measurements of the threads: no more work than before, and less where a point has changed.\<close>

definition less_work :: "agg_world \<Rightarrow> agg_world \<Rightarrow> bool" where
  "less_work w w' \<longleftrightarrow> (\<forall>k. thread_work (aw_thread w' k) \<le> thread_work (aw_thread w k) \<and>
     (rs_pc (aw_thread w' k) \<noteq> rs_pc (aw_thread w k) \<longrightarrow> thread_work (aw_thread w' k) < thread_work (aw_thread w k)))"

lemma less_work_total:
  assumes "less_work w w'"
  shows "total_work w' \<le> total_work w" and "rs_pc (aw_thread w' k) \<noteq> rs_pc (aw_thread w k) \<Longrightarrow> total_work w' < total_work w"
proof -
  have le: "thread_work (aw_thread w' j) \<le> thread_work (aw_thread w j)" for j using assms by (simp add: less_work_def)
  then show "total_work w' \<le> total_work w" by (simp add: total_work_def add_mono)
  assume "rs_pc (aw_thread w' k) \<noteq> rs_pc (aw_thread w k)"
  then have "thread_work (aw_thread w' k) < thread_work (aw_thread w k)" using assms by (simp add: less_work_def)
  with le [of Gps] le [of Imu] le [of Encoder] show "total_work w' < total_work w"
    by (cases k) (simp_all add: total_work_def)
qed

lemma less_work_trans: "less_work w w1 \<Longrightarrow> less_work w1 w2 \<Longrightarrow> less_work w w2"
  unfolding less_work_def by (metis le_less_trans less_le_trans order_trans)

lemma less_work_act:
  assumes "world_ok s D w" and "world_act a w = Inr w'" and "\<not> wakes [a]"
  shows "less_work w w'"
proof (cases a)
  case (Pass d)
  then show ?thesis using assms(2) by (auto simp: less_work_def thread_work_def work_left_def)
next
  case (Step k)
  with assms(2) obtain t where t: "run_step (aw_thread w k) = Inr t"
    "w' = w\<lparr>aw_thread := (aw_thread w)(k := t), aw_manager := apply_event (aw_thread w k) (aw_manager w)\<rparr>"
    by (auto simp: rbind_Inr_iff)
  have "order_inv (as_producer s k) (aw_thread w k) \<or> rs_pc (aw_thread w k) = Not_Started"
    using assms(1) by (auto simp: world_ok_def thread_ok_def)
  from thread_work_turn [OF t(1) this] show ?thesis by (simp add: less_work_def t(2))
next
  case (Wake k)
  with assms(3) show ?thesis by (simp add: wakes_def)
next
  case Main_Step
  then have w': "w' = main_step w" using assms(2) by simp
  have i: "world_inv s w" using assms(1) by (simp add: world_ok_def)
  show ?thesis
  proof (cases "aw_main w")
    case (Start_Thread k)
    then have "rs_pc (aw_thread w k) = Not_Started" using i by (cases k) (simp_all add: world_inv_def)
    from thread_work_start [OF this] show ?thesis
      by (simp add: less_work_def w' main_step_def Start_Thread)
  next
    case (Store_Request k)
    then show ?thesis by (simp add: less_work_def w' main_step_def thread_work_def work_left_def store_stop_def)
  next
    case (Notify_Request k)
    then have "rs_pc (aw_thread w k) = Terminated" using i by (simp add: world_inv_def)
    then have "notify_all (aw_thread w k) = aw_thread w k" by (simp add: notify_all_def)
    then show ?thesis by (simp add: less_work_def w' main_step_def Notify_Request)
  qed (auto simp: less_work_def w' main_step_def)
qed

lemma main_rank_act:
  assumes "world_ok s D w" and "world_act a w = Inr w'" and "all_terminated w" and "\<not> wakes [a]"
  shows "all_terminated w'" and "main_rank (aw_main w') \<le> main_rank (aw_main w)"
    and "aw_main w' \<noteq> aw_main w \<Longrightarrow> main_rank (aw_main w') < main_rank (aw_main w)"
    and "a = Main_Step \<Longrightarrow> aw_main w \<noteq> Main_Done \<Longrightarrow> \<forall>t. aw_main w = Sleeping t \<longrightarrow> t \<le> aw_clock w \<Longrightarrow>
       aw_main w' \<noteq> aw_main w"
proof -
  have tm: "rs_pc (aw_thread w k) = Terminated" for k using assms(3) by (simp add: all_terminated_def)
  have "rp_finished (aw_thread w k)" for k
    using assms(1) thread_of_finished [of "as_producer s k" "aw_thread w k"] tm [of k]
    by (simp add: world_ok_def world_inv_def thread_ok_def)
  then have fin: "rp_finished (aw_thread w k)" "join_returns (aw_thread w k)" for k using tm by (simp_all add: join_returns_def)
  have started: "aw_main w \<noteq> Start_Thread k" for k
    using assms(1) tm [of k] by (cases k) (auto simp: world_ok_def world_inv_def)
  show "all_terminated w'"
  proof (cases a)
    case Main_Step
    then show ?thesis using assms(2) tm started
      by (auto simp: all_terminated_def main_step_def store_stop_def split: main_pc.split)
  qed (use assms(2,4) tm in \<open>auto simp: all_terminated_def wakes_def rbind_Inr_iff run_step_def\<close>)
  have main: "aw_main w' = (if a = Main_Step then aw_main (main_step w) else aw_main w)"
    using assms(2) by (cases a) (auto simp: rbind_Inr_iff)
  have step: "main_rank (aw_main (main_step w)) \<le> main_rank (aw_main w) \<and>
      (aw_main (main_step w) \<noteq> aw_main w \<longrightarrow> main_rank (aw_main (main_step w)) < main_rank (aw_main w)) \<and>
      (aw_main w \<noteq> Main_Done \<and> (\<forall>t. aw_main w = Sleeping t \<longrightarrow> t \<le> aw_clock w) \<longrightarrow> aw_main (main_step w) \<noteq> aw_main w)"
    using fin started by (cases "aw_main w") (auto simp: main_step_def split: sensor.split elim: next_sensor.elims)
  show "main_rank (aw_main w') \<le> main_rank (aw_main w)"
    and "aw_main w' \<noteq> aw_main w \<Longrightarrow> main_rank (aw_main w') < main_rank (aw_main w)"
    and "a = Main_Step \<Longrightarrow> aw_main w \<noteq> Main_Done \<Longrightarrow> \<forall>t. aw_main w = Sleeping t \<longrightarrow> t \<le> aw_clock w \<Longrightarrow>
       aw_main w' \<noteq> aw_main w"
    using step unfolding main by (simp_all split: if_splits)
qed

section \<open>Runs\<close>

lemma world_ok_run:
  assumes "world_ok s D w" and "aw_clock w + passed as \<le> 2 ^ 61"
  obtains w' where "world_run as w = Inr w'" and "world_ok s D w'" and "aw_clock w' = aw_clock w + passed as"
    and "\<not> wakes as \<Longrightarrow> less_work w w'"
    and "\<not> wakes as \<Longrightarrow> all_terminated w \<Longrightarrow> all_terminated w' \<and> main_rank (aw_main w') \<le> main_rank (aw_main w) \<and>
      (aw_main w' \<noteq> aw_main w \<longrightarrow> main_rank (aw_main w') < main_rank (aw_main w))"
  using assms
proof (induction as arbitrary: w thesis)
  case Nil
  then show ?case by (simp add: less_work_def)
next
  case (Cons a as)
  have adv: "passed (a # as) = passed [a] + passed as" by (cases a) simp_all
  with Cons.prems(3) passed_nonneg [of as] have "aw_clock w + passed [a] \<le> 2 ^ 61" by linarith
  with Cons.prems(2) obtain w1 where 1: "world_act a w = Inr w1" "world_ok s D w1" "aw_clock w1 = aw_clock w + passed [a]"
    by (rule world_ok_act)
  have "aw_clock w1 + passed as \<le> 2 ^ 61" using Cons.prems(3) 1(3) adv by simp
  then obtain w' where 2: "world_run as w1 = Inr w'" "world_ok s D w'" "aw_clock w' = aw_clock w1 + passed as"
      "\<not> wakes as \<Longrightarrow> less_work w1 w'"
      "\<not> wakes as \<Longrightarrow> all_terminated w1 \<Longrightarrow> all_terminated w' \<and> main_rank (aw_main w') \<le> main_rank (aw_main w1) \<and>
        (aw_main w' \<noteq> aw_main w1 \<longrightarrow> main_rank (aw_main w') < main_rank (aw_main w1))"
    using Cons.IH [OF _ 1(2)] by blast
  have nw: "\<not> wakes (a # as) \<Longrightarrow> \<not> wakes [a] \<and> \<not> wakes as" by (auto simp: wakes_def)
  show ?case
  proof (rule Cons.prems(1) [of w'])
    show "world_run (a # as) w = Inr w'" using 1(1) 2(1) by simp
    show "aw_clock w' = aw_clock w + passed (a # as)" using 1(3) 2(3) adv by simp
    show "less_work w w'" if "\<not> wakes (a # as)"
      using less_work_act [OF Cons.prems(2) 1(1)] 2(4) nw [OF that] less_work_trans by blast
    show "all_terminated w' \<and> main_rank (aw_main w') \<le> main_rank (aw_main w) \<and>
      (aw_main w' \<noteq> aw_main w \<longrightarrow> main_rank (aw_main w') < main_rank (aw_main w))"
      if "\<not> wakes (a # as)" "all_terminated w"
      using main_rank_act(1-3) [OF Cons.prems(2) 1(1) that(2)] 2(5) nw [OF that(1)] by fastforce
  qed (rule 2(2))
qed


section \<open>Stretches of a schedule\<close>

text \<open>
  A stretch in which at least \<open>D\<close> nanoseconds pass and then every thread gets a step, between any
  other actions.
\<close>

definition fair_stretch :: "int \<Rightarrow> world_action list \<Rightarrow> bool" where
  "fair_stretch D seg \<longleftrightarrow>
     (\<exists>xs ys. seg = xs @ ys \<and> D \<le> passed xs \<and> {Step Gps, Step Imu, Step Encoder, Main_Step} \<subseteq> set ys)"

lemma world_run_append: "world_run (xs @ ys) w = rbind (world_run xs w) (world_run ys)"
  by (induction xs arbitrary: w) (auto simp: rbind_def split: sum.splits)

text \<open>The states around one of the steps of a stretch.\<close>

lemma fair_step:
  assumes "world_ok s D w" and "fair_stretch D seg" and "aw_clock w + passed seg \<le> 2 ^ 61"
    and "\<not> wakes seg" and "a \<in> {Step Gps, Step Imu, Step Encoder, Main_Step}"
  obtains w1 w2 w' where "world_run seg w = Inr w'" and "world_act a w1 = Inr w2"
    and "world_ok s D w1" and "world_ok s D w2" and "world_ok s D w'" and "aw_clock w + D \<le> aw_clock w1"
    and "less_work w w1" and "less_work w1 w2" and "less_work w2 w'" and "aw_clock w' = aw_clock w + passed seg"
    and "all_terminated w \<Longrightarrow> all_terminated w1 \<and> all_terminated w2 \<and> all_terminated w' \<and>
       main_rank (aw_main w1) \<le> main_rank (aw_main w) \<and>
       (aw_main w1 \<noteq> aw_main w \<longrightarrow> main_rank (aw_main w1) < main_rank (aw_main w)) \<and>
       main_rank (aw_main w') \<le> main_rank (aw_main w2)"
proof -
  obtain xs ys where seg: "seg = xs @ ys" "D \<le> passed xs" "a \<in> set ys"
    using assms(2,5) by (auto simp: fair_stretch_def)
  then obtain y1 y2 where ys: "ys = y1 @ a # y2" by (meson split_list)
  have nw: "\<not> wakes (xs @ y1)" "\<not> wakes [a]" "\<not> wakes y2" using assms(4) by (auto simp: seg(1) ys wakes_def)
  have p: "passed seg = passed (xs @ y1) + passed [a] + passed y2"
    unfolding seg(1) ys by (cases a) (simp_all add: passed_append)
  have p0: "0 \<le> passed y1" "0 \<le> passed [a]" "0 \<le> passed y2" by (rule passed_nonneg)+
  obtain w1 where 1: "world_run (xs @ y1) w = Inr w1" "world_ok s D w1" "aw_clock w1 = aw_clock w + passed (xs @ y1)"
      "less_work w w1" "all_terminated w \<Longrightarrow> all_terminated w1 \<and> main_rank (aw_main w1) \<le> main_rank (aw_main w) \<and>
      (aw_main w1 \<noteq> aw_main w \<longrightarrow> main_rank (aw_main w1) < main_rank (aw_main w))"
    by (rule world_ok_run [OF assms(1), of "xs @ y1"]) (use assms(3) p p0 nw in auto)
  obtain w2 where 2: "world_act a w1 = Inr w2" "world_ok s D w2" "aw_clock w2 = aw_clock w1 + passed [a]"
    by (rule world_ok_act [OF 1(2), of a]) (use assms(3) p p0 1(3) in auto)
  obtain w' where 3: "world_run y2 w2 = Inr w'" "world_ok s D w'" "aw_clock w' = aw_clock w2 + passed y2"
      "less_work w2 w'" "all_terminated w2 \<Longrightarrow> all_terminated w' \<and> main_rank (aw_main w') \<le> main_rank (aw_main w2)"
    by (rule world_ok_run [OF 2(2), of y2]) (use assms(3) p 1(3) 2(3) nw in auto)
  show ?thesis
  proof (rule that [of w' w1 w2])
    have "world_run ((xs @ y1) @ a # y2) w = Inr w'" by (subst world_run_append) (simp add: 1(1) 2(1) 3(1))
    then show "world_run seg w = Inr w'" by (simp add: seg(1) ys)
    show "aw_clock w + D \<le> aw_clock w1" using 1(3) seg(2) p0(1) by (simp add: passed_append)
    show "less_work w1 w2" by (rule less_work_act [OF 1(2) 2(1) nw(2)])
    show "aw_clock w' = aw_clock w + passed seg" using 1(3) 2(3) 3(3) p by simp
    show "all_terminated w1 \<and> all_terminated w2 \<and> all_terminated w' \<and> main_rank (aw_main w1) \<le> main_rank (aw_main w) \<and>
       (aw_main w1 \<noteq> aw_main w \<longrightarrow> main_rank (aw_main w1) < main_rank (aw_main w)) \<and>
       main_rank (aw_main w') \<le> main_rank (aw_main w2)" if "all_terminated w"
      using 1(5) [OF that] main_rank_act(1) [OF 1(2) 2(1) _ nw(2)] 3(5) by blast
  qed (use 1 2 3 in simp_all)
qed

text \<open>
  In every stretch without a spurious wake-up the program comes closer to its end; a wake-up costs at
  most three steps of its thread.
\<close>

definition distance :: "agg_world \<Rightarrow> nat" where
  "distance w = (if all_terminated w then main_rank (aw_main w) else 20 + total_work w)"

fun wake_count :: "world_action list \<Rightarrow> nat" where
  "wake_count [] = 0"
| "wake_count (Wake k # as) = Suc (wake_count as)"
| "wake_count (_ # as) = wake_count as"

lemma wake_count_append: "wake_count (xs @ ys) = wake_count xs + wake_count ys"
  by (induction xs rule: wake_count.induct) simp_all

lemma wake_count_wakes: "wakes as \<longleftrightarrow> 0 < wake_count as"
  by (induction as rule: wake_count.induct) (auto simp: wakes_def)

lemma main_rank_le: "main_rank pc \<le> 19"
  by (cases pc) (simp_all split: sensor.split)

lemma thread_work_notify: "thread_work (notify_all t) \<le> thread_work t + 3"
proof -
  have "rs_pc (notify_all t) = rs_pc t" "rp_events (notify_all t) = rp_events t"
    by (simp_all add: notify_all_def split: run_pc.split)
  then show ?thesis using work_left_act [of Notify t "notify_all t"] by (simp add: thread_work_def)
qed

lemma distance_act:
  assumes "world_ok s D w" and "world_act a w = Inr w'"
  shows "distance w' \<le> distance w + 3 * wake_count [a] \<and> (distance w = 0 \<longrightarrow> distance w' = 0)"
proof (cases "\<exists>k. a = Wake k")
  case True
  then obtain k where w': "w' = w\<lparr>aw_thread := (aw_thread w)(k := notify_all (aw_thread w k))\<rparr>" "a = Wake k"
    using assms(2) by auto
  show ?thesis
  proof (cases "all_terminated w")
    case True
    then have "notify_all (aw_thread w k) = aw_thread w k" by (simp add: all_terminated_def notify_all_def)
    then show ?thesis by (simp add: w')
  next
    case False
    then have "total_work w' \<le> total_work w + 3" using thread_work_notify [of "aw_thread w k"]
      by (cases k) (simp_all add: total_work_def w'(1))
    with False main_rank_le [of "aw_main w'"] show ?thesis by (auto simp: distance_def w'(2))
  qed
next
  case False
  then have a: "\<not> wakes [a]" "wake_count [a] = 0" by (auto simp: wakes_def) (cases a; simp)
  show ?thesis
  proof (cases "all_terminated w")
    case True
    from main_rank_act(1,2) [OF assms True a(1)] True show ?thesis by (simp add: distance_def)
  next
    case False
    with less_work_total(1) [OF less_work_act [OF assms a(1)]] main_rank_le [of "aw_main w'"] show ?thesis
      by (auto simp: distance_def)
  qed
qed

lemma distance_run:
  "world_ok s D w \<Longrightarrow> world_run as w = Inr w' \<Longrightarrow> aw_clock w + passed as \<le> 2 ^ 61 \<Longrightarrow>
     distance w' \<le> distance w + 3 * wake_count as \<and> (distance w = 0 \<longrightarrow> distance w' = 0)"
proof (induction as arbitrary: w)
  case (Cons a as)
  have adv: "passed (a # as) = passed [a] + passed as" "wake_count (a # as) = wake_count [a] + wake_count as"
    by (cases a; simp)+
  with Cons.prems(3) passed_nonneg [of as] have "aw_clock w + passed [a] \<le> 2 ^ 61" by linarith
  with Cons.prems(1) obtain w1 where 1: "world_act a w = Inr w1" "world_ok s D w1" "aw_clock w1 = aw_clock w + passed [a]"
    by (rule world_ok_act)
  with Cons.IH [OF 1(2)] Cons.prems(2,3) adv(1)
  have "distance w' \<le> distance w1 + 3 * wake_count as \<and> (distance w1 = 0 \<longrightarrow> distance w' = 0)" by simp
  with distance_act [OF Cons.prems(1) 1(1)] adv(2) show ?case by auto
qed simp

lemma distance_0: "world_ok s D w \<Longrightarrow> distance w = 0 \<Longrightarrow> aw_main w = Main_Done"
  by (cases "aw_main w") (auto simp: distance_def split: if_splits sensor.splits)

lemma running_stretch:
  assumes "world_ok s D w" and "fair_stretch D seg" and "aw_clock w + passed seg \<le> 2 ^ 61" and "\<not> wakes seg"
    and "\<not> all_terminated w"
  obtains w' where "world_run seg w = Inr w'" and "world_ok s D w'" and "aw_clock w' = aw_clock w + passed seg"
    and "total_work w' < total_work w"
proof -
  obtain k where k: "rs_pc (aw_thread w k) \<noteq> Terminated" using assms(5) by (auto simp: all_terminated_def)
  define a where "a = (if rs_pc (aw_thread w k) = Not_Started then Main_Step else Step k)"
  have "a \<in> {Step Gps, Step Imu, Step Encoder, Main_Step}" by (cases k) (simp_all add: a_def)
  then obtain w1 w2 w' where r: "world_run seg w = Inr w'" "world_act a w1 = Inr w2" "world_ok s D w1" "world_ok s D w2"
      "world_ok s D w'" "aw_clock w + D \<le> aw_clock w1" "less_work w w1" "less_work w1 w2" "less_work w2 w'"
      "aw_clock w' = aw_clock w + passed seg"
    by (rule fair_step [OF assms(1-4)])
  have "total_work w' < total_work w"
  proof (cases "\<forall>j. rs_pc (aw_thread w1 j) = rs_pc (aw_thread w j)")
    case False
    then have "total_work w1 < total_work w" using less_work_total(2) [OF r(7)] by blast
    with less_work_total(1) [OF r(8)] less_work_total(1) [OF r(9)] show ?thesis by linarith
  next
    case same: True
    have "\<exists>j. rs_pc (aw_thread w2 j) \<noteq> rs_pc (aw_thread w1 j)"
    proof (cases "rs_pc (aw_thread w k) = Not_Started")
      case True
      then have "k \<in> unstarted (aw_main w1)" using r(3) same by (simp add: world_ok_def)
      then obtain j where j: "aw_main w1 = Start_Thread j" by (cases "aw_main w1") auto
      then have "rs_pc (aw_thread w1 j) = Not_Started" using r(3) by (cases j) (simp_all add: world_ok_def world_inv_def)
      moreover have "w2 = main_step w1" using r(2) True by (simp add: a_def)
      ultimately show ?thesis using j by (intro exI [of _ j]) (simp add: main_step_def start_thread_def)
    next
      case False
      then obtain t where t: "run_step (aw_thread w1 k) = Inr t" "aw_thread w2 k = t"
        using r(2) by (auto simp: a_def rbind_Inr_iff)
      have "rs_clock (aw_thread w1 k) = aw_clock w1" "rs_clock (aw_thread w k) = aw_clock w"
          "wait_inv D (aw_thread w k)"
        using r(3) assms(1) by (simp_all add: world_ok_def thread_ok_def)
      then have "deadline (aw_thread w1 k) \<le> rs_clock (aw_thread w1 k)"
        using r(6) same by (auto simp: deadline_def wait_inv_def split: run_pc.splits)
      from turn_moves [OF t(1) this] k False same t(2) show ?thesis by auto
    qed
    then have "total_work w2 < total_work w1" using less_work_total(2) [OF r(8)] by blast
    with less_work_total(1) [OF r(7)] less_work_total(1) [OF r(9)] show ?thesis by linarith
  qed
  with r show ?thesis using that by blast
qed

lemma ending_stretch:
  assumes "world_ok s D w" and "fair_stretch D seg" and "aw_clock w + passed seg \<le> 2 ^ 61" and "\<not> wakes seg"
    and "all_terminated w"
  obtains w' where "world_run seg w = Inr w'" and "world_ok s D w'" and "aw_clock w' = aw_clock w + passed seg"
    and "all_terminated w'" and "main_rank (aw_main w') \<le> main_rank (aw_main w) - 1"
proof -
  obtain w1 w2 w' where r: "world_run seg w = Inr w'" "world_act Main_Step w1 = Inr w2" "world_ok s D w1" "world_ok s D w2"
      "world_ok s D w'" "aw_clock w + D \<le> aw_clock w1" "less_work w w1" "less_work w1 w2" "less_work w2 w'"
      "aw_clock w' = aw_clock w + passed seg"
      "all_terminated w \<Longrightarrow> all_terminated w1 \<and> all_terminated w2 \<and> all_terminated w' \<and>
       main_rank (aw_main w1) \<le> main_rank (aw_main w) \<and>
       (aw_main w1 \<noteq> aw_main w \<longrightarrow> main_rank (aw_main w1) < main_rank (aw_main w)) \<and>
       main_rank (aw_main w') \<le> main_rank (aw_main w2)"
    by (rule fair_step [OF assms(1-4), of Main_Step]) auto
  note tm = r(11) [OF assms(5)]
  have nw: "\<not> wakes [Main_Step]" by (simp add: wakes_def)
  note rank = main_rank_act [OF r(3,2) _ nw]
  have "main_rank (aw_main w') \<le> main_rank (aw_main w) - 1"
  proof (cases "aw_main w1 = aw_main w \<and> aw_main w1 \<noteq> Main_Done")
    case True
    then have "\<forall>t. aw_main w1 = Sleeping t \<longrightarrow> t \<le> aw_clock w1" using assms(1) r(6) by (auto simp: world_ok_def)
    then have "main_rank (aw_main w2) < main_rank (aw_main w1)" using rank(3,4) tm True by blast
    moreover have "main_rank (aw_main w') \<le> main_rank (aw_main w2)" using tm by simp
    moreover have "main_rank (aw_main w1) = main_rank (aw_main w)" using True by simp
    ultimately show ?thesis by linarith
  next
    case False
    then have "main_rank (aw_main w1) \<le> main_rank (aw_main w) - 1" using tm by fastforce
    with rank(2) tm show ?thesis by linarith
  qed
  with r tm show ?thesis using that by blast
qed


lemma stretch_closer:
  assumes "world_ok s D w" and "fair_stretch D seg" and "aw_clock w + passed seg \<le> 2 ^ 61" and "\<not> wakes seg"
  obtains w' where "world_run seg w = Inr w'" and "world_ok s D w'" and "aw_clock w' = aw_clock w + passed seg"
    and "distance w' \<le> distance w - 1"
proof (cases "all_terminated w")
  case True
  then show ?thesis using that by (auto simp: distance_def intro: ending_stretch [OF assms])
next
  case False
  then obtain w' where w': "world_run seg w = Inr w'" "world_ok s D w'" "aw_clock w' = aw_clock w + passed seg"
      "total_work w' < total_work w"
    by (rule running_stretch [OF assms])
  have "main_rank (aw_main w') \<le> 19" by (rule main_rank_le)
  then have "distance w' \<le> distance w - 1" using w'(4) False by (auto simp: distance_def)
  with w' show ?thesis using that by blast
qed

lemma stretches_end:
  assumes "world_ok s D w" and "\<forall>seg \<in> set segs. fair_stretch D seg" and "aw_clock w + passed (concat segs) \<le> 2 ^ 61"
  shows "\<exists>w'. world_run (concat segs) w = Inr w' \<and> world_ok s D w' \<and>
     (distance w' = 0 \<or> distance w' + length segs \<le> distance w + 4 * wake_count (concat segs))"
  using assms
proof (induction segs arbitrary: w)
  case (Cons seg segs)
  have p: "aw_clock w + passed seg + passed (concat segs) \<le> 2 ^ 61" "aw_clock w + passed seg \<le> 2 ^ 61"
    using Cons.prems(3) passed_nonneg [of "concat segs"] by (simp_all add: passed_append)
  obtain w1 where 1: "world_run seg w = Inr w1" "world_ok s D w1" "aw_clock w1 = aw_clock w + passed seg"
    by (rule world_ok_run [OF Cons.prems(1) p(2)])
  have d1: "distance w = 0 \<and> distance w1 = 0 \<or> distance w1 + 1 \<le> distance w + 4 * wake_count seg"
  proof (cases "wakes seg")
    case True
    then have "0 < wake_count seg" by (simp add: wake_count_wakes)
    with distance_run [OF Cons.prems(1) 1(1) p(2)] show ?thesis by auto
  next
    case False
    obtain w2 where "world_run seg w = Inr w2" "distance w2 \<le> distance w - 1"
      by (rule stretch_closer [OF Cons.prems(1) _ p(2) False]) (use Cons.prems(2) in auto)
    with 1(1) distance_run [OF Cons.prems(1) 1(1) p(2)] show ?thesis by auto
  qed
  obtain w' where w': "world_run (concat segs) w1 = Inr w'" "world_ok s D w'"
      "distance w' = 0 \<or> distance w' + length segs \<le> distance w1 + 4 * wake_count (concat segs)"
    using Cons.IH [OF 1(2)] Cons.prems(2) p(1) 1(3) by auto
  have "distance w1 = 0 \<Longrightarrow> distance w' = 0" using distance_run [OF 1(2) w'(1)] p(1) 1(3) by simp
  with d1 w'(3) have "distance w' = 0 \<or> distance w' + length (seg # segs) \<le> distance w + 4 * wake_count (concat (seg # segs))"
    by (auto simp: wake_count_append)
  moreover have "world_run (concat (seg # segs)) w = Inr w'" by (simp add: world_run_append 1(1) w'(1))
  ultimately show ?case using w'(2) by blast
qed simp

text \<open>The first state.\<close>

definition setup_sane :: "int \<Rightarrow> int \<Rightarrow> agg_setup \<Rightarrow> bool" where
  "setup_sane start D s \<longleftrightarrow> ms_to_ns printInterval \<le> D \<and>
     (\<forall>k. rp_replay_start (as_producer s k) \<le> start \<and> times_ok (as_producer s k) \<and> waits_within D (as_producer s k))"

text \<open>Speeds between 1/100 and 100 and event times up to seven weeks are sane.\<close>

lemma offset_in_range:
  assumes "speed_ok x" and "0 \<le> ts" and "ts < 2 ^ 32"
  shows "\<exists>d. replay_offset x ts = Inr d \<and> in_range d"
proof -
  have t: "(of_int ts :: rat) < 2 ^ 32" "0 \<le> (of_int ts :: rat)" using int_bound [OF assms(3)] assms(2) by simp_all
  have x: "dfinite x" "1 / 100 \<le> dval x" using assms(1) by (auto simp: speed_ok_def)
  have "dnonneg (of_integer ts) (2 * of_int ts + 1)" by (rule of_integer_nonneg) (use assms(2,3) in simp_all)
  from ddiv_nonneg [OF this x] t
  have "dnonneg (ddiv (of_integer ts) x) (2 * ((2 * of_int ts + 1) * 100) + 1)" by simp
  then obtain d where "cast_long (ddiv (of_integer ts) x) = Inr d" "0 \<le> d" "d < 2 ^ 41"
    by (rule cast_long_nonneg [where n = "2 ^ 41"]) (use t in simp_all)
  then show ?thesis by (auto simp: replay_offset_def to_ns_def long_mul_def long_check_def in_range_def)
qed

lemma times_ok_bounds:
  assumes "speed_ok (rp_speed_factor p)" and "\<forall>ev \<in> set (rp_events p). 0 \<le> re_ts_ms ev \<and> re_ts_ms ev < 2 ^ 32"
    and "in_range (rp_replay_start p)" and "in_range (stall_ns p)"
  shows "times_ok p"
  using assms offset_in_range by (auto simp: times_ok_def)

lemma world_ok_start:
  assumes "setup_ok s" and "setup_sane start D s" and "start \<le> now" and "0 \<le> now"
  shows "world_ok s D (world_of start now s)"
proof -
  have "thread_ok D (as_producer s k) (replay_of now (as_producer s k))" for k
  proof -
    have p: "rp_replay_start (as_producer s k) \<le> start" "times_ok (as_producer s k)" "waits_within D (as_producer s k)"
      using assms(2) by (simp_all add: setup_sane_def)
    have "start_inv (replay_of now (as_producer s k))" using p(2)
      by (simp add: start_inv_def times_ok_def in_range_def replay_of_def producer.defs)
    moreover have "0 \<le> D" using p(3) by (simp add: waits_within_def)
    then have "wait_inv D (replay_of now (as_producer s k))" using p(1) assms(3)
      by (simp add: wait_inv_def replay_of_def producer.defs)
    ultimately show ?thesis using p assms(1)
      by (simp add: thread_ok_def setup_ok_def replay_of_def producer.defs)
  qed
  then show ?thesis using assms world_inv_start [OF assms(1), of start now]
    by (simp add: world_ok_def setup_sane_def world_of_def replay_of_def producer.defs) (metis sensor.exhaust)
qed

lemma distance_start:
  "distance (world_of start now s) \<le> 65 + 7 * (length (rp_events (as_producer s Gps)) +
     length (rp_events (as_producer s Imu)) + length (rp_events (as_producer s Encoder)))"
  by (simp add: distance_def all_terminated_def total_work_def thread_work_def world_of_def replay_of_def producer.defs)

text \<open>
  The input the theorem is for: speeds between 1/100 and 100, event times from 0 to below 2^32
  milliseconds (seven weeks), stalls of at most 2^32 milliseconds. The scaled times are then defined
  and in range. Outside it they need not be: with a speed of zero their computation is undefined.
\<close>

definition inputs_in_range :: "agg_setup \<Rightarrow> bool" where
  "inputs_in_range s \<longleftrightarrow> (\<forall>k. speed_ok (rp_speed_factor (as_producer s k)) \<and>
     \<bar>rp_stall_duration (as_producer s k)\<bar> \<le> 2 ^ 32 \<and>
     (\<forall>ev \<in> set (rp_events (as_producer s k)). 0 \<le> re_ts_ms ev \<and> re_ts_ms ev < 2 ^ 32))"

lemma prepared_start:
  assumes "agg_prepare std_sort files opens start argv = Inr (Running s)"
  shows "rp_replay_start (as_producer s k) = start"
proof -
  obtain st where st: "(case st of Exited status out err \<Rightarrow> Inr (Exited status out err)
       | Running a \<Rightarrow>
           catch_exception (\<lambda>what. Inr (Exited 1 '''' (''Error loading reference data: '' @ what @ [newline])))
             (rbind (agg_load files (aa_data_dir a)) (\<lambda>evs.
                Inr (Running (agg_setup_of std_sort opens start a evs))))) = Inr (Running s)"
    using assms by (auto simp: agg_prepare_def rbind_Inr_iff)
  obtain a g i e where s: "s = agg_setup_of std_sort opens start a (g, i, e)"
  proof (cases st)
    case (Running a)
    with st that [of a] show ?thesis by (auto simp: catch_exception_Inr rbind_Inr_iff)
  qed (use st in simp)
  show ?thesis by (cases k) (simp_all add: s agg_setup_of_def with_stall_def injectStall_def new_producer_def)
qed

lemma inputs_sane:
  assumes "agg_prepare std_sort files opens start argv = Inr (Running s)" and "inputs_in_range s"
    and "\<forall>k. waits_within D (as_producer s k)" and "ms_to_ns printInterval \<le> D" and "0 \<le> start" and "start \<le> 2 ^ 61"
  shows "setup_sane start D s"
proof -
  have "times_ok (as_producer s k)" for k
  proof (rule times_ok_bounds)
    have "\<bar>rp_stall_duration (as_producer s k)\<bar> \<le> 2 ^ 32" using assms(2) by (simp add: inputs_in_range_def)
    then show "in_range (stall_ns (as_producer s k))" by (simp add: in_range_def stall_ns_def abs_le_iff)
    show "in_range (rp_replay_start (as_producer s k))"
      using assms(5,6) by (simp add: prepared_start [OF assms(1)] in_range_def)
  qed (use assms(2) in \<open>auto simp: inputs_in_range_def\<close>)
  with assms(3,4) show ?thesis by (simp add: setup_sane_def prepared_start [OF assms(1)])
qed

text \<open>
  C7: the aggregator ends. Let speeds, event times and stalls be in the range above, and let no wait
  of a producer be longer than \<open>D\<close> (twice the largest scaled time, and the stall). Take any schedule
  that consists of stretches, in each of which at least \<open>D\<close> passes and every thread gets a step
  afterwards, in any order and between any other actions, spurious wake-ups included. If it has 65
  stretches, seven more for every sample and four more for every spurious wake-up, and the clock stays
  below 2^61 nanoseconds, no step of it is undefined and \<open>main\<close> reaches its end. In particular it ends
  under every such fair schedule with finitely many spurious wake-ups.
\<close>

theorem program_ends:
  assumes "sorts_by re_ts_ms std_sort" and "agg_prepare std_sort files opens start argv = Inr (Running s)"
    and "inputs_in_range s" and "\<forall>k. waits_within D (as_producer s k)" and "ms_to_ns printInterval \<le> D"
    and "0 \<le> start" and "start \<le> now"
    and "\<forall>seg \<in> set segs. fair_stretch D seg" and "now + passed (concat segs) \<le> 2 ^ 61"
    and "65 + 7 * (length (rp_events (as_producer s Gps)) + length (rp_events (as_producer s Imu)) +
       length (rp_events (as_producer s Encoder))) + 4 * wake_count (concat segs) \<le> length segs"
  shows "\<exists>w. world_run (concat segs) (world_of start now s) = Inr w \<and> aw_main w = Main_Done"
proof -
  have "setup_ok s" using prepared_setup [OF assms(1,2)] by simp
  moreover have "start \<le> 2 ^ 61" using assms(7,9) passed_nonneg [of "concat segs"] by linarith
  with assms have "setup_sane start D s" by (intro inputs_sane) simp_all
  ultimately have ok: "world_ok s D (world_of start now s)" by (rule world_ok_start) (use assms(6,7) in simp_all)
  have "aw_clock (world_of start now s) + passed (concat segs) \<le> 2 ^ 61" using assms(9) by (simp add: world_of_def)
  from stretches_end [OF ok assms(8) this] obtain w where w: "world_run (concat segs) (world_of start now s) = Inr w"
      "world_ok s D w"
      "distance w = 0 \<or> distance w + length segs \<le> distance (world_of start now s) + 4 * wake_count (concat segs)" by blast
  have "distance w = 0" using w(3) distance_start [of start now s] assms(10) by linarith
  with w distance_0 show ?thesis by blast
qed

text \<open>Three of the stretches have a spurious wake-up.\<close>

definition sample_stretch :: "world_action list" where
  "sample_stretch = [Main_Step, Pass 200000000, Step Encoder, Main_Step, Step Imu, Step Gps]"

definition sample_stretches :: "world_action list list" where
  "sample_stretches = replicate 4 sample_stretch @ map (\<lambda>k. sample_stretch @ [Wake k]) [Gps, Imu, Encoder] @ replicate 77 sample_stretch"

theorem program_ends_witness:
  "\<exists>w. world_run (concat sample_stretches) (world_of 0 0 sample_setup) = Inr w \<and> aw_main w = Main_Done"
proof (rule program_ends [OF sorts_by_sort_key sample_prepared, of 200000000])
  have off: "replay_offset (of_integer 1) 0 = Inr 0" using default_speed [of 0] by simp
  have p: "rp_events (as_producer sample_setup k) = (if k = Gps then [sample_gps_event] else []) \<and>
      rp_speed_factor (as_producer sample_setup k) = of_integer 1 \<and> rp_replay_start (as_producer sample_setup k) = 0 \<and>
      rp_stall_duration (as_producer sample_setup k) = 0" for k
    by (cases k) (simp_all add: sample_setup_def agg_setup_of_def new_producer_def with_stall_def default_agg_args_def)
  have one: "speed_ok (of_integer 1)" using of_integer_exact [of 1] by (simp add: speed_ok_def)
  show "inputs_in_range sample_setup" by (simp add: inputs_in_range_def p one sample_gps_event_def)
  show "\<forall>k. waits_within 200000000 (as_producer sample_setup k)"
    by (simp add: waits_within_def p stall_ns_def offset_of_def sample_gps_event_def off)
  have s: "concat sample_stretches = concat (replicate 4 sample_stretch) @ concat (map (\<lambda>k. sample_stretch @ [Wake k]) [Gps, Imu, Encoder]) @
      concat (replicate 77 sample_stretch)"
    by (simp add: sample_stretches_def)
  have "passed (concat (replicate n sample_stretch)) = int n * 200000000"
      "wake_count (concat (replicate n sample_stretch)) = 0" for n
    by (induction n) (simp_all add: passed_append wake_count_append sample_stretch_def)
  then have n: "passed (concat sample_stretches) = 84 * 200000000" "wake_count (concat sample_stretches) = 3"
    unfolding s passed_append wake_count_append by (simp_all add: sample_stretch_def)
  then show "0 + passed (concat sample_stretches) \<le> 2 ^ 61" by simp
  show "65 + 7 * (length (rp_events (as_producer sample_setup Gps)) + length (rp_events (as_producer sample_setup Imu)) +
       length (rp_events (as_producer sample_setup Encoder))) + 4 * wake_count (concat sample_stretches) \<le> length sample_stretches"
    by (simp add: p n(2)) (simp add: sample_stretches_def)
  have "fair_stretch 200000000 (sample_stretch @ e)" for e
    unfolding fair_stretch_def sample_stretch_def
    by (intro exI [of _ "[Main_Step, Pass 200000000]"] exI [of _ "[Step Encoder, Main_Step, Step Imu, Step Gps] @ e"]) auto
  from this [of "[]"] this show "\<forall>seg \<in> set sample_stretches. fair_stretch 200000000 seg"
    by (auto simp: sample_stretches_def)
qed (simp_all add: ms_to_ns_def printInterval_def)

end
