(* ===== verification/Spec2Isabelle.thy ===== *)
theory Spec2Isabelle
  imports Uart_Sample Uart_Tests Can_Sample_Log Can_Tests Agg_Program_Live
begin

text \<open>
  A model of three C++ programs for vehicle data and the theorems that make them correct: the UART
  packet parser (\<open>src/task1_uart_parser\<close>), the sensor aggregator (\<open>src/task2_sensor_aggregator\<close>)
  and the CAN decoder (\<open>src/task3_can_decoder\<close>). The programs share no code. All header and
  implementation files are modelled, from the command line to the printed text.

  \<^bold>\<open>The programs\<close>

  \<^item> The UART program reads a file and feeds it byte by byte to a packet parser with a checksum; the
    parser calls back for every packet, and the program prints packets and counters.
  \<^item> The sensor aggregator loads three logs. Three threads replay them on the clock, scaled by a speed
    and with an optional stall, into one state under a mutex. The main thread prints and exports a
    snapshot every 200 ms until all threads have finished, then stops and joins them and prints the
    final state.
  \<^item> The CAN decoder loads a signal database (JSON) and a log of frames, sorts the frames and replays
    them on the clock. Each frame goes through the diagnostics engine and, when its identifier is
    known, into the live vehicle state; while the program waits it polls for timeouts and prints
    status lines. At the end it prints a summary.

  \<^bold>\<open>The theories and the code\<close>

  \<^item> \<open>Cpp_Prelude\<close>: results of computations (a value, an exception or undefined behaviour), the ranges
    of \<open>int\<close> and \<open>long\<close>, shared lemmas. \<open>Std_Map\<close>: \<open>std::map\<close>, behind the interface
    \<open>ordered_map\<close>. \<open>Cpp_Double\<close> and \<open>Cpp_Double_Bounds\<close>: the type \<open>double\<close>, when its operations
    are exact, how far they are off otherwise, and ranges. \<open>Cpp_Text\<close> and \<open>Cpp_Stod\<close>: printing and
    reading of numbers.
  \<^item> \<open>Crc16\<close>: \<open>crc16.cpp\<close>. \<open>Uart_Parser\<close>: \<open>uart_parser.hpp\<close> and \<open>uart_parser.cpp\<close>; the members of
    \<open>UartParser\<close> are the record \<open>uart_parser\<close>, one definition per operation. \<open>Uart_Spec\<close>: the
    batch decoder \<open>scan\<close> as the abstract specification. \<open>Uart_Main\<close>: \<open>main.cpp\<close>.
  \<^item> \<open>Csv_Reader\<close>: \<open>csv_reader.cpp\<close>. \<open>Agg_Vehicle_State\<close> and \<open>Agg_Threads\<close>: \<open>vehicle_state.cpp\<close>, as
    operations and as the statements of any number of threads under the mutex. \<open>Sensor_Producer\<close> and
    \<open>Sensor_Producer_Live\<close>: \<open>sensor_producer.hpp\<close> and \<open>sensor_producer.cpp\<close>. \<open>Agg_Main\<close>,
    \<open>Agg_Program\<close> and \<open>Agg_Program_Live\<close>: \<open>main.cpp\<close> and the composition of all its threads.
  \<^item> \<open>Can_Types\<close>: the data of \<open>dbc_database.hpp\<close>, \<open>signal_codec.hpp\<close> and \<open>frame_log_reader.hpp\<close>.
    \<open>Signal_Codec\<close>: \<open>signal_codec.cpp\<close>. \<open>Json_Value\<close>, \<open>Dbc_Database\<close> and \<open>Frame_Log_Reader\<close>: the
    files of these names; \<open>Json_Layout\<close> is a grammar of JSON texts, independent of the reader, a printer
    and the indented layout. \<open>Diagnostics\<close>: \<open>diagnostics.cpp\<close>, with the abstract monitors in
    \<open>Diagnostics_Spec\<close> and what follows from them in \<open>Diagnostics_Props\<close> and \<open>Diagnostics_Totals\<close>.
    \<open>Can_Vehicle_State\<close>: \<open>vehicle_state.cpp\<close>. \<open>Can_Main\<close> and \<open>Can_Main_Live\<close>: \<open>main.cpp\<close>.

  \<^item> \<open>Uart_Sample\<close>: the UART program on the sample stream of the repository, with the packets and
    counters its README shows. \<open>Can_Sample\<close>: the text of \<open>data/dbc.json\<close> and the table the loader
    makes of it, which meets the hypotheses of the theorems on the CAN decoder for every log.
    \<open>Can_Sample_Log\<close>: the 224 frames of \<open>data/frames.log\<close> and the summary of the program on both files.
  \<^item> \<open>Unit_Check\<close>, \<open>Uart_Tests\<close> and \<open>Can_Tests\<close>: the two test programs, \<open>tests/test_uart_parser.cpp\<close>
    and \<open>tests/test_can_decoder.cpp\<close>, as checks on the models; all 30 and all 9 checks hold.

  \<^bold>\<open>What is shown\<close>

  \<^item> UART: the parser never leaves its buffer, and on every stream of bytes it delivers the packets and
    ends with the counters of the batch decoder. Hence the round trip with an encoder, recovery from
    noise, the rejection of corrupted frames (through the reading of the checksum as a polynomial
    remainder), an account of every byte, and the text the program prints.
  \<^item> Aggregator: concurrent calls under the mutex have the effect of the atomic operations in the order
    of the mutex; a snapshot shows the latest update of each sensor and flags exactly the stale ones; a
    producer applies its events in order, up to the stall none before its scaled time, stalls once for
    the configured time, takes the clock reading at the end of the stall as the new scaled time of the
    event that triggered it, and ends; a stop request takes effect within five steps of the thread, but
    one that arrives between its test and its wait is missed until the deadline. For the whole program:
    at every interleaving of the four threads the snapshots show the newest applied events, the final
    one shows all of them, and \<open>main\<close> ends under every schedule that goes on giving time and then a step
    to every thread, with finitely many spurious wake-ups (65 rounds, 7 per event, 4 per wake-up).
  \<^item> CAN: bit extraction is division and remainder on the payload as a number, in both byte orders, with
    the exact conditions under which it is undefined, and scaled values are off by at most half a unit
    in the last place; the JSON reader gives every text of a grammar (JSON without arrays, with the
    five escapes the reader knows) its value and is total; the loader gives every message a file
    describes with all its fields, and rejects files that lack a required member; the frame reader
    inverts a printer; the diagnostics engine runs one integer monitor per message, whence closed forms of the counters, one timeout per silence and
    detection of every corrupted byte of a message with a checksum; the live state holds the last value of each field. For the
    whole program: the summary counts the frames and faults of the log whatever the clock does, no
    frame is decoded too early, and the replay is defined and ends. On the files of the repository the
    summary has the two faults that were put into the log, and no other fault of these kinds.

  \<^bold>\<open>Interfaces\<close>

  Laws that a client uses are stated as locales, with the client's lemmas in them: \<open>ordered_map\<close> (the
  JSON objects and the message table), \<open>running_checksum\<close> and its extension \<open>burst_detecting\<close> (the
  parser's view of the checksum) and \<open>sensor_slot\<close> (the part of the shared state that one sensor
  owns, interpreted for each of the three). Every one is interpreted on the model of the code.

  \<^bold>\<open>Modelling decisions and bounds\<close>

  \<^item> Bytes, checksums, identifiers and the counters of type \<open>uint64_t\<close> are words of their width and
    wrap around. The signed types \<open>int\<close> and \<open>long\<close> are integers whose operations check the range
    and give the error value of undefined behaviour outside it; shifts check their width. Lengths
    and indices of type \<open>size_t\<close> are natural numbers. A \<open>double\<close> is a binary64 number, rounded to
    nearest; products and sums are not fused.
  \<^item> The clock is a number of nanoseconds that a schedule advances at will. Threads are machines that
    make one access to shared data, the clock or a condition variable per step; a schedule interleaves
    them, with spurious wake-ups. The operations on the shared state are single steps of the
    composed program, which \<open>Agg_Threads\<close> justifies for their statements under the mutex.
  \<^item> Theorems that arithmetic stays defined assume ranges far beyond use: clock readings below \<open>2^60\<close>
    or \<open>2^61\<close> nanoseconds (36 and 73 years), time stamps of frames and samples below \<open>2^32\<close>
    ms, and a replay speed from 1/100 to 100 (with a speed of zero the computation is undefined). Those
    about the diagnostics engine assume a database whose counters and checksums lie in the payload. The
    others hold for whatever the code accepts, under the conditions on the input that they name.
  \<^item> Recursion is structural or has a termination proof by a measure, but for the JSON parser: it
    carries a fuel of one more than the length of the text, and its totality theorem shows that the
    fuel is never used up. Threads may run for ever; that they end is proved of every schedule that
    gives time and turns, with the number of steps that suffices.
  \<^item> \<open>std::sort\<close> is a parameter: any function that sorts by the key and keeps the elements (the order
    of equal keys is open). The contents of files and whether the export file can be opened are
    parameters too. Texts written to the terminal or a file are strings.

  \<^bold>\<open>Not modelled\<close>

  A failure of memory, of the C++ stack (the JSON parser is recursive) or of a write to an open file; the memory
  model beyond mutexes, condition variables and sequentially consistent atomics.
\<close>

end
